(* ===== verification/Prelude.thy ===== *)
theory Prelude
  imports Main "HOL-Library.Multiset" "HOL-Library.Monad_Syntax"
begin

text \<open>
  Shared vocabulary of the development: the treatment of fatal assertions, the exchange of two
  cells of a vector, and the list lemmas that several components use. A computation that may
  hit a failing \<open>ASSERT\<close> (or read through a null or dangling pointer) has a result of type
  \<open>'a option\<close>; \<open>None\<close> is the abort of the process (\<open>base/logging.h\<close>,
  \<open>ShutdownSystem\<close>). \<open>LOG\<close> and \<open>VLOG\<close> write to the standard output only and
  are left out everywhere.
\<close>

named_theorems vec_simps \<open>how the vector operations of the model act on a single cell\<close>

section \<open>Fatal assertions\<close>

definition ASSERT :: "bool \<Rightarrow> unit option" where
  "ASSERT b = (if b then Some () else None)"

lemma ASSERT_True [simp]: "ASSERT True = Some ()"
  by (simp add: ASSERT_def)

lemma ASSERT_False [simp]: "ASSERT False = None"
  by (simp add: ASSERT_def)

lemma ASSERT_eq_Some [simp]: "ASSERT b = Some u \<longleftrightarrow> b"
  by (simp add: ASSERT_def)

lemma ASSERT_bind_eq_Some [simp]: "(ASSERT b \<bind> f) = Some y \<longleftrightarrow> b \<and> f () = Some y"
  by (cases b) simp_all

section \<open>Exchanging two cells of a vector\<close>

definition list_swap :: "'a list \<Rightarrow> nat \<Rightarrow> nat \<Rightarrow> 'a list" where
  "list_swap xs i j = xs[i := xs ! j, j := xs ! i]"

lemma length_list_swap [simp]: "length (list_swap xs i j) = length xs"
  by (simp add: list_swap_def)

lemma nth_list_swap [vec_simps]:
  "i < length xs \<Longrightarrow> j < length xs \<Longrightarrow> k < length xs \<Longrightarrow>
   list_swap xs i j ! k = (if k = i then xs ! j else if k = j then xs ! i else xs ! k)"
  by (auto simp: list_swap_def nth_list_update)

lemma mset_list_swap [simp]:
  "i < length xs \<Longrightarrow> j < length xs \<Longrightarrow> mset (list_swap xs i j) = mset xs"
  by (simp add: list_swap_def mset_swap)

lemma set_list_swap [simp]:
  "i < length xs \<Longrightarrow> j < length xs \<Longrightarrow> set (list_swap xs i j) = set xs"
  by (metis mset_list_swap set_mset_mset)

lemma distinct_list_swap [simp]:
  "i < length xs \<Longrightarrow> j < length xs \<Longrightarrow> distinct (list_swap xs i j) = distinct xs"
  by (simp add: list_swap_def distinct_swap)

section \<open>Overwriting a cell by the last one and dropping the last one\<close>

lemma length_butlast_update [simp]: "length (butlast (xs[i := x])) = length xs - 1"
  by simp

lemma nth_butlast_update_last [vec_simps]:
  "i < length xs \<Longrightarrow> j < length xs - 1 \<Longrightarrow>
   butlast (xs[i := last xs]) ! j = (if j = i then last xs else xs ! j)"
  by (auto simp: nth_butlast nth_list_update)

lemma mset_butlast_update_last:
  assumes "i < length xs"
  shows "mset (butlast (xs[i := last xs])) = mset xs - {#xs ! i#}"
proof (cases xs rule: rev_cases)
  case Nil
  with assms show ?thesis by simp
next
  case (snoc ys y)
  show ?thesis
  proof (cases "i = length ys")
    case True
    with snoc show ?thesis by simp
  next
    case False
    with snoc assms have i: "i < length ys" by simp
    with snoc have "mset (butlast (xs[i := last xs])) = mset (ys[i := y])"
      by (simp add: list_update_append)
    also have "\<dots> = add_mset y (mset ys - {#ys ! i#})"
      using i by (simp add: mset_update)
    also have "\<dots> = add_mset y (mset ys) - {#ys ! i#}"
      using i by (simp add: add_mset_remove_trivial_If diff_union_swap2 mset_update nth_mem_mset)
    finally show ?thesis using snoc i by (simp add: nth_append)
  qed
qed

lemma distinct_butlast_update_last:
  assumes "i < length xs" "distinct xs"
  shows "distinct (butlast (xs[i := last xs]))"
    and "set (butlast (xs[i := last xs])) = set xs - {xs ! i}"
proof -
  have m: "mset (butlast (xs[i := last xs])) = mset xs - {#xs ! i#}"
    using assms(1) by (rule mset_butlast_update_last)
  have s: "mset xs = mset_set (set xs)"
    using assms(2) by (simp add: mset_set_set)
  have "mset xs - {#xs ! i#} = mset_set (set xs - {xs ! i})"
    using assms(1) s by (simp add: mset_set_Diff)
  with m have e: "mset (butlast (xs[i := last xs])) = mset_set (set xs - {xs ! i})"
    by simp
  then have "set_mset (mset (butlast (xs[i := last xs]))) = set xs - {xs ! i}"
    by simp
  then show st: "set (butlast (xs[i := last xs])) = set xs - {xs ! i}"
    by simp
  from e have "mset (butlast (xs[i := last xs])) = mset_set (set (butlast (xs[i := last xs])))"
    by (simp only: st)
  then show "distinct (butlast (xs[i := last xs]))"
    by (metis mset_eq_setD mset_set_set distinct_remdups mset_eq_imp_distinct_iff set_remdups)
qed

lemma set_remove_mset:
  assumes "mset xs = add_mset t (mset ys)" "distinct xs"
  shows "set ys = set xs - {t}" "distinct ys"
proof -
  have "mset (t # ys) = mset xs" using assms(1) by simp
  then have "distinct (t # ys)" "set (t # ys) = set xs"
    using assms(2) mset_eq_imp_distinct_iff mset_eq_setD by blast+
  then show "set ys = set xs - {t}" "distinct ys" by auto
qed

end
