(* ===== verification/Heap_Order.thy ===== *)
theory Heap_Order
  imports Prelude
begin

text \<open>
  The array heaps of the code base (\<open>util/templates/container/ra_heap.h\<close> and
  \<open>util/algorithm/nodelist.h\<close>) share one layout: the children of cell \<open>i\<close> are the cells
  \<open>2 * i + 1\<close> and \<open>2 * i + 2\<close>. This theory holds the lemmas on that layout, over an order
  \<open>ok p c\<close> ("\<open>p\<close> may stand above \<open>c\<close>") that is total and transitive: the two ways a heap
  can be off at one cell, and how an exchange with the parent or with the preferred child moves
  the defect.
\<close>

section \<open>Layout\<close>

definition par :: "nat \<Rightarrow> nat" where
  "par i = (i - 1) div 2"

lemma par_less [simp]: "0 < i \<Longrightarrow> par i < i"
  by (simp add: par_def)

lemma par_le [simp]: "par i \<le> i"
  by (simp add: par_def)

lemma par_less_length [intro]: "i < n \<Longrightarrow> par i < n"
  using par_le [of i] by linarith

lemma par_child [simp]: "par (2 * i + 1) = i" "par (Suc (2 * i)) = i" "par (2 * i + 2) = i"
    "par (Suc (Suc (2 * i))) = i"
  by (simp_all add: par_def)

lemma par_eq_iff: "0 < c \<Longrightarrow> par c = i \<longleftrightarrow> c = 2 * i + 1 \<or> c = 2 * i + 2"
  by (auto simp: par_def)

definition is_heap :: "('a \<Rightarrow> 'a \<Rightarrow> bool) \<Rightarrow> 'a list \<Rightarrow> bool" where
  "is_heap ok xs \<longleftrightarrow> (\<forall>i < length xs. 0 < i \<longrightarrow> ok (xs ! par i) (xs ! i))"

text \<open>Cell \<open>k\<close> may be wrong against its parent and against its children.\<close>

definition heap_hole :: "('a \<Rightarrow> 'a \<Rightarrow> bool) \<Rightarrow> 'a list \<Rightarrow> nat \<Rightarrow> bool" where
  "heap_hole ok xs k \<longleftrightarrow>
     (\<forall>i < length xs. 0 < i \<longrightarrow> i \<noteq> k \<longrightarrow> par i \<noteq> k \<longrightarrow> ok (xs ! par i) (xs ! i)) \<and>
     (\<forall>i < length xs. 0 < i \<longrightarrow> par i = k \<longrightarrow> 0 < k \<longrightarrow> ok (xs ! par k) (xs ! i))"

text \<open>Cell \<open>k\<close> may be wrong against its parent only.\<close>

definition heap_up :: "('a \<Rightarrow> 'a \<Rightarrow> bool) \<Rightarrow> 'a list \<Rightarrow> nat \<Rightarrow> bool" where
  "heap_up ok xs k \<longleftrightarrow> heap_hole ok xs k \<and>
     (\<forall>i < length xs. 0 < i \<longrightarrow> par i = k \<longrightarrow> ok (xs ! k) (xs ! i))"

text \<open>Cell \<open>k\<close> may be wrong against its children only.\<close>

definition heap_down :: "('a \<Rightarrow> 'a \<Rightarrow> bool) \<Rightarrow> 'a list \<Rightarrow> nat \<Rightarrow> bool" where
  "heap_down ok xs k \<longleftrightarrow> heap_hole ok xs k \<and>
     (0 < k \<longrightarrow> k < length xs \<longrightarrow> ok (xs ! par k) (xs ! k))"

lemma is_heapD: "is_heap ok xs \<Longrightarrow> 0 < i \<Longrightarrow> i < length xs \<Longrightarrow> ok (xs ! par i) (xs ! i)"
  by (simp add: is_heap_def)

lemma heap_holeD1:
  "heap_hole ok xs k \<Longrightarrow> 0 < i \<Longrightarrow> i < length xs \<Longrightarrow> i \<noteq> k \<Longrightarrow> par i \<noteq> k \<Longrightarrow> ok (xs ! par i) (xs ! i)"
  by (simp add: heap_hole_def)

lemma heap_holeD2:
  "heap_hole ok xs k \<Longrightarrow> 0 < i \<Longrightarrow> i < length xs \<Longrightarrow> par i = k \<Longrightarrow> 0 < k \<Longrightarrow> ok (xs ! par k) (xs ! i)"
  by (auto simp: heap_hole_def)

lemma heap_upD: "heap_up ok xs k \<Longrightarrow> heap_hole ok xs k"
  "heap_up ok xs k \<Longrightarrow> 0 < i \<Longrightarrow> i < length xs \<Longrightarrow> par i = k \<Longrightarrow> ok (xs ! k) (xs ! i)"
  by (auto simp: heap_up_def)

lemma heap_downD: "heap_down ok xs k \<Longrightarrow> heap_hole ok xs k"
  "heap_down ok xs k \<Longrightarrow> 0 < k \<Longrightarrow> k < length xs \<Longrightarrow> ok (xs ! par k) (xs ! k)"
  by (auto simp: heap_down_def)

section \<open>The order the heaps rely on\<close>

locale heap_order =
  fixes ok :: "'a \<Rightarrow> 'a \<Rightarrow> bool"
  assumes ok_total: "ok x y \<or> ok y x"
    and ok_trans: "ok x y \<Longrightarrow> ok y z \<Longrightarrow> ok x z"
begin

lemma ok_refl: "ok x x"
  using ok_total [of x x] by simp

lemma not_ok: "\<not> ok x y \<Longrightarrow> ok y x"
  using ok_total by blast

lemma is_heap_top:
  assumes "is_heap ok xs" "i < length xs"
  shows "ok (xs ! 0) (xs ! i)"
  using assms(2)
proof (induction i rule: less_induct)
  case (less i)
  show ?case
  proof (cases "i = 0")
    case True
    then show ?thesis by (simp add: ok_refl)
  next
    case False
    then have "par i < i" by simp
    with less.prems have "ok (xs ! 0) (xs ! par i)" by (intro less.IH) auto
    moreover have "ok (xs ! par i) (xs ! i)"
      using assms(1) False less.prems by (auto intro: is_heapD)
    ultimately show ?thesis by (rule ok_trans)
  qed
qed

lemma is_heap_append: "is_heap ok xs \<Longrightarrow> heap_up ok (xs @ [x]) (length xs)"
proof -
  assume h: "is_heap ok xs"
  have ne: "par i \<noteq> length xs" if "0 < i" "i < Suc (length xs)" for i
    using that par_less [of i] by linarith
  show ?thesis
    using h ne unfolding heap_up_def heap_hole_def is_heap_def
    by (auto simp: nth_append dest: less_antisym)
qed

lemma hole_down: "heap_hole ok xs k \<Longrightarrow> k = 0 \<or> ok (xs ! par k) (xs ! k) \<Longrightarrow> heap_down ok xs k"
  by (auto simp: heap_down_def)

lemma hole_up:
  assumes "heap_hole ok xs k" "0 < k" "\<not> ok (xs ! par k) (xs ! k)"
  shows "heap_up ok xs k"
proof -
  have "ok (xs ! k) (xs ! i)" if "0 < i" "i < length xs" "par i = k" for i
    using not_ok [OF assms(3)] heap_holeD2 [OF assms(1) that assms(2)] by (rule ok_trans)
  with assms(1) show ?thesis by (auto simp: heap_up_def)
qed

lemma is_heap_imp_hole:
  assumes "is_heap ok xs" shows "heap_hole ok xs k"
proof -
  have "ok (xs ! par k) (xs ! i)" if "i < length xs" "0 < i" "par i = k" "0 < k" for i
  proof -
    from that have "k < length xs" using par_le [of i] by linarith
    with that have "ok (xs ! par k) (xs ! k)" "ok (xs ! k) (xs ! i)"
      using is_heapD [OF assms, of k] is_heapD [OF assms, of i] by auto
    then show ?thesis by (rule ok_trans)
  qed
  with assms show ?thesis by (auto simp: heap_hole_def is_heap_def)
qed

lemma up_done: "heap_up ok xs k \<Longrightarrow> k = 0 \<or> ok (xs ! par k) (xs ! k) \<Longrightarrow> is_heap ok xs"
  unfolding heap_up_def heap_hole_def is_heap_def by (metis not_gr_zero)

lemma down_done:
  "heap_down ok xs k \<Longrightarrow> (\<And>c. 0 < c \<Longrightarrow> c < length xs \<Longrightarrow> par c = k \<Longrightarrow> ok (xs ! k) (xs ! c)) \<Longrightarrow>
   is_heap ok xs"
  unfolding heap_down_def heap_hole_def is_heap_def by metis

lemma up_step:
  assumes u: "heap_up ok xs k" and k: "0 < k" "k < length xs"
    and bad: "\<not> ok (xs ! par k) (xs ! k)"
  shows "heap_up ok (list_swap xs k (par k)) (par k)"
proof -
  let ?p = "par k" and ?ys = "list_swap xs k (par k)"
  have p: "?p < k" "?p < length xs" using k by auto
  have ys: "?ys ! i = (if i = k then xs ! ?p else if i = ?p then xs ! k else xs ! i)"
    if "i < length xs" for i
    using that k p by (simp add: vec_simps)
  have kp: "ok (xs ! k) (xs ! ?p)" using bad by (rule not_ok)
  have hole: "heap_hole ok xs k" using u by (rule heap_upD)
  have A: "ok (?ys ! par i) (?ys ! i)" if i: "i < length xs" "0 < i" "i \<noteq> ?p" "par i \<noteq> ?p" for i
  proof -
    have pi: "par i < length xs" using i(1) par_le [of i] by linarith
    show ?thesis
    proof (cases "par i = k")
      case True
      with i have "ok (xs ! ?p) (xs ! i)" using heap_holeD2 [OF hole, of i] k by simp
      with True i ys [of i] ys [OF pi] show ?thesis using par_less [of i] by auto
    next
      case False
      with i have "ok (xs ! par i) (xs ! i)" using heap_holeD1 [OF hole, of i] by fastforce
      moreover have "i \<noteq> k" using i by auto
      ultimately show ?thesis using i False ys [of i] ys [OF pi] by auto
    qed
  qed
  have B: "ok (?ys ! ?p) (?ys ! i)" if i: "i < length xs" "0 < i" "par i = ?p" for i
  proof (cases "i = k")
    case True
    then show ?thesis using ys i p kp by auto
  next
    case False
    have "?p \<noteq> k" using p by simp
    with False i have "ok (xs ! ?p) (xs ! i)" using heap_holeD1 [OF hole, of i] by simp
    with kp have "ok (xs ! k) (xs ! i)" by (rule ok_trans)
    moreover have "i \<noteq> ?p" using i par_less [of i] by auto
    ultimately show ?thesis using ys i p False by auto
  qed
  have C: "ok (?ys ! par ?p) (?ys ! i)" if i: "i < length xs" "0 < i" "par i = ?p" "0 < ?p" for i
  proof -
    have pp: "par ?p < ?p" "par ?p < length xs" using i p by (auto intro: order.strict_trans)
    have g: "ok (xs ! par ?p) (xs ! ?p)"
      using heap_holeD1 [OF hole, of ?p] i p pp by auto
    have "ok (xs ! par ?p) (xs ! i)" if "i \<noteq> k"
    proof -
      have "ok (xs ! ?p) (xs ! i)" using that i p heap_holeD1 [OF hole, of i] by simp
      with g show ?thesis by (rule ok_trans)
    qed
    moreover have "i \<noteq> ?p" using i par_less [of i] by auto
    ultimately show ?thesis using g ys i p pp by auto
  qed
  from A B C show ?thesis by (simp add: heap_up_def heap_hole_def)
qed

lemma down_step:
  assumes d: "heap_down ok xs k" and c: "0 < c" "c < length xs" "par c = k"
    and bad: "\<not> ok (xs ! k) (xs ! c)"
    and best: "\<And>e. 0 < e \<Longrightarrow> e < length xs \<Longrightarrow> par e = k \<Longrightarrow> ok (xs ! c) (xs ! e)"
  shows "heap_down ok (list_swap xs k c) c"
proof -
  let ?ys = "list_swap xs k c"
  have k: "k < c" "k < length xs" using c par_less [of c] by auto
  have ys: "?ys ! i = (if i = k then xs ! c else if i = c then xs ! k else xs ! i)"
    if "i < length xs" for i
    using that k c by (simp add: vec_simps)
  have hole: "heap_hole ok xs k" using d by (rule heap_downD)
  have ck: "ok (xs ! c) (xs ! k)" using bad by (rule not_ok)
  have A: "ok (?ys ! par i) (?ys ! i)" if i: "i < length xs" "0 < i" "i \<noteq> c" "par i \<noteq> c" for i
  proof -
    have pi: "par i < length xs" "par i < i" using i(1,2) par_le [of i] par_less [of i] by linarith+
    consider (parent) "i = k" | (child) "i \<noteq> k" "par i = k" | (other) "i \<noteq> k" "par i \<noteq> k" by blast
    then show ?thesis
    proof cases
      case parent
      then have "ok (xs ! par k) (xs ! c)" using heap_holeD2 [OF hole c] i by simp
      then show ?thesis using parent ys i pi k by auto
    next
      case child
      then have "ok (xs ! c) (xs ! i)" using best i by simp
      then show ?thesis using child ys i pi k by auto
    next
      case other
      then have "ok (xs ! par i) (xs ! i)" using heap_holeD1 [OF hole, of i] i by simp
      then show ?thesis using other ys i pi k by auto
    qed
  qed
  have B: "ok (?ys ! par c) (?ys ! i)" if i: "i < length xs" "0 < i" "par i = c" for i
  proof -
    have "c < i" using i par_less [of i] by simp
    then have "ok (xs ! c) (xs ! i)" using heap_holeD1 [OF hole, of i] i k c by simp
    then show ?thesis using ys i k c \<open>c < i\<close> by auto
  qed
  have C: "ok (?ys ! par c) (?ys ! c)" using ys k c ck by auto
  from A B C show ?thesis by (simp add: heap_down_def heap_hole_def)
qed

lemma is_heap_overwrite_last:
  assumes h: "is_heap ok xs" and pos: "pos < length xs"
  shows "heap_hole ok (butlast (xs[pos := last xs])) pos"
proof -
  let ?ys = "butlast (xs[pos := last xs])"
  have ys: "?ys ! j = (if j = pos then last xs else xs ! j)" if "j < length xs - 1" for j
    using that pos by (simp add: vec_simps)
  have A: "ok (?ys ! par i) (?ys ! i)"
    if i: "i < length ?ys" "0 < i" "i \<noteq> pos" "par i \<noteq> pos" for i
  proof -
    have "par i < length xs - 1" using i par_less_length by simp
    then show ?thesis using i ys is_heapD [OF h, of i] by simp
  qed
  have B: "ok (?ys ! par pos) (?ys ! i)"
    if i: "i < length ?ys" "0 < i" "par i = pos" "0 < pos" for i
  proof -
    have "par pos < pos" "pos < i" using i(2-4) par_less [of i] by simp_all
    then have "par pos < length xs - 1" "i \<noteq> pos" "par pos \<noteq> pos" using i(1) by simp_all
    then show ?thesis
      using ys i heap_holeD2 [OF is_heap_imp_hole [OF h], of i pos] by auto
  qed
  from A B show ?thesis by (simp add: heap_hole_def)
qed

end

end
