(* ===== verification/PQueue.thy ===== *)
theory PQueue
  imports Prelude
begin

text \<open>
  The contract of the two heaps towards their clients (\<open>BestN\<close> and the A* search): taking items
  out one after the other. A provider states what one \<open>pop\<close> does; the behaviour of the loop
  "take the first item until none is left" follows once for all of them.
\<close>

fun drain :: "('s \<Rightarrow> ('p \<times> 's) option) \<Rightarrow> nat \<Rightarrow> 's \<Rightarrow> 'p list option" where
  "drain take_first 0 s = Some []"
| "drain take_first (Suc n) s = do {
     (t, s) \<leftarrow> take_first s;
     ts \<leftarrow> drain take_first n s;
     Some (t # ts)
   }"

locale pqueue =
  fixes wf :: "'s \<Rightarrow> bool"
    and items :: "'s \<Rightarrow> 'p multiset"
    and take_first :: "'s \<Rightarrow> ('p \<times> 's) option"
    and le :: "'p \<Rightarrow> 'p \<Rightarrow> bool"
  assumes take_first_spec: "wf s \<Longrightarrow> items s \<noteq> {#} \<Longrightarrow>
    \<exists>t s'. take_first s = Some (t, s') \<and> wf s' \<and> items s = add_mset t (items s') \<and>
      (\<forall>p \<in># items s. le t p)"
begin

lemma drain_sorted:
  "wf s \<Longrightarrow> size (items s) = n \<Longrightarrow>
   \<exists>ts. drain take_first n s = Some ts \<and> mset ts = items s \<and> sorted_wrt le ts"
proof (induction n arbitrary: s)
  case 0
  then show ?case by simp
next
  case (Suc n)
  then have "items s \<noteq> {#}" by auto
  with Suc.prems obtain t s' where s': "take_first s = Some (t, s')" "wf s'"
    "items s = add_mset t (items s')" "\<forall>p \<in># items s. le t p"
    using take_first_spec by blast
  then have "size (items s') = n" using Suc.prems by simp
  with Suc.IH s'(2) obtain ts where ts: "drain take_first n s' = Some ts" "mset ts = items s'"
    "sorted_wrt le ts" by blast
  moreover have "\<forall>p \<in> set ts. le t p" using s'(3,4) ts(2) by (metis set_mset_mset union_iff add_mset_add_single)
  ultimately show ?case using s' by auto
qed

end

end
