(* ===== verification/Comparator.thy ===== *)
theory Comparator
  imports Main
begin

text \<open>
  \<open>util/templates/comparator.h\<close>: comparison functors built from a member pointer or from the two
  halves of a pair. A member pointer is a function from the structure to the member, a default
  template argument \<open>std::less\<close> or \<open>std::greater\<close> is \<open>(<)\<close> or \<open>(>)\<close> on the member's type.
  What the ordered containers of the standard library, and the heaps of this code base, ask of a
  comparator is the locale \<open>strict_weak_order\<close>.
\<close>

definition compare_member :: "('t \<Rightarrow> 'm) \<Rightarrow> ('m \<Rightarrow> 'm \<Rightarrow> bool) \<Rightarrow> 't \<Rightarrow> 't \<Rightarrow> bool" where
  "compare_member member cmp x y = cmp (member x) (member y)"

definition less_member :: "('t \<Rightarrow> 'm::linorder) \<Rightarrow> 't \<Rightarrow> 't \<Rightarrow> bool" where
  "less_member member = compare_member member (<)"

definition less_first :: "'m::linorder \<times> 'n \<Rightarrow> 'm \<times> 'n \<Rightarrow> bool" where
  "less_first = less_member fst"

definition less_second :: "'m \<times> 'n::linorder \<Rightarrow> 'm \<times> 'n \<Rightarrow> bool" where
  "less_second = less_member snd"

definition greater_member :: "('t \<Rightarrow> 'm::linorder) \<Rightarrow> 't \<Rightarrow> 't \<Rightarrow> bool" where
  "greater_member member = compare_member member (>)"

definition greater_first :: "'m::linorder \<times> 'n \<Rightarrow> 'm \<times> 'n \<Rightarrow> bool" where
  "greater_first = greater_member fst"

definition greater_second :: "'m \<times> 'n::linorder \<Rightarrow> 'm \<times> 'n \<Rightarrow> bool" where
  "greater_second = greater_member snd"

text \<open>\<open>deref\<close> is the pointer type's \<open>operator*\<close>.\<close>

definition comparator_dereference :: "('p \<Rightarrow> 't) \<Rightarrow> ('t \<Rightarrow> 't \<Rightarrow> bool) \<Rightarrow> 'p \<Rightarrow> 'p \<Rightarrow> bool" where
  "comparator_dereference deref cmp x y = cmp (deref x) (deref y)"

definition greater_first_second :: "'m::linorder \<times> 'm \<Rightarrow> 'm \<times> 'm \<Rightarrow> bool" where
  "greater_first_second x y = (fst x > snd y)"

definition greater_first_then_second :: "'m::linorder \<times> 'n::linorder \<Rightarrow> 'm \<times> 'n \<Rightarrow> bool" where
  "greater_first_then_second x y = (if fst x > fst y then True else snd x > snd y)"

definition less_first_second :: "'m::linorder \<times> 'm \<Rightarrow> 'm \<times> 'm \<Rightarrow> bool" where
  "less_first_second x y = (fst x < snd y)"

definition less_first_then_second :: "'m::linorder \<times> 'n::linorder \<Rightarrow> 'm \<times> 'n \<Rightarrow> bool" where
  "less_first_then_second x y = (if fst x < fst y then True else snd x < snd y)"

section \<open>Strict weak orderings\<close>

locale strict_weak_order =
  fixes cmp :: "'a \<Rightarrow> 'a \<Rightarrow> bool"
  assumes asym: "cmp x y \<Longrightarrow> \<not> cmp y x"
    and neg_trans: "\<not> cmp x y \<Longrightarrow> \<not> cmp y z \<Longrightarrow> \<not> cmp x z"
begin

lemma irrefl: "\<not> cmp x x"
  using asym by blast

lemma cmp_trans: "cmp x y \<Longrightarrow> cmp y z \<Longrightarrow> cmp x z"
  using asym neg_trans by blast

lemma member_order: "strict_weak_order (compare_member member cmp)"
  by unfold_locales (auto simp: compare_member_def dest: asym neg_trans)

lemma dereference_order: "strict_weak_order (comparator_dereference deref cmp)"
  by unfold_locales (auto simp: comparator_dereference_def dest: asym neg_trans)

end

interpretation std_less: strict_weak_order "(<) :: 'a::linorder \<Rightarrow> 'a \<Rightarrow> bool"
  by unfold_locales auto

interpretation std_greater: strict_weak_order "(>) :: 'a::linorder \<Rightarrow> 'a \<Rightarrow> bool"
  by unfold_locales auto

interpretation less_member: strict_weak_order "less_member member" for member :: "'t \<Rightarrow> 'm::linorder"
  unfolding less_member_def by (rule std_less.member_order)

interpretation greater_member: strict_weak_order "greater_member member" for member :: "'t \<Rightarrow> 'm::linorder"
  unfolding greater_member_def by (rule std_greater.member_order)

section \<open>Properties\<close>

text \<open>
  C38. \<open>less_first_then_second\<close> and \<open>greater_first_then_second\<close> are not strict weak orderings:
  they compare the second components even when the first ones differ, so two pairs can each come
  before the other. Neither may be handed to a sort or to a heap.
\<close>

theorem first_then_second_not_strict_weak:
  "\<not> strict_weak_order (less_first_then_second :: nat \<times> nat \<Rightarrow> nat \<times> nat \<Rightarrow> bool) \<and>
   \<not> strict_weak_order (greater_first_then_second :: nat \<times> nat \<Rightarrow> nat \<times> nat \<Rightarrow> bool)"
proof -
  have "less_first_then_second (1 :: nat, 5 :: nat) (2, 3)" "less_first_then_second (2 :: nat, 3 :: nat) (1, 5)"
    "greater_first_then_second (1 :: nat, 5 :: nat) (2, 3)" "greater_first_then_second (2 :: nat, 3 :: nat) (1, 5)"
    by (simp_all add: less_first_then_second_def greater_first_then_second_def)
  then show ?thesis
    using strict_weak_order.asym [of less_first_then_second "(1 :: nat, 5 :: nat)" "(2, 3)"]
      strict_weak_order.asym [of greater_first_then_second "(1 :: nat, 5 :: nat)" "(2, 3)"]
    by blast
qed

end
