(* ===== verification/RAHeap.thy ===== *)
theory RAHeap
  imports Heap_Order PQueue Comparator
begin

text \<open>
  \<open>util/templates/container/ra_heap.h\<close>: a heap of pointers in which every item carries its own
  position (the \<open>index\<close> member), so that an arbitrary item can be updated or erased. An item is
  a pointer \<open>'p\<close>; the member that holds the position is the field \<open>index\<close> of the state, a
  store indexed by pointers, and the compared content of an item is read by \<open>val\<close>. The
  comparator \<open>cmp\<close> is the template parameter. With \<open>std::less\<close> the top is the largest item.
  Positions are \<open>size_t\<close>; the one place where the code computes below zero
  (\<open>get_parent_pos(0)\<close>) wraps to the largest \<open>size_t\<close> in the model too.
\<close>

record 'p raheap =
  heap :: "'p list"
  index :: "'p \<Rightarrow> nat"

definition heap_item_pos :: "'p raheap \<Rightarrow> 'p \<Rightarrow> nat" where
  "heap_item_pos h item = index h item"

definition set_heap_item_pos :: "'p \<Rightarrow> nat \<Rightarrow> 'p raheap \<Rightarrow> 'p raheap" where
  "set_heap_item_pos item pos h = h\<lparr>index := (index h)(item := pos)\<rparr>"

definition get_parent_pos :: "nat \<Rightarrow> nat" where
  "get_parent_pos pos = (if pos = 0 then 2 ^ 64 - 1 else pos - 1) div 2"

definition get_left_child_pos :: "nat \<Rightarrow> nat" where
  "get_left_child_pos pos = 2 * pos + 1"

definition get_right_child_pos :: "nat \<Rightarrow> nat" where
  "get_right_child_pos pos = 2 * pos + 2"

definition at :: "'p raheap \<Rightarrow> nat \<Rightarrow> 'p option" where
  "at h pos = (if pos < length (heap h) then Some (heap h ! pos) else None)"

definition top :: "'p raheap \<Rightarrow> 'p option" where
  "top h = at h 0"

definition swap_items :: "nat \<Rightarrow> nat \<Rightarrow> 'p raheap \<Rightarrow> 'p raheap" where
  "swap_items pos1 pos2 h =
     (let h = h\<lparr>heap := list_swap (heap h) pos1 pos2\<rparr>;
          h = set_heap_item_pos (heap h ! pos1) pos1 h
      in set_heap_item_pos (heap h ! pos2) pos2 h)"

function HeapifyUp_loop ::
    "('a \<Rightarrow> 'a \<Rightarrow> bool) \<Rightarrow> ('p \<Rightarrow> 'a) \<Rightarrow> nat \<Rightarrow> 'p raheap \<Rightarrow> nat \<times> 'p raheap" where
  "HeapifyUp_loop cmp val pos h =
     (if 0 < pos then
        let parent_pos = get_parent_pos pos in
        if \<not> cmp (val (heap h ! parent_pos)) (val (heap h ! pos)) then (pos, h)
        else HeapifyUp_loop cmp val parent_pos (swap_items pos parent_pos h)
      else (pos, h))"
  by pat_completeness auto
termination
  by (relation "measure (\<lambda>(cmp, val, pos, h). pos)") (auto simp: get_parent_pos_def)

definition HeapifyUp ::
    "('a \<Rightarrow> 'a \<Rightarrow> bool) \<Rightarrow> ('p \<Rightarrow> 'a) \<Rightarrow> nat \<Rightarrow> 'p raheap \<Rightarrow> (nat \<times> 'p raheap) option" where
  "HeapifyUp cmp val pos h = do {
     ASSERT (pos < length (heap h));
     Some (HeapifyUp_loop cmp val pos h)
   }"

function HeapifyDown_loop ::
    "('a \<Rightarrow> 'a \<Rightarrow> bool) \<Rightarrow> ('p \<Rightarrow> 'a) \<Rightarrow> nat \<Rightarrow> nat \<Rightarrow> 'p raheap \<Rightarrow> nat \<times> 'p raheap" where
  "HeapifyDown_loop cmp val invalid_parent_pos pos h =
     (if pos < invalid_parent_pos then
        let candidate_child = get_left_child_pos pos in
        if length (heap h) \<le> candidate_child then (pos, h)
        else
          let right_child_pos = get_right_child_pos pos;
              candidate_child =
                (if right_child_pos < length (heap h)
                    \<and> cmp (val (heap h ! candidate_child)) (val (heap h ! right_child_pos))
                 then right_child_pos else candidate_child)
          in if \<not> cmp (val (heap h ! pos)) (val (heap h ! candidate_child)) then (pos, h)
             else HeapifyDown_loop cmp val invalid_parent_pos candidate_child
                    (swap_items pos candidate_child h)
      else (pos, h))"
  by pat_completeness auto
termination
  by (relation "measure (\<lambda>(cmp, val, inv, pos, h). length (heap h) - pos)")
    (auto simp: get_left_child_pos_def get_right_child_pos_def swap_items_def
        set_heap_item_pos_def Let_def)

definition HeapifyDown ::
    "('a \<Rightarrow> 'a \<Rightarrow> bool) \<Rightarrow> ('p \<Rightarrow> 'a) \<Rightarrow> nat \<Rightarrow> 'p raheap \<Rightarrow> nat \<times> 'p raheap" where
  "HeapifyDown cmp val pos h =
     HeapifyDown_loop cmp val (get_parent_pos (length (heap h)) + 1) pos h"

declare HeapifyUp_loop.simps [simp del] HeapifyDown_loop.simps [simp del]

definition insert ::
    "('a \<Rightarrow> 'a \<Rightarrow> bool) \<Rightarrow> ('p \<Rightarrow> 'a) \<Rightarrow> 'p \<Rightarrow> 'p raheap \<Rightarrow> (nat \<times> 'p raheap) option" where
  "insert cmp val item h =
     (let h = h\<lparr>heap := heap h @ [item]\<rparr>;
          h = set_heap_item_pos item (length (heap h) - 1) h
      in HeapifyUp cmp val (length (heap h) - 1) h)"

definition push ::
    "('a \<Rightarrow> 'a \<Rightarrow> bool) \<Rightarrow> ('p \<Rightarrow> 'a) \<Rightarrow> 'p \<Rightarrow> 'p raheap \<Rightarrow> (nat \<times> 'p raheap) option" where
  "push cmp val item h = insert cmp val item h"

text \<open>
  \<open>erase_at\<close> writes the index of \<open>heap_[pos]\<close> after \<open>pop_back\<close>. When \<open>pos\<close> was the
  last position this reads the cell just behind the end of the vector, which still holds the
  pointer that was popped: in both cases the item written to is the old last one.
\<close>

definition erase_at ::
    "('a \<Rightarrow> 'a \<Rightarrow> bool) \<Rightarrow> ('p \<Rightarrow> 'a) \<Rightarrow> nat \<Rightarrow> 'p raheap \<Rightarrow> 'p raheap" where
  "erase_at cmp val pos h =
     (if length (heap h) \<le> pos then h
      else
        let item = last (heap h);
            h = h\<lparr>heap := butlast ((heap h)[pos := item])\<rparr>;
            h = set_heap_item_pos item pos h
        in snd (HeapifyDown cmp val pos h))"

definition erase ::
    "('a \<Rightarrow> 'a \<Rightarrow> bool) \<Rightarrow> ('p \<Rightarrow> 'a) \<Rightarrow> 'p \<Rightarrow> 'p raheap \<Rightarrow> 'p raheap" where
  "erase cmp val item h = erase_at cmp val (heap_item_pos h item) h"

text \<open>On an empty heap \<open>pop\<close> reads \<open>heap_[0]\<close> of an empty vector.\<close>

definition pop ::
    "('a \<Rightarrow> 'a \<Rightarrow> bool) \<Rightarrow> ('p \<Rightarrow> 'a) \<Rightarrow> 'p raheap \<Rightarrow> ('p \<times> 'p raheap) option" where
  "pop cmp val h =
     (if heap h = [] then None
      else Some (heap h ! 0, erase_at cmp val 0 h))"

definition update_at ::
    "('a \<Rightarrow> 'a \<Rightarrow> bool) \<Rightarrow> ('p \<Rightarrow> 'a) \<Rightarrow> nat \<Rightarrow> 'p raheap \<Rightarrow> (nat \<times> 'p raheap) option" where
  "update_at cmp val pos h =
     (if length (heap h) \<le> pos then Some (pos, h)
      else do {
        (new_pos, h) \<leftarrow> HeapifyUp cmp val pos h;
        if new_pos \<noteq> pos then Some (new_pos, h)
        else Some (HeapifyDown cmp val pos h)
      })"

definition update ::
    "('a \<Rightarrow> 'a \<Rightarrow> bool) \<Rightarrow> ('p \<Rightarrow> 'a) \<Rightarrow> 'p \<Rightarrow> 'p raheap \<Rightarrow> (nat \<times> 'p raheap) option" where
  "update cmp val item h = update_at cmp val (heap_item_pos h item) h"

section \<open>Invariants\<close>

text \<open>Every item in the heap knows where it is.\<close>

definition idx_ok :: "'p raheap \<Rightarrow> bool" where
  "idx_ok h \<longleftrightarrow> (\<forall>i < length (heap h). index h (heap h ! i) = i)"

abbreviation above :: "('a \<Rightarrow> 'a \<Rightarrow> bool) \<Rightarrow> ('p \<Rightarrow> 'a) \<Rightarrow> 'p \<Rightarrow> 'p \<Rightarrow> bool" where
  "above cmp val \<equiv> \<lambda>p c. \<not> cmp (val p) (val c)"

definition raheap_inv :: "('a \<Rightarrow> 'a \<Rightarrow> bool) \<Rightarrow> ('p \<Rightarrow> 'a) \<Rightarrow> 'p raheap \<Rightarrow> bool" where
  "raheap_inv cmp val h \<longleftrightarrow> idx_ok h \<and> is_heap (above cmp val) (heap h)"

text \<open>What the sifting loops leave alone: the items, and the indices of foreign items.\<close>

definition keeps :: "'p raheap \<Rightarrow> 'p raheap \<Rightarrow> bool" where
  "keeps h h' \<longleftrightarrow> idx_ok h' \<and> mset (heap h') = mset (heap h) \<and>
     (\<forall>p. p \<notin> set (heap h) \<longrightarrow> index h' p = index h p)"

lemma keepsD:
  assumes "keeps h h'"
  shows "idx_ok h'" "mset (heap h') = mset (heap h)" "set (heap h') = set (heap h)"
    "length (heap h') = length (heap h)" "p \<notin> set (heap h) \<Longrightarrow> index h' p = index h p"
  using assms by (auto simp: keeps_def dest: mset_eq_setD mset_eq_length)

lemma keeps_refl: "idx_ok h \<Longrightarrow> keeps h h"
  by (simp add: keeps_def)

lemma keeps_trans: "keeps h h' \<Longrightarrow> keeps h' h'' \<Longrightarrow> keeps h h''"
  by (simp add: keeps_def) (metis set_mset_mset)

lemma idx_ok_distinct: "idx_ok h \<Longrightarrow> distinct (heap h)"
  by (metis distinct_conv_nth idx_ok_def)

lemma get_parent_pos_par [simp]: "0 < pos \<Longrightarrow> get_parent_pos pos = par pos"
  by (simp add: get_parent_pos_def par_def)

lemma heap_swap_items [simp]: "heap (swap_items i j h) = list_swap (heap h) i j"
  by (simp add: swap_items_def set_heap_item_pos_def Let_def)

lemma index_swap_items:
  "i < length (heap h) \<Longrightarrow> j < length (heap h) \<Longrightarrow> i \<noteq> j \<Longrightarrow>
   index (swap_items i j h) = (index h)(heap h ! j := i, heap h ! i := j)"
  by (simp add: swap_items_def set_heap_item_pos_def Let_def vec_simps)

lemma swap_items_keeps:
  assumes "idx_ok h" "i < length (heap h)" "j < length (heap h)" "i \<noteq> j"
  shows "keeps h (swap_items i j h)"
proof -
  have d: "distinct (heap h)" using assms(1) by (rule idx_ok_distinct)
  have "idx_ok (swap_items i j h)"
    unfolding idx_ok_def
    using assms d by (auto simp: vec_simps index_swap_items nth_eq_iff_index_eq idx_ok_def)
  moreover have "index (swap_items i j h) p = index h p" if "p \<notin> set (heap h)" for p
    using that assms by (auto simp: index_swap_items)
  ultimately show ?thesis using assms by (simp add: keeps_def)
qed


lemma raheap_invD:
  "raheap_inv cmp val h \<Longrightarrow> idx_ok h" "raheap_inv cmp val h \<Longrightarrow> is_heap (above cmp val) (heap h)"
  by (simp_all add: raheap_inv_def)

text \<open>The child the code prefers, and one round of the downward loop in terms of it.\<close>

definition candidate :: "('a \<Rightarrow> 'a \<Rightarrow> bool) \<Rightarrow> ('p \<Rightarrow> 'a) \<Rightarrow> 'p raheap \<Rightarrow> nat \<Rightarrow> nat" where
  "candidate cmp val h pos =
     (if 2 * pos + 2 < length (heap h)
         \<and> cmp (val (heap h ! (2 * pos + 1))) (val (heap h ! (2 * pos + 2)))
      then 2 * pos + 2 else 2 * pos + 1)"

lemma HeapifyDown_loop_unfold:
  "HeapifyDown_loop cmp val ip pos h =
     (if pos < ip \<and> 2 * pos + 1 < length (heap h)
         \<and> cmp (val (heap h ! pos)) (val (heap h ! candidate cmp val h pos))
      then HeapifyDown_loop cmp val ip (candidate cmp val h pos)
             (swap_items pos (candidate cmp val h pos) h)
      else (pos, h))"
  by (subst HeapifyDown_loop.simps)
    (auto simp: candidate_def get_left_child_pos_def get_right_child_pos_def Let_def)

lemma heap_hole_changed_item:
  assumes "heap_hole (above cmp val) (heap h) k" "idx_ok h" "k < length (heap h)"
    and eq: "\<And>p. p \<noteq> heap h ! k \<Longrightarrow> val' p = val p"
  shows "heap_hole (above cmp val') (heap h) k"
proof -
  have ne: "heap h ! i \<noteq> heap h ! k" if "i < length (heap h)" "i \<noteq> k" for i
    using that assms(3) idx_ok_distinct [OF assms(2)] by (simp add: nth_eq_iff_index_eq)
  have par: "val' (heap h ! i) = val (heap h ! i)" if "i < length (heap h)" "i \<noteq> k" for i
    using eq ne that by blast
  show ?thesis
    unfolding heap_hole_def
  proof (intro conjI allI impI)
    fix i assume i: "i < length (heap h)" "0 < i" "i \<noteq> k" "par i \<noteq> k"
    then show "\<not> cmp (val' (heap h ! par i)) (val' (heap h ! i))"
      using heap_holeD1 [OF assms(1), of i] par par_less_length by auto
  next
    fix i assume i: "i < length (heap h)" "0 < i" "par i = k" "0 < k"
    then have "i \<noteq> k" "par k \<noteq> k" using par_less [of i] par_less [of k] by linarith+
    then show "\<not> cmp (val' (heap h ! par k)) (val' (heap h ! i))"
      using i heap_holeD2 [OF assms(1), of i] par assms(3) par_less_length by auto
  qed
qed

section \<open>Correctness for a strict weak ordering\<close>

text \<open>The comparator seen through the pointers of the heap.\<close>

locale ra_heap = strict_weak_order cmp for cmp :: "'a \<Rightarrow> 'a \<Rightarrow> bool" +
  fixes val :: "'p \<Rightarrow> 'a"

sublocale ra_heap \<subseteq> heap_order "\<lambda>p c. \<not> cmp (val p) (val c)"
  by unfold_locales (auto dest: asym neg_trans)

context ra_heap
begin

lemma HeapifyUp_loop_correct:
  assumes "idx_ok h" "pos < length (heap h)" "heap_up (above cmp val) (heap h) pos"
  shows "keeps h (snd (HeapifyUp_loop cmp val pos h))"
    and "is_heap (above cmp val) (heap (snd (HeapifyUp_loop cmp val pos h)))"
    and "fst (HeapifyUp_loop cmp val pos h) \<le> pos"
    and "heap (snd (HeapifyUp_loop cmp val pos h)) ! fst (HeapifyUp_loop cmp val pos h) = heap h ! pos"
proof -
  let ?r = "HeapifyUp_loop cmp val"
  have "keeps h (snd (?r pos h)) \<and> is_heap (above cmp val) (heap (snd (?r pos h))) \<and>
      fst (?r pos h) \<le> pos \<and> heap (snd (?r pos h)) ! fst (?r pos h) = heap h ! pos"
    using assms
  proof (induction pos arbitrary: h rule: less_induct)
    case (less pos)
    show ?case
    proof (cases "0 < pos \<and> cmp (val (heap h ! par pos)) (val (heap h ! pos))")
      case True
      let ?h = "swap_items pos (par pos) h"
      have p: "par pos < pos" "par pos < length (heap h)" using True less.prems by auto
      have k: "keeps h ?h" using less.prems p by (intro swap_items_keeps) auto
      have "heap_up (above cmp val) (heap ?h) (par pos)"
        using up_step [OF less.prems(3)] True less.prems by simp
      then have "keeps ?h (snd (?r (par pos) ?h)) \<and>
          is_heap (above cmp val) (heap (snd (?r (par pos) ?h))) \<and> fst (?r (par pos) ?h) \<le> par pos \<and>
          heap (snd (?r (par pos) ?h)) ! fst (?r (par pos) ?h) = heap ?h ! par pos"
        using p k by (intro less.IH) (auto simp: keepsD)
      moreover have "?r pos h = ?r (par pos) ?h"
        using True by (simp add: HeapifyUp_loop.simps [of cmp val pos h] Let_def)
      moreover have "heap ?h ! par pos = heap h ! pos" using less.prems p by (simp add: vec_simps)
      ultimately show ?thesis using k p by (auto intro: keeps_trans)
    next
      case False
      then have "?r pos h = (pos, h)" by (auto simp: HeapifyUp_loop.simps [of cmp val pos h])
      moreover have "is_heap (above cmp val) (heap h)"
        using up_done [OF less.prems(3)] False by auto
      ultimately show ?thesis using less.prems by (simp add: keeps_refl)
    qed
  qed
  then show "keeps h (snd (HeapifyUp_loop cmp val pos h))"
    and "is_heap (above cmp val) (heap (snd (HeapifyUp_loop cmp val pos h)))"
    and "fst (HeapifyUp_loop cmp val pos h) \<le> pos"
    and "heap (snd (HeapifyUp_loop cmp val pos h)) ! fst (HeapifyUp_loop cmp val pos h) = heap h ! pos"
    by simp_all
qed

lemma HeapifyUp_stays:
  "pos = 0 \<or> \<not> cmp (val (heap h ! par pos)) (val (heap h ! pos)) \<Longrightarrow> HeapifyUp_loop cmp val pos h = (pos, h)"
  by (auto simp: HeapifyUp_loop.simps [of cmp val pos h])

lemma HeapifyUp_moves:
  assumes "idx_ok h" "pos < length (heap h)" "heap_up (above cmp val) (heap h) pos"
    "0 < pos" "cmp (val (heap h ! par pos)) (val (heap h ! pos))"
  shows "fst (HeapifyUp_loop cmp val pos h) < pos"
proof -
  let ?h = "swap_items pos (par pos) h"
  have p: "par pos < pos" "par pos < length (heap h)" using assms by auto
  have k: "keeps h ?h" using assms p by (intro swap_items_keeps) auto
  have "heap_up (above cmp val) (heap ?h) (par pos)"
    using up_step [OF assms(3)] assms by simp
  then have "fst (HeapifyUp_loop cmp val (par pos) ?h) \<le> par pos"
    using p k by (intro HeapifyUp_loop_correct) (auto simp: keepsD)
  moreover have "HeapifyUp_loop cmp val pos h = HeapifyUp_loop cmp val (par pos) ?h"
    using assms by (simp add: HeapifyUp_loop.simps [of cmp val pos h] Let_def)
  ultimately show ?thesis using p by simp
qed

lemma candidate_best:
  assumes "2 * pos + 1 < length (heap h)"
  shows "0 < candidate cmp val h pos" "candidate cmp val h pos < length (heap h)"
    "par (candidate cmp val h pos) = pos"
    and "0 < e \<Longrightarrow> e < length (heap h) \<Longrightarrow> par e = pos \<Longrightarrow>
      \<not> cmp (val (heap h ! candidate cmp val h pos)) (val (heap h ! e))"
  using assms ok_refl not_ok by (auto simp: candidate_def par_eq_iff)

lemma HeapifyDown_loop_correct:
  assumes "idx_ok h" "heap_down (above cmp val) (heap h) pos"
    "length (heap h) \<le> 2 * ip + 1"
  shows "keeps h (snd (HeapifyDown_loop cmp val ip pos h))"
    and "is_heap (above cmp val) (heap (snd (HeapifyDown_loop cmp val ip pos h)))"
proof -
  let ?r = "HeapifyDown_loop cmp val ip"
  have "keeps h (snd (?r pos h)) \<and> is_heap (above cmp val) (heap (snd (?r pos h)))"
    using assms
  proof (induction "length (heap h) - pos" arbitrary: pos h rule: less_induct)
    case less
    let ?c = "candidate cmp val h pos"
    show ?case
    proof (cases "2 * pos + 1 < length (heap h)")
      case False
      then have "?r pos h = (pos, h)"
        by (subst HeapifyDown_loop_unfold) simp
      moreover have "is_heap (above cmp val) (heap h)"
        using down_done [OF less.prems(2)] False by (auto simp: par_eq_iff)
      ultimately show ?thesis using less.prems by (simp add: keeps_refl)
    next
      case left: True
      have inv: "pos < ip" using left less.prems(3) by linarith
      note c = candidate_best [OF left]
      show ?thesis
      proof (cases "cmp (val (heap h ! pos)) (val (heap h ! ?c))")
        case False
        then have "?r pos h = (pos, h)"
          by (subst HeapifyDown_loop_unfold) simp
        moreover have "is_heap (above cmp val) (heap h)"
          using less.prems(2)
        proof (rule down_done)
          fix e assume "0 < e" "e < length (heap h)" "par e = pos"
          then show "\<not> cmp (val (heap h ! pos)) (val (heap h ! e))"
            using False c(4) neg_trans by blast
        qed
        ultimately show ?thesis using less.prems by (simp add: keeps_refl)
      next
        case True
        let ?h = "swap_items pos ?c h"
        have p: "pos < ?c" "pos < length (heap h)" using left par_less [OF c(1)] unfolding c(3) by simp_all
        have k: "keeps h ?h" using less.prems p c by (intro swap_items_keeps) auto
        have "heap_down (above cmp val) (heap ?h) ?c"
          unfolding heap_swap_items using less.prems(2) c True by (intro down_step) auto
        then have "keeps ?h (snd (?r ?c ?h)) \<and> is_heap (above cmp val) (heap (snd (?r ?c ?h)))"
          using p k c(2) less.prems(3) by (intro less.hyps) (auto simp: keepsD)
        moreover have "?r pos h = ?r ?c ?h"
          using True left inv by (subst HeapifyDown_loop_unfold) simp
        ultimately show ?thesis using k by (auto intro: keeps_trans)
      qed
    qed
  qed
  then show "keeps h (snd (HeapifyDown_loop cmp val ip pos h))"
    and "is_heap (above cmp val) (heap (snd (HeapifyDown_loop cmp val ip pos h)))"
    by simp_all
qed

lemma raheap_inv_hole: "raheap_inv cmp val h \<Longrightarrow> heap_hole (above cmp val) (heap h) k"
  by (rule is_heap_imp_hole) (rule raheap_invD)

text \<open>The operations, each on every branch it has.\<close>

lemma HeapifyDown_correct:
  assumes "idx_ok h" "heap_down (above cmp val) (heap h) pos"
  shows "keeps h (snd (HeapifyDown cmp val pos h))"
    and "is_heap (above cmp val) (heap (snd (HeapifyDown cmp val pos h)))"
proof -
  have "length (heap h) \<le> 2 * (get_parent_pos (length (heap h)) + 1) + 1"
    by (cases "heap h = []") (auto simp: get_parent_pos_def)
  with assms show "keeps h (snd (HeapifyDown cmp val pos h))"
    and "is_heap (above cmp val) (heap (snd (HeapifyDown cmp val pos h)))"
    unfolding HeapifyDown_def by (rule HeapifyDown_loop_correct)+
qed

lemma insert_correct:
  assumes "raheap_inv cmp val h" "item \<notin> set (heap h)"
  shows "\<exists>pos h'. insert cmp val item h = Some (pos, h') \<and> raheap_inv cmp val h' \<and>
    mset (heap h') = add_mset item (mset (heap h)) \<and> heap h' ! pos = item \<and>
    (\<forall>p. p \<notin> set (heap h) \<longrightarrow> p \<noteq> item \<longrightarrow> index h' p = index h p)"
proof -
  let ?n = "length (heap h)"
  let ?h = "set_heap_item_pos item ?n (h\<lparr>heap := heap h @ [item]\<rparr>)"
  let ?r = "HeapifyUp_loop cmp val ?n ?h"
  have idx: "idx_ok ?h"
    using assms by (auto simp: raheap_inv_def idx_ok_def set_heap_item_pos_def nth_append)
  have up: "heap_up (above cmp val) (heap ?h) ?n"
    using is_heap_append [OF raheap_invD(2) [OF assms(1)]] by (simp add: set_heap_item_pos_def)
  have n: "?n < length (heap ?h)" by (simp add: set_heap_item_pos_def)
  note c = HeapifyUp_loop_correct [OF idx n up]
  have "insert cmp val item h = Some ?r"
    by (simp add: insert_def HeapifyUp_def set_heap_item_pos_def Let_def)
  moreover have "raheap_inv cmp val (snd ?r)" using c keepsD(1) by (auto simp: raheap_inv_def)
  moreover have "mset (heap (snd ?r)) = add_mset item (mset (heap h))"
    using keepsD(2) [OF c(1)] by (simp add: set_heap_item_pos_def)
  moreover have "heap (snd ?r) ! fst ?r = item"
    using c(4) by (simp add: set_heap_item_pos_def)
  moreover have "index (snd ?r) p = index h p" if "p \<notin> set (heap h)" "p \<noteq> item" for p
    using keepsD(5) [OF c(1), of p] that by (simp add: set_heap_item_pos_def)
  ultimately show ?thesis by (cases ?r) auto
qed

lemma top_correct:
  assumes "raheap_inv cmp val h" "heap h \<noteq> []"
  shows "\<exists>t. top h = Some t \<and> t \<in> set (heap h) \<and> (\<forall>p \<in> set (heap h). \<not> cmp (val t) (val p))"
  using assms is_heap_top [OF raheap_invD(2) [OF assms(1)]]
  by (auto simp: top_def at_def in_set_conv_nth)

lemma erase_at_state:
  assumes "idx_ok h" "pos < length (heap h)"
  shows "idx_ok (set_heap_item_pos (last (heap h)) pos (h\<lparr>heap := butlast ((heap h)[pos := last (heap h)])\<rparr>))"
  unfolding idx_ok_def
proof (intro allI impI)
  let ?h = "set_heap_item_pos (last (heap h)) pos (h\<lparr>heap := butlast ((heap h)[pos := last (heap h)])\<rparr>)"
  fix i assume "i < length (heap ?h)"
  then have i: "i < length (heap h) - 1" by (simp add: set_heap_item_pos_def)
  have "heap h ! i \<noteq> last (heap h)"
    using idx_ok_distinct [OF assms(1)] i by (cases "heap h = []") (auto simp: last_conv_nth nth_eq_iff_index_eq)
  with i assms show "index ?h (heap ?h ! i) = i"
    by (auto simp: set_heap_item_pos_def vec_simps idx_ok_def)
qed

lemma pop_correct:
  assumes "raheap_inv cmp val h" "heap h \<noteq> []"
  shows "\<exists>t h'. pop cmp val h = Some (t, h') \<and> raheap_inv cmp val h' \<and>
    t \<in> set (heap h) \<and> (\<forall>p \<in> set (heap h). \<not> cmp (val t) (val p)) \<and>
    mset (heap h) = add_mset t (mset (heap h')) \<and>
    (\<forall>p. p \<notin> set (heap h) \<longrightarrow> index h' p = index h p)"
proof -
  let ?x = "last (heap h)"
  let ?h = "set_heap_item_pos ?x 0 (h\<lparr>heap := butlast ((heap h)[0 := ?x])\<rparr>)"
  let ?h' = "snd (HeapifyDown cmp val 0 ?h)"
  have n: "0 < length (heap h)" using assms(2) by simp
  have idx: "idx_ok ?h" using assms raheap_invD n by (intro erase_at_state) auto
  have "heap_hole (above cmp val) (heap ?h) 0"
    using is_heap_overwrite_last [OF raheap_invD(2) [OF assms(1)] n] by (simp add: set_heap_item_pos_def)
  then have "heap_down (above cmp val) (heap ?h) 0" by (rule hole_down) simp
  note c = HeapifyDown_correct [OF idx this]
  have "pop cmp val h = Some (heap h ! 0, ?h')"
    using assms(2) by (simp add: pop_def erase_at_def Let_def)
  moreover have "raheap_inv cmp val ?h'" using c keepsD(1) by (auto simp: raheap_inv_def)
  moreover have "mset (heap h) = add_mset (heap h ! 0) (mset (heap ?h'))"
    using keepsD(2) [OF c(1)] mset_butlast_update_last [OF n] n
    by (simp add: set_heap_item_pos_def)
  moreover have "index ?h' p = index h p" if "p \<notin> set (heap h)" for p
  proof -
    have "set (heap ?h) = set (heap h) - {heap h ! 0}"
      using distinct_butlast_update_last(2) [OF n idx_ok_distinct [OF raheap_invD(1) [OF assms(1)]]]
      by (simp add: set_heap_item_pos_def)
    moreover have "p \<noteq> ?x" using that last_in_set [OF assms(2)] by blast
    ultimately have "p \<noteq> ?x" "p \<notin> set (heap ?h)" using that by blast+
    then show ?thesis using keepsD(5) [OF c(1), of p] by (simp add: set_heap_item_pos_def)
  qed
  moreover have "\<not> cmp (val (heap h ! 0)) (val p)" if "p \<in> set (heap h)" for p
    using that is_heap_top [OF raheap_invD(2) [OF assms(1)]] by (auto simp: in_set_conv_nth)
  ultimately show ?thesis using n by auto
qed

text \<open>
  \<open>update\<close> is called after the content of one item has changed: before the change the heap was
  in order, so it is off at most at that item.
\<close>

lemma update_correct:
  assumes "idx_ok h" "item \<in> set (heap h)"
    and "heap_hole (above cmp val) (heap h) (index h item)"
  shows "\<exists>pos h'. update cmp val item h = Some (pos, h') \<and> raheap_inv cmp val h' \<and> keeps h h'"
proof -
  let ?k = "index h item"
  obtain i where i: "i < length (heap h)" "heap h ! i = item" using assms(2) by (auto simp: in_set_conv_nth)
  with assms(1) have k: "?k < length (heap h)" "heap h ! ?k = item" by (auto simp: idx_ok_def)
  show ?thesis
  proof (cases "0 < ?k \<and> cmp (val (heap h ! par ?k)) (val (heap h ! ?k))")
    case True
    then have up: "heap_up (above cmp val) (heap h) ?k" using assms(3) by (intro hole_up) auto
    note c = HeapifyUp_loop_correct [OF assms(1) k(1) up]
    have "fst (HeapifyUp_loop cmp val ?k h) \<noteq> ?k"
      using HeapifyUp_moves [OF assms(1) k(1) up] True by simp
    then have "update cmp val item h = Some (HeapifyUp_loop cmp val ?k h)"
      using k by (cases "HeapifyUp_loop cmp val ?k h")
        (simp add: update_def update_at_def heap_item_pos_def HeapifyUp_def)
    with c keepsD(1) show ?thesis by (cases "HeapifyUp_loop cmp val ?k h") (auto simp: raheap_inv_def)
  next
    case False
    then have "HeapifyUp_loop cmp val ?k h = (?k, h)" by (intro HeapifyUp_stays) auto
    then have "update cmp val item h = Some (HeapifyDown cmp val ?k h)"
      using k by (simp add: update_def update_at_def heap_item_pos_def HeapifyUp_def)
    moreover have "heap_down (above cmp val) (heap h) ?k" using assms(3) False by (intro hole_down) auto
    ultimately show ?thesis
      using HeapifyDown_correct [OF assms(1), of ?k] keepsD(1)
      by (cases "HeapifyDown cmp val ?k h") (auto simp: raheap_inv_def)
  qed
qed

end

sublocale ra_heap \<subseteq> popped: pqueue "raheap_inv cmp val" "\<lambda>h. mset (heap h)" "pop cmp val" "above cmp val"
proof
  fix h assume "raheap_inv cmp val h" "mset (heap h) \<noteq> {#}"
  then show "\<exists>t h'. pop cmp val h = Some (t, h') \<and> raheap_inv cmp val h' \<and>
      mset (heap h) = add_mset t (mset (heap h')) \<and> (\<forall>p \<in># mset (heap h). above cmp val t p)"
    using pop_correct [of h] by auto
qed

context ra_heap
begin

lemma pop_all_sorted:
  assumes "raheap_inv cmp val h"
  shows "\<exists>ts. drain (pop cmp val) (length (heap h)) h = Some ts \<and> mset ts = mset (heap h) \<and>
    sorted_wrt (above cmp val) ts"
  using popped.drain_sorted [OF assms] by simp

end

interpretation less_heap: ra_heap "(<)" val for val :: "'p \<Rightarrow> 'a::linorder"
  by unfold_locales

interpretation member_heap: ra_heap "less_member member" val
    for member :: "'t \<Rightarrow> 'm::linorder" and val :: "'p \<Rightarrow> 't"
  by unfold_locales

section \<open>Properties\<close>

text \<open>A heap of three items under \<open>std::less\<close>, each item being its own content.\<close>

definition sample_heap :: "nat raheap" where
  "sample_heap = \<lparr>heap = [9, 4, 7], index = (\<lambda>p. if p = 4 then 1 else if p = 7 then 2 else 0)\<rparr>"

lemma sample_heap_inv: "raheap_inv (<) (\<lambda>p. p) sample_heap" "heap sample_heap = [9, 4, 7]"
  by (simp_all add: raheap_inv_def idx_ok_def is_heap_def sample_heap_def less_Suc_eq par_def
      numeral_2_eq_2 numeral_3_eq_3 all_conj_distrib imp_conjL)

text \<open>
  Inserting a new item never trips the bounds assertion, keeps the heap in order with every
  item's index pointing at its own cell, adds exactly that item, and returns the cell it is in;
  the index members of items outside the heap are not touched.
\<close>

theorem raheap_insert_ok:
  assumes "strict_weak_order cmp" "raheap_inv cmp val h" "item \<notin> set (heap h)"
  shows "\<exists>pos h'. RAHeap.insert cmp val item h = Some (pos, h') \<and> raheap_inv cmp val h' \<and>
    mset (heap h') = add_mset item (mset (heap h)) \<and> heap h' ! pos = item \<and>
    (\<forall>p. p \<notin> set (heap h) \<longrightarrow> p \<noteq> item \<longrightarrow> index h' p = index h p)"
  using ra_heap.insert_correct [OF ra_heap.intro [OF assms(1)] assms(2,3)] .

theorem raheap_insert_ok_witness:
  "\<exists>pos h'. RAHeap.insert (<) (\<lambda>p. p) (8 :: nat) sample_heap = Some (pos, h') \<and>
    raheap_inv (<) (\<lambda>p. p) h' \<and> mset (heap h') = {#8, 9, 4, 7#} \<and> heap h' ! pos = 8"
  using raheap_insert_ok [OF std_less.strict_weak_order_axioms sample_heap_inv(1), of 8]
  by (auto simp: sample_heap_inv(2))



text \<open>
  C29. After the content of one item of a heap has been changed (in either direction), \<open>update\<close>
  on that item restores the order without losing an item or an index.
\<close>

theorem raheap_update_ok:
  assumes "strict_weak_order cmp" "raheap_inv cmp val h" "item \<in> set (heap h)"
  shows "\<exists>pos h'. update cmp (val(item := x)) item h = Some (pos, h') \<and>
    raheap_inv cmp (val(item := x)) h' \<and> mset (heap h') = mset (heap h)"
proof -
  have swo: "ra_heap cmp" using assms(1) by (rule ra_heap.intro)
  have idx: "idx_ok h" using assms(2) by (rule raheap_invD)
  then have k: "index h item < length (heap h)" "heap h ! index h item = item"
    using assms(3) by (auto simp: idx_ok_def in_set_conv_nth)
  have "heap_hole (above cmp (val(item := x))) (heap h) (index h item)"
    using ra_heap.raheap_inv_hole [OF swo assms(2)] idx k(1)
    by (rule heap_hole_changed_item) (simp add: k(2))
  then show ?thesis
    using ra_heap.update_correct [OF swo idx assms(3)] keepsD(2) by metis
qed

theorem raheap_update_ok_witness:
  "\<exists>pos h'. update (<) ((\<lambda>p. p)(4 := 20 :: nat)) 4 sample_heap = Some (pos, h') \<and>
    raheap_inv (<) ((\<lambda>p. p)(4 := 20)) h' \<and> mset (heap h') = {#9, 4, 7#}"
  using raheap_update_ok [OF std_less.strict_weak_order_axioms sample_heap_inv(1), of 4 20]
  by (auto simp: sample_heap_inv(2))

text \<open>
  Popping until the heap is empty never fails and yields every item once, each one not below
  any that follows it.
\<close>

theorem raheap_drains_sorted:
  assumes "strict_weak_order cmp" "raheap_inv cmp val h"
  shows "\<exists>ts. drain (pop cmp val) (length (heap h)) h = Some ts \<and> mset ts = mset (heap h) \<and>
    sorted_wrt (\<lambda>p q. \<not> cmp (val p) (val q)) ts"
  using ra_heap.pop_all_sorted [OF ra_heap.intro [OF assms(1)] assms(2)] .

theorem raheap_drains_sorted_witness:
  "\<exists>ts. drain (pop (<) (\<lambda>p. p)) 3 sample_heap = Some ts \<and> mset ts = {#9, 4, 7#} \<and>
    sorted_wrt (\<ge>) ts"
  using raheap_drains_sorted [OF std_less.strict_weak_order_axioms sample_heap_inv(1)]
  by (simp add: sample_heap_inv(2) numeral_3_eq_3 not_less)

definition erase_sample :: "nat raheap" where
  "erase_sample = \<lparr>heap = [0, 1, 2, 3, 4, 5, 6], index = (\<lambda>p. p)\<rparr>"

definition erase_sample_val :: "nat \<Rightarrow> nat" where
  "erase_sample_val p = [10, 1, 9, 0, 0, 8, 7] ! p"

text \<open>
  Erasing an item other than the top can leave the heap out of order: \<open>erase_at\<close> only sifts
  the moved item down, and here it would have to go up. In the heap 10, 1, 9, 0, 0, 8, 7 (the items
  are numbered by their cells) erasing cell 3 puts the item of content 7 below the one of content 1.
\<close>

theorem raheap_erase_at_breaks_order:
  "raheap_inv (<) erase_sample_val erase_sample \<and>
   \<not> raheap_inv (<) erase_sample_val (erase_at (<) erase_sample_val 3 erase_sample)"
proof -
  have "raheap_inv (<) erase_sample_val erase_sample" by code_simp
  moreover have "heap (erase_at (<) erase_sample_val 3 erase_sample) = [0, 1, 2, 6, 4, 5]" by code_simp
  then have "\<not> is_heap (above (<) erase_sample_val) (heap (erase_at (<) erase_sample_val 3 erase_sample))"
    by simp code_simp
  ultimately show ?thesis by (simp add: raheap_inv_def)
qed

end
