(* ===== verification/BestN.thy ===== *)
theory BestN
  imports RAHeap "HOL-Library.AList"
begin

text \<open>
  \<open>util/templates/container/best_n.h\<close>: the best \<open>capacity\<close> items of a stream, one per key. The
  hash map from keys to items is an association list with distinct keys (its order stands for
  the unspecified iteration order of \<open>unordered_map\<close>); the heap holds pointers to the map's
  nodes, and a node is named by its key. The comparator \<open>cmp x y\<close> says that \<open>x\<close> is better
  than \<open>y\<close>, so the top of the heap is the worst item. \<open>None\<close> is a read through a null
  pointer or an aborted assertion. The serialisation methods of the class are not part of the
  model (\<open>FromBinary\<close> and \<open>FroJSON\<close> only abort; the \<open>To\<close> methods hand the result of
  \<open>GetBestN\<close> to the serializer).
\<close>

definition kBestNInsertStatusInvalid :: nat where "kBestNInsertStatusInvalid = 0"
definition kBestNInsertStatusDidNotAddFailure :: nat where "kBestNInsertStatusDidNotAddFailure = 1"
definition kBestNInsertStatusDidNotAddNewWorse :: nat where "kBestNInsertStatusDidNotAddNewWorse = 2"
definition kBestNInsertStatusDidNotAddExistingBetter :: nat where
  "kBestNInsertStatusDidNotAddExistingBetter = 3"
definition kBestNInsertStatusAddedBegin :: nat where "kBestNInsertStatusAddedBegin = 10"
definition kBestNInsertStatusAddedExistingWorse :: nat where "kBestNInsertStatusAddedExistingWorse = 11"
definition kBestNInsertStatusAddedNew :: nat where "kBestNInsertStatusAddedNew = 12"
definition kBestNInsertStatusAddedEnd :: nat where "kBestNInsertStatusAddedEnd = 13"

lemmas status_defs =
  kBestNInsertStatusInvalid_def kBestNInsertStatusDidNotAddFailure_def
  kBestNInsertStatusDidNotAddNewWorse_def kBestNInsertStatusDidNotAddExistingBetter_def
  kBestNInsertStatusAddedBegin_def kBestNInsertStatusAddedExistingWorse_def
  kBestNInsertStatusAddedNew_def kBestNInsertStatusAddedEnd_def

definition ItemAdded :: "nat \<Rightarrow> bool" where
  "ItemAdded status \<longleftrightarrow> kBestNInsertStatusAddedBegin < status \<and> status < kBestNInsertStatusAddedEnd"

definition NewItemAdded :: "nat \<Rightarrow> bool" where
  "NewItemAdded status \<longleftrightarrow> status = kBestNInsertStatusAddedNew"

definition ItemIsKnown :: "nat \<Rightarrow> bool" where
  "ItemIsKnown status \<longleftrightarrow> status = kBestNInsertStatusDidNotAddExistingBetter \<or>
     status = kBestNInsertStatusAddedExistingWorse"

record ('k, 'v) bestn =
  capacity :: nat
  kv_map :: "('k \<times> 'v) list"
  rheap :: "'k raheap"

definition BestN :: "nat \<Rightarrow> ('k, 'v) bestn" where
  "BestN cap = \<lparr>capacity = cap, kv_map = [], rheap = \<lparr>heap = [], index = (\<lambda>_. 0)\<rparr>\<rparr>"

definition size_bn :: "('k, 'v) bestn \<Rightarrow> nat" where
  "size_bn b = length (kv_map b)"

text \<open>What a heap pointer points to: the \<open>data\<close> member of the node with that key.\<close>

definition data_at :: "('k \<times> 'v) list \<Rightarrow> 'k \<Rightarrow> 'v" where
  "data_at kv k = the (map_of kv k)"

definition worst :: "('k, 'v) bestn \<Rightarrow> 'v option" where
  "worst b = do { k \<leftarrow> top (rheap b); map_of (kv_map b) k }"

definition AddNewItem ::
    "('v \<Rightarrow> 'v \<Rightarrow> bool) \<Rightarrow> 'k \<Rightarrow> 'v \<Rightarrow> ('k, 'v) bestn \<Rightarrow> (nat \<times> ('k, 'v) bestn) option" where
  "AddNewItem cmp key item b =
     (if map_of (kv_map b) key \<noteq> None then Some (kBestNInsertStatusDidNotAddFailure, b)
      else
        let kv = (key, item) # kv_map b in
        do {
          (pos, h) \<leftarrow> RAHeap.insert cmp (data_at kv) key (rheap b);
          Some (kBestNInsertStatusAddedNew, b\<lparr>kv_map := kv, rheap := h\<rparr>)
        })"

definition RemoveTopItem :: "('v \<Rightarrow> 'v \<Rightarrow> bool) \<Rightarrow> ('k, 'v) bestn \<Rightarrow> ('k, 'v) bestn option" where
  "RemoveTopItem cmp b = do {
     (item, h) \<leftarrow> pop cmp (data_at (kv_map b)) (rheap b);
     Some (b\<lparr>kv_map := AList.delete item (kv_map b), rheap := h\<rparr>)
   }"

definition CheckAndUpdateExistingItem ::
    "('v \<Rightarrow> 'v \<Rightarrow> bool) \<Rightarrow> 'k \<Rightarrow> 'v \<Rightarrow> ('k, 'v) bestn \<Rightarrow> (nat \<times> ('k, 'v) bestn) option" where
  "CheckAndUpdateExistingItem cmp key item b =
     (case map_of (kv_map b) key of
        None \<Rightarrow> Some (kBestNInsertStatusInvalid, b)
      | Some old \<Rightarrow>
          if \<not> cmp item old then Some (kBestNInsertStatusDidNotAddExistingBetter, b)
          else
            let kv = AList.update key item (kv_map b) in
            do {
              (pos, h) \<leftarrow> RAHeap.update cmp (data_at kv) key (rheap b);
              Some (kBestNInsertStatusAddedExistingWorse, b\<lparr>kv_map := kv, rheap := h\<rparr>)
            })"

definition insert_bn ::
    "('v \<Rightarrow> 'v \<Rightarrow> bool) \<Rightarrow> 'k \<Rightarrow> 'v \<Rightarrow> ('k, 'v) bestn \<Rightarrow> (nat \<times> ('k, 'v) bestn) option" where
  "insert_bn cmp key item b = do {
     (status, b) \<leftarrow> CheckAndUpdateExistingItem cmp key item b;
     if ItemIsKnown status then Some (status, b)
     else if size_bn b < capacity b then AddNewItem cmp key item b
     else do {
       w \<leftarrow> worst b;
       if \<not> cmp item w then Some (kBestNInsertStatusDidNotAddNewWorse, b)
       else do {
         b \<leftarrow> RemoveTopItem cmp b;
         AddNewItem cmp key item b
       }
     }
   }"

text \<open>\<open>RebuildHeap\<close> inserts every node of the map, in iteration order.\<close>

fun RebuildHeap_loop ::
    "('v \<Rightarrow> 'v \<Rightarrow> bool) \<Rightarrow> ('k \<times> 'v) list \<Rightarrow> ('k \<times> 'v) list \<Rightarrow> 'k raheap \<Rightarrow> 'k raheap option" where
  "RebuildHeap_loop cmp kv [] h = Some h"
| "RebuildHeap_loop cmp kv (p # ps) h = do {
     (pos, h) \<leftarrow> RAHeap.insert cmp (data_at kv) (fst p) h;
     RebuildHeap_loop cmp kv ps h
   }"

definition RebuildHeap :: "('v \<Rightarrow> 'v \<Rightarrow> bool) \<Rightarrow> ('k, 'v) bestn \<Rightarrow> ('k, 'v) bestn option" where
  "RebuildHeap cmp b = do {
     h \<leftarrow> RebuildHeap_loop cmp (kv_map b) (kv_map b) (rheap b);
     Some (b\<lparr>rheap := h\<rparr>)
   }"

text \<open>The result vector is filled from its end, one \<open>pop\<close> per cell.\<close>

fun GetBestN_loop ::
    "('v \<Rightarrow> 'v \<Rightarrow> bool) \<Rightarrow> ('k \<times> 'v) list \<Rightarrow> nat \<Rightarrow> 'k raheap \<Rightarrow> 'v list \<Rightarrow> ('v list \<times> 'k raheap) option" where
  "GetBestN_loop cmp kv 0 h res = Some (res, h)"
| "GetBestN_loop cmp kv (Suc i) h res = do {
     (k, h) \<leftarrow> pop cmp (data_at kv) h;
     GetBestN_loop cmp kv i h (data_at kv k # res)
   }"

definition GetBestN :: "('v \<Rightarrow> 'v \<Rightarrow> bool) \<Rightarrow> ('k, 'v) bestn \<Rightarrow> ('v list \<times> ('k, 'v) bestn) option" where
  "GetBestN cmp b = do {
     b \<leftarrow> (if length (heap (rheap b)) < length (kv_map b) then RebuildHeap cmp b else Some b);
     (res, h) \<leftarrow> GetBestN_loop cmp (kv_map b) (length (heap (rheap b))) (rheap b) [];
     Some (res, b\<lparr>rheap := h\<rparr>)
   }"

text \<open>A run of insertions.\<close>

fun insert_all :: "('v \<Rightarrow> 'v \<Rightarrow> bool) \<Rightarrow> ('k \<times> 'v) list \<Rightarrow> ('k, 'v) bestn \<Rightarrow> ('k, 'v) bestn option" where
  "insert_all cmp [] b = Some b"
| "insert_all cmp (p # ps) b = do {
     (status, b) \<leftarrow> insert_bn cmp (fst p) (snd p) b;
     insert_all cmp ps b
   }"

section \<open>Specification: the best value seen for every key\<close>

definition see :: "('v \<Rightarrow> 'v \<Rightarrow> bool) \<Rightarrow> 'k \<Rightarrow> 'v \<Rightarrow> ('k \<rightharpoonup> 'v) \<Rightarrow> ('k \<rightharpoonup> 'v)" where
  "see cmp k v seen =
     (case seen k of None \<Rightarrow> seen(k \<mapsto> v) | Some w \<Rightarrow> if cmp v w then seen(k \<mapsto> v) else seen)"

fun see_all :: "('v \<Rightarrow> 'v \<Rightarrow> bool) \<Rightarrow> ('k \<times> 'v) list \<Rightarrow> ('k \<rightharpoonup> 'v) \<Rightarrow> ('k \<rightharpoonup> 'v)" where
  "see_all cmp [] seen = seen"
| "see_all cmp (p # ps) seen = see_all cmp ps (see cmp (fst p) (snd p) seen)"

definition bestn_inv :: "('v \<Rightarrow> 'v \<Rightarrow> bool) \<Rightarrow> ('k, 'v) bestn \<Rightarrow> bool" where
  "bestn_inv cmp b \<longleftrightarrow> distinct (map fst (kv_map b)) \<and> length (kv_map b) \<le> capacity b \<and>
     set (heap (rheap b)) = fst ` set (kv_map b) \<and>
     raheap_inv cmp (data_at (kv_map b)) (rheap b)"

text \<open>
  The container against what has been seen: what it keeps is up to date, and it dropped a key
  only when it was full and only when that key's best value is no better than any kept one.
\<close>

definition bestn_rel :: "('v \<Rightarrow> 'v \<Rightarrow> bool) \<Rightarrow> ('k, 'v) bestn \<Rightarrow> ('k \<rightharpoonup> 'v) \<Rightarrow> bool" where
  "bestn_rel cmp b seen \<longleftrightarrow> bestn_inv cmp b \<and>
     (\<forall>k v. map_of (kv_map b) k = Some v \<longrightarrow> seen k = Some v) \<and>
     (\<forall>k v. seen k = Some v \<longrightarrow> map_of (kv_map b) k = None \<longrightarrow>
        length (kv_map b) = capacity b \<and> (\<forall>w \<in> snd ` set (kv_map b). \<not> cmp v w))"


section \<open>The heap of the container\<close>

lemma raheap_inv_cong:
  assumes "\<And>p. p \<in> set (heap h) \<Longrightarrow> val p = val' p"
  shows "raheap_inv cmp val h = raheap_inv cmp val' h"
proof -
  have "val (heap h ! i) = val' (heap h ! i)" if "i < length (heap h)" for i
    using that assms by simp
  then show ?thesis by (auto simp: raheap_inv_def is_heap_def par_less_length)
qed

lemma data_at_Cons: "data_at ((k, v) # kv) p = (if p = k then v else data_at kv p)"
  by (simp add: data_at_def)

lemma data_at_update: "data_at (AList.update k v kv) p = (if p = k then v else data_at kv p)"
  by (simp add: data_at_def update_conv)

lemma data_at_delete: "p \<noteq> k \<Longrightarrow> data_at (AList.delete k kv) p = data_at kv p"
  by (simp add: data_at_def delete_conv)

lemma data_at_in: "p \<in> fst ` set kv \<Longrightarrow> map_of kv p = Some (data_at kv p)"
  by (auto simp: data_at_def dest: weak_map_of_SomeI)

lemma snd_in_iff: "distinct (map fst kv) \<Longrightarrow> w \<in> snd ` set kv \<longleftrightarrow> (\<exists>k. map_of kv k = Some w)"
  by force

lemma keys_delete: "fst ` set (AList.delete k kv) = fst ` set kv - {k}"
  by (metis delete_keys list.set_map set_removeAll)

lemma length_delete:
  assumes "distinct (map fst kv)" "k \<in> fst ` set kv"
  shows "length (AList.delete k kv) + 1 = length kv"
proof -
  have "card (fst ` set (AList.delete k kv)) = card (fst ` set kv - {k})"
    by (simp add: keys_delete)
  moreover have "length (AList.delete k kv) = card (fst ` set (AList.delete k kv))"
    using assms(1) distinct_card [of "map fst (AList.delete k kv)"] distinct_delete [of kv k]
    by simp
  moreover have "length kv = card (fst ` set kv)"
    using assms(1) distinct_card [of "map fst kv"] by simp
  moreover have "card (fst ` set kv) = Suc (card (fst ` set kv - {k}))"
    using assms(2) by (intro card.remove) auto
  ultimately show ?thesis by simp
qed

lemma update_known:
  assumes "distinct (map fst kv)" "map_of kv k = Some w"
  shows "fst ` set (AList.update k v kv) = fst ` set kv" "length (AList.update k v kv) = length kv"
    "distinct (map fst (AList.update k v kv))"
proof -
  have k: "k \<in> fst ` set kv" using assms(2) by (force dest: map_of_SomeD)
  then have m: "map fst (AList.update k v kv) = map fst kv" by (simp add: update_keys)
  then show "length (AList.update k v kv) = length kv" "distinct (map fst (AList.update k v kv))"
    using assms(1) by (metis length_map)+
  show "fst ` set (AList.update k v kv) = fst ` set kv" using m by (metis list.set_map)
qed

lemma bestn_invD:
  assumes "bestn_inv cmp b"
  shows "distinct (map fst (kv_map b))" "length (kv_map b) \<le> capacity b"
    "set (heap (rheap b)) = fst ` set (kv_map b)" "raheap_inv cmp (data_at (kv_map b)) (rheap b)"
  using assms by (simp_all add: bestn_inv_def)

locale best_n = strict_weak_order cmp for cmp :: "'v \<Rightarrow> 'v \<Rightarrow> bool"
begin

lemma is_ra_heap: "ra_heap cmp"
  by unfold_locales

lemma BestN_inv: "bestn_inv cmp (BestN cap)"
  by (simp add: bestn_inv_def BestN_def raheap_inv_def idx_ok_def is_heap_def)

lemma AddNewItem_correct:
  assumes "bestn_inv cmp b" "map_of (kv_map b) key = None" "length (kv_map b) < capacity b"
  shows "\<exists>b'. AddNewItem cmp key item b = Some (kBestNInsertStatusAddedNew, b') \<and> bestn_inv cmp b' \<and>
    kv_map b' = (key, item) # kv_map b \<and> capacity b' = capacity b"
proof -
  let ?kv = "(key, item) # kv_map b"
  have new: "key \<notin> fst ` set (kv_map b)" using assms(2) by (simp add: map_of_eq_None_iff)
  note I = bestn_invD [OF assms(1)]
  have "raheap_inv cmp (data_at ?kv) (rheap b)"
    using I(3,4) new by (subst raheap_inv_cong [where val' = "data_at (kv_map b)"]) (auto simp: data_at_Cons)
  then obtain pos h where h: "RAHeap.insert cmp (data_at ?kv) key (rheap b) = Some (pos, h)"
    "raheap_inv cmp (data_at ?kv) h" "mset (heap h) = add_mset key (mset (heap (rheap b)))"
    using ra_heap.insert_correct [OF is_ra_heap, of "data_at ?kv" "rheap b" key] new I(3) by blast
  from h(3) have "set (heap h) = fst ` set ?kv"
    using I(3) by (metis list.set_map list.simps(9) mset.simps(2) mset_map set_mset_mset fst_conv
        set_mset_add_mset_insert list.simps(15) image_insert)
  with h new assms(3) I show ?thesis
    by (auto simp: AddNewItem_def assms(2) bestn_inv_def)
qed

lemma RemoveTopItem_correct:
  assumes "bestn_inv cmp b" "kv_map b \<noteq> []"
  shows "\<exists>b' t v. RemoveTopItem cmp b = Some b' \<and> bestn_inv cmp b' \<and> capacity b' = capacity b \<and>
    worst b = Some v \<and> map_of (kv_map b) t = Some v \<and> kv_map b' = AList.delete t (kv_map b) \<and>
    length (kv_map b) = length (kv_map b') + 1 \<and> (\<forall>w \<in> snd ` set (kv_map b). \<not> cmp v w)"
proof -
  note I = bestn_invD [OF assms(1)]
  let ?val = "data_at (kv_map b)"
  have ne: "heap (rheap b) \<noteq> []" using I(3) assms(2) by (metis image_is_empty set_empty)
  obtain t h where h: "pop cmp ?val (rheap b) = Some (t, h)" "raheap_inv cmp ?val h"
      "t \<in> set (heap (rheap b))" "\<And>p. p \<in> set (heap (rheap b)) \<Longrightarrow> \<not> cmp (?val t) (?val p)"
      "mset (heap (rheap b)) = add_mset t (mset (heap h))"
    using ra_heap.pop_correct [OF is_ra_heap I(4) ne] by blast
  have d: "distinct (heap (rheap b))" using I(4) raheap_invD idx_ok_distinct by blast
  have t: "t = heap (rheap b) ! 0" using h(1) by (simp add: pop_def split: if_splits)
  have set_h: "set (heap h) = fst ` set (kv_map b) - {t}"
    using set_remove_mset(1) [OF h(5) d] I(3) by simp
  have "raheap_inv cmp (data_at (AList.delete t (kv_map b))) h"
    using h(2) set_h by (subst raheap_inv_cong [where val' = ?val]) (auto simp: data_at_delete)
  moreover have "length (kv_map b) = length (AList.delete t (kv_map b)) + 1"
    using length_delete [OF I(1)] h(3) I(3) by simp
  moreover have "worst b = Some (?val t)" "map_of (kv_map b) t = Some (?val t)"
    using ne t data_at_in [of t "kv_map b"] h(3) I(3) by (simp_all add: worst_def top_def at_def)
  moreover have "\<not> cmp (?val t) w" if "w \<in> snd ` set (kv_map b)" for w
  proof -
    from that obtain k where k: "map_of (kv_map b) k = Some w" using snd_in_iff [OF I(1)] by blast
    then have "k \<in> set (heap (rheap b))" using I(3) by (force dest: map_of_SomeD)
    then show ?thesis using h(4) k by (fastforce simp: data_at_def)
  qed
  moreover have "RemoveTopItem cmp b = Some (b\<lparr>kv_map := AList.delete t (kv_map b), rheap := h\<rparr>)"
    by (simp add: RemoveTopItem_def h(1))
  ultimately show ?thesis
    using set_h I(1,2) by (simp add: bestn_inv_def keys_delete distinct_delete) blast
qed

lemma CheckAndUpdate_correct:
  assumes "bestn_inv cmp b" "map_of (kv_map b) key = Some old" "cmp item old"
  shows "\<exists>b'. CheckAndUpdateExistingItem cmp key item b = Some (kBestNInsertStatusAddedExistingWorse, b') \<and>
    bestn_inv cmp b' \<and> kv_map b' = AList.update key item (kv_map b) \<and> capacity b' = capacity b \<and>
    length (kv_map b') = length (kv_map b)"
proof -
  note I = bestn_invD [OF assms(1)]
  let ?val = "data_at (kv_map b)" and ?kv = "AList.update key item (kv_map b)"
  let ?h = "rheap b" and ?k = "index (rheap b) key"
  have idx: "idx_ok ?h" using I(4) by (rule raheap_invD)
  have key: "key \<in> set (heap ?h)" using assms(2) I(3) by (force dest: map_of_SomeD)
  then have k: "?k < length (heap ?h)" "heap ?h ! ?k = key"
    using idx by (auto simp: idx_ok_def in_set_conv_nth)
  have "heap_hole (above cmp ?val) (heap ?h) ?k"
    using ra_heap.raheap_inv_hole [OF is_ra_heap I(4)] .
  then have hole: "heap_hole (above cmp (data_at ?kv)) (heap ?h) ?k"
    using idx k(1) by (rule heap_hole_changed_item) (simp add: k(2) data_at_update)
  obtain pos h where h: "RAHeap.update cmp (data_at ?kv) key ?h = Some (pos, h)"
      "raheap_inv cmp (data_at ?kv) h" "keeps ?h h"
    using ra_heap.update_correct [OF is_ra_heap idx key hole] by blast
  have upd: "fst ` set ?kv = fst ` set (kv_map b)" "length ?kv = length (kv_map b)"
      "distinct (map fst ?kv)"
    using update_known [OF I(1) assms(2)] by simp_all
  show ?thesis
    using h upd keepsD(3) [OF h(3)] I assms
    by (auto simp: CheckAndUpdateExistingItem_def bestn_inv_def Let_def)
qed

lemma bestn_relD:
  assumes "bestn_rel cmp b seen"
  shows "bestn_inv cmp b" "map_of (kv_map b) k = Some v \<Longrightarrow> seen k = Some v"
    "seen k = Some v \<Longrightarrow> map_of (kv_map b) k = None \<Longrightarrow> length (kv_map b) = capacity b"
    "seen k = Some v \<Longrightarrow> map_of (kv_map b) k = None \<Longrightarrow> map_of (kv_map b) k' = Some w \<Longrightarrow> \<not> cmp v w"
  using assms by (auto simp: bestn_rel_def dest: map_of_SomeD) (force dest: map_of_SomeD)

lemma bestn_relI:
  assumes "bestn_inv cmp b" "\<And>k v. map_of (kv_map b) k = Some v \<Longrightarrow> seen k = Some v"
    "\<And>k v. seen k = Some v \<Longrightarrow> map_of (kv_map b) k = None \<Longrightarrow> length (kv_map b) = capacity b"
    "\<And>k v k' w. seen k = Some v \<Longrightarrow> map_of (kv_map b) k = None \<Longrightarrow> map_of (kv_map b) k' = Some w \<Longrightarrow> \<not> cmp v w"
  shows "bestn_rel cmp b seen"
  unfolding bestn_rel_def
  using assms snd_in_iff [OF bestn_invD(1) [OF assms(1)]] by metis

text \<open>The four ways an insertion can go.\<close>

lemma insert_known_worse:
  assumes "bestn_rel cmp b seen" "map_of (kv_map b) key = Some old" "cmp item old"
  shows "\<exists>b'. insert_bn cmp key item b = Some (kBestNInsertStatusAddedExistingWorse, b') \<and>
    bestn_rel cmp b' (see cmp key item seen) \<and> capacity b' = capacity b"
proof -
  note R = bestn_relD [OF assms(1)]
  obtain b' where b': "CheckAndUpdateExistingItem cmp key item b = Some (kBestNInsertStatusAddedExistingWorse, b')"
      "bestn_inv cmp b'" "kv_map b' = AList.update key item (kv_map b)" "capacity b' = capacity b"
      "length (kv_map b') = length (kv_map b)"
    using CheckAndUpdate_correct [OF R(1) assms(2,3)] by blast
  have m: "map_of (kv_map b') = (map_of (kv_map b))(key \<mapsto> item)" by (simp add: b'(3) update_conv')
  have s: "see cmp key item seen = seen(key \<mapsto> item)" using R(2) [OF assms(2)] assms(3) by (simp add: see_def)
  have "\<not> cmp v item" if "seen k = Some v" "map_of (kv_map b) k = None" for k v
    using R(4) [OF that assms(2)] assms(3) asym neg_trans by blast
  then have "bestn_rel cmp b' (see cmp key item seen)"
    using b'(2,4,5) R by (intro bestn_relI) (auto simp: m s split: if_splits)
  then show ?thesis using b' by (auto simp: insert_bn_def ItemIsKnown_def status_defs)
qed

lemma insert_known_better:
  assumes "bestn_rel cmp b seen" "map_of (kv_map b) key = Some old" "\<not> cmp item old"
  shows "insert_bn cmp key item b = Some (kBestNInsertStatusDidNotAddExistingBetter, b) \<and>
    bestn_rel cmp b (see cmp key item seen)"
  using assms bestn_relD(2) [OF assms(1,2)]
  by (simp add: insert_bn_def CheckAndUpdateExistingItem_def ItemIsKnown_def status_defs see_def)

lemma insert_room:
  assumes "bestn_rel cmp b seen" "map_of (kv_map b) key = None" "length (kv_map b) < capacity b"
  shows "\<exists>b'. insert_bn cmp key item b = Some (kBestNInsertStatusAddedNew, b') \<and>
    bestn_rel cmp b' (see cmp key item seen) \<and> capacity b' = capacity b"
proof -
  note R = bestn_relD [OF assms(1)]
  obtain b' where b': "AddNewItem cmp key item b = Some (kBestNInsertStatusAddedNew, b')" "bestn_inv cmp b'"
      "kv_map b' = (key, item) # kv_map b" "capacity b' = capacity b"
    using AddNewItem_correct [OF R(1) assms(2,3)] by blast
  have none: "seen k = None" if "map_of (kv_map b) k = None" for k
    using R(3) [of k] that assms(3) by (cases "seen k") auto
  then have "see cmp key item seen = seen(key \<mapsto> item)" using assms(2) by (simp add: see_def)
  then have "bestn_rel cmp b' (see cmp key item seen)"
    using b' R none by (intro bestn_relI) (auto split: if_splits)
  then show ?thesis
    using b' assms(2,3) by (simp add: insert_bn_def CheckAndUpdateExistingItem_def ItemIsKnown_def
        status_defs size_bn_def)
qed

lemma insert_full:
  assumes "bestn_rel cmp b seen" "map_of (kv_map b) key = None" "length (kv_map b) = capacity b"
    "0 < capacity b"
  shows "\<exists>status b'. insert_bn cmp key item b = Some (status, b') \<and>
    bestn_rel cmp b' (see cmp key item seen) \<and> capacity b' = capacity b"
proof -
  note R = bestn_relD [OF assms(1)]
  have "kv_map b \<noteq> []" using assms(3,4) by auto
  then obtain b1 t v where b1: "RemoveTopItem cmp b = Some b1" "bestn_inv cmp b1" "capacity b1 = capacity b"
      "worst b = Some v" "map_of (kv_map b) t = Some v" "kv_map b1 = AList.delete t (kv_map b)"
      "length (kv_map b) = length (kv_map b1) + 1" "\<And>w. w \<in> snd ` set (kv_map b) \<Longrightarrow> \<not> cmp v w"
    using RemoveTopItem_correct [OF R(1)] by blast
  have worst: "\<not> cmp v w" if "map_of (kv_map b) k = Some w" for k w
    using b1(8) that by (force dest: map_of_SomeD)
  have step: "insert_bn cmp key item b =
      (if \<not> cmp item v then Some (kBestNInsertStatusDidNotAddNewWorse, b) else AddNewItem cmp key item b1)"
    using assms(2,3) b1(1,4) by (simp add: insert_bn_def CheckAndUpdateExistingItem_def ItemIsKnown_def
        status_defs size_bn_def)
  show ?thesis
  proof (cases "cmp item v")
    case False
    have bad: "\<not> cmp item w" if "map_of (kv_map b) k = Some w" for k w
      using False worst [OF that] neg_trans by blast
    have "bestn_rel cmp b (see cmp key item seen)"
      using R assms(2,3) bad by (intro bestn_relI) (auto simp: see_def split: option.splits if_splits)
    then show ?thesis using step False by simp
  next
    case True
    have "map_of (kv_map b1) key = None" "length (kv_map b1) < capacity b1"
      using assms(2,3) b1 by (auto simp: delete_conv')
    then obtain b' where b': "AddNewItem cmp key item b1 = Some (kBestNInsertStatusAddedNew, b')"
        "bestn_inv cmp b'" "kv_map b' = (key, item) # kv_map b1" "capacity b' = capacity b1"
      using AddNewItem_correct [OF b1(2)] by blast
    have m: "map_of (kv_map b') = (map_of (kv_map b))(t := None, key \<mapsto> item)"
      by (simp add: b'(3) b1(6) delete_conv')
    have s: "see cmp key item seen = seen(key \<mapsto> item)"
    proof (cases "seen key")
      case (Some w)
      then have "\<not> cmp w v" using R(4) [OF _ assms(2) b1(5)] by blast
      then have "cmp item w" using True asym neg_trans by blast
      then show ?thesis using Some by (simp add: see_def)
    qed (simp add: see_def)
    have tk: "t \<noteq> key" using assms(2) b1(5) by auto
    have "\<not> cmp u w" if u: "(seen(key \<mapsto> item)) k = Some u" "map_of (kv_map b') k = None"
      and w: "map_of (kv_map b') k' = Some w" for k u k' w
    proof -
      have k: "k \<noteq> key" "seen k = Some u" using u by (auto simp: m split: if_splits)
      have "\<not> cmp u v"
      proof (cases "k = t")
        case True
        then have "u = v" using R(2) [OF b1(5)] k(2) by simp
        then show ?thesis using asym by blast
      next
        case False
        then show ?thesis using R(4) [OF k(2) _ b1(5)] u k by (simp add: m)
      qed
      moreover have "\<not> cmp v w" using w worst True asym by (auto simp: m split: if_splits)
      ultimately show ?thesis using neg_trans by blast
    qed
    moreover have "length (kv_map b') = capacity b'" using b' b1 assms(3) by simp
    ultimately have "bestn_rel cmp b' (see cmp key item seen)"
      unfolding s using b'(2) R(2) by (intro bestn_relI) (auto simp: m split: if_splits)
    then show ?thesis using step True b'(1,4) b1(3) by simp
  qed
qed

lemma insert_bn_rel:
  assumes "bestn_rel cmp b seen" "0 < capacity b"
  shows "\<exists>status b'. insert_bn cmp key item b = Some (status, b') \<and>
    bestn_rel cmp b' (see cmp key item seen) \<and> capacity b' = capacity b"
proof (cases "map_of (kv_map b) key")
  case None
  have "length (kv_map b) \<le> capacity b" using bestn_invD(2) bestn_relD(1) assms(1) by blast
  then show ?thesis using insert_room insert_full assms None by (metis le_neq_implies_less)
next
  case (Some old)
  then show ?thesis using insert_known_worse insert_known_better assms by metis
qed

lemma insert_all_rel:
  assumes "bestn_rel cmp b seen" "0 < capacity b"
  shows "\<exists>b'. insert_all cmp ps b = Some b' \<and> bestn_rel cmp b' (see_all cmp ps seen) \<and> capacity b' = capacity b"
  using assms
proof (induction ps arbitrary: b seen)
  case Nil
  then show ?case by simp
next
  case (Cons p ps)
  obtain status b1 where b1: "insert_bn cmp (fst p) (snd p) b = Some (status, b1)"
      "bestn_rel cmp b1 (see cmp (fst p) (snd p) seen)" "capacity b1 = capacity b"
    using insert_bn_rel [OF Cons.prems] by blast
  then show ?case using Cons.IH [OF b1(2)] Cons.prems(2) by simp
qed

text \<open>Emptying the heap yields the values in order, the best one first.\<close>

lemma GetBestN_loop_correct:
  assumes "raheap_inv cmp (data_at kv) h" "length (heap h) = n"
    "sorted_wrt (\<lambda>x y. \<not> cmp y x) res"
    "\<And>k y. k \<in> set (heap h) \<Longrightarrow> y \<in> set res \<Longrightarrow> \<not> cmp y (data_at kv k)"
  shows "\<exists>out h'. GetBestN_loop cmp kv n h res = Some (out, h') \<and> heap h' = [] \<and>
    mset out = image_mset (data_at kv) (mset (heap h)) + mset res \<and> sorted_wrt (\<lambda>x y. \<not> cmp y x) out"
  using assms
proof (induction n arbitrary: h res)
  case 0
  then show ?case by simp
next
  case (Suc n)
  from Suc.prems(2) have ne: "heap h \<noteq> []" by auto
  obtain t h1 where h1: "pop cmp (data_at kv) h = Some (t, h1)" "raheap_inv cmp (data_at kv) h1"
      "t \<in> set (heap h)" "\<And>p. p \<in> set (heap h) \<Longrightarrow> \<not> cmp (data_at kv t) (data_at kv p)"
      "mset (heap h) = add_mset t (mset (heap h1))"
    using ra_heap.pop_correct [OF is_ra_heap Suc.prems(1) ne] by blast
  have sub: "p \<in> set (heap h)" if "p \<in> set (heap h1)" for p
    using that h1(5) by (metis set_mset_mset union_iff insert_iff set_mset_add_mset_insert)
  have "length (heap h1) = n" using h1(5) Suc.prems(2) by (metis Suc_inject size_add_mset size_mset)
  moreover have "sorted_wrt (\<lambda>x y. \<not> cmp y x) (data_at kv t # res)" using Suc.prems(3,4) h1(3) by simp
  ultimately have "\<exists>out h'. GetBestN_loop cmp kv n h1 (data_at kv t # res) = Some (out, h') \<and> heap h' = [] \<and>
      mset out = image_mset (data_at kv) (mset (heap h1)) + mset (data_at kv t # res) \<and>
      sorted_wrt (\<lambda>x y. \<not> cmp y x) out"
    using Suc.prems(4) h1(2,4) sub by (intro Suc.IH) auto
  then show ?case by (auto simp: h1(1,5))
qed

lemma GetBestN_correct:
  assumes "bestn_inv cmp b"
  shows "\<exists>out b'. GetBestN cmp b = Some (out, b') \<and> mset out = mset (map snd (kv_map b)) \<and>
    sorted_wrt (\<lambda>x y. \<not> cmp y x) out \<and> kv_map b' = kv_map b \<and> heap (rheap b') = []"
proof -
  note I = bestn_invD [OF assms]
  have d: "distinct (heap (rheap b))" using I(4) raheap_invD idx_ok_distinct by blast
  then have l: "length (heap (rheap b)) = length (kv_map b)"
    using I(1,3) distinct_card [of "heap (rheap b)"] distinct_card [of "map fst (kv_map b)"] by simp
  have "mset (heap (rheap b)) = mset (map fst (kv_map b))"
    using d I(1,3) by (metis list.set_map mset_set_set)
  moreover have "map (data_at (kv_map b)) (map fst (kv_map b)) = map snd (kv_map b)"
    using I(1) by (auto simp: data_at_def)
  ultimately have "image_mset (data_at (kv_map b)) (mset (heap (rheap b))) = mset (map snd (kv_map b))"
    by (metis mset_map)
  then show ?thesis
    using GetBestN_loop_correct [OF I(4) refl, of "[]"] l by (auto simp: GetBestN_def)
qed

end

interpretation best_less: best_n "(<) :: 'a::linorder \<Rightarrow> 'a \<Rightarrow> bool"
  by unfold_locales

interpretation best_greater: best_n "(>) :: 'a::linorder \<Rightarrow> 'a \<Rightarrow> bool"
  by unfold_locales

section \<open>Properties\<close>



text \<open>
  \<open>GetBestN\<close> on a container whose heap is complete returns all kept values, ordered from the
  best to the worst.
\<close>

theorem best_n_result_sorted:
  assumes "strict_weak_order cmp" "bestn_inv cmp b"
  shows "\<exists>out b'. GetBestN cmp b = Some (out, b') \<and> mset out = mset (map snd (kv_map b)) \<and>
    sorted_wrt (\<lambda>x y. \<not> cmp y x) out \<and> kv_map b' = kv_map b \<and> heap (rheap b') = []"
  using best_n.GetBestN_correct [OF best_n.intro [OF assms(1)] assms(2)] .

theorem best_n_result_sorted_witness:
  "bestn_inv (<) (BestN 2 :: (char, nat) bestn) \<and>
   (\<exists>out b'. GetBestN (<) (BestN 2 :: (char, nat) bestn) = Some (out, b') \<and> mset out = {#})"
  using best_n_result_sorted [OF std_less.strict_weak_order_axioms best_less.BestN_inv, of 2]
    best_less.BestN_inv [of 2]
  by (auto simp: BestN_def)

text \<open>
  \<open>GetBestN\<close> empties the heap but not the map, and the next insertion puts only the new item
  into the heap; the following \<open>GetBestN\<close> then rebuilds the heap from the whole map on top of it
  and reports that item twice.
\<close>

theorem best_n_reports_item_twice:
  "map_option fst (do {
     (s, b) \<leftarrow> insert_bn (<) (1 :: nat) (5 :: nat) (BestN 3);
     (out, b) \<leftarrow> GetBestN (<) b;
     (s, b) \<leftarrow> insert_bn (<) 2 7 b;
     GetBestN (<) b
   }) = Some [5, 7, 7]"
  by (simp add: insert_bn_def CheckAndUpdateExistingItem_def AddNewItem_def GetBestN_def RebuildHeap_def
      BestN_def size_bn_def ItemIsKnown_def status_defs RAHeap.insert_def HeapifyUp_def
      HeapifyUp_loop.simps HeapifyDown_def HeapifyDown_loop.simps pop_def erase_at_def swap_items_def
      set_heap_item_pos_def get_parent_pos_def get_left_child_pos_def get_right_child_pos_def
      data_at_def list_swap_def Let_def)

end
