(* ===== verification/NodeList.thy ===== *)
theory NodeList
  imports Heap_Order PQueue "HOL-Library.Signed_Division"
begin

text \<open>
  \<open>util/algorithm/nodelist.h\<close>: the open list of the A* search, a heap of node pointers with the
  lowest \<open>f_value\<close> on top. A node is a pointer \<open>'p\<close>; its two members the list reads and
  writes, \<open>f_value\<close> and \<open>nodelist_index\<close>, are stores of the state. A null pointer is
  \<open>None\<close>. The \<open>f_value\<close> of a node is a float in the code; here any linear order, so
  NaN is left out. Indices are C \<open>int\<close>s, and no list is so long that \<open>n * 2 + 2\<close>
  overflows.
\<close>

record ('p, 'c) nodelist =
  nl_heap :: "'p list"
  f_value :: "'p \<Rightarrow> 'c"
  nodelist_index :: "'p \<Rightarrow> int"

definition set_nodelist_index :: "'p \<Rightarrow> int \<Rightarrow> ('p, 'c) nodelist \<Rightarrow> ('p, 'c) nodelist" where
  "set_nodelist_index p i l = l\<lparr>nodelist_index := (nodelist_index l)(p := i)\<rparr>"

definition deref_f :: "('p, 'c) nodelist \<Rightarrow> 'p option \<Rightarrow> 'c option" where
  "deref_f l p = map_option (f_value l) p"

definition Clear :: "('p, 'c) nodelist \<Rightarrow> ('p, 'c) nodelist" where
  "Clear l = l\<lparr>nl_heap := []\<rparr>"

definition size_nl :: "('p, 'c) nodelist \<Rightarrow> int" where
  "size_nl l = int (length (nl_heap l))"

definition NthNode :: "('p, 'c) nodelist \<Rightarrow> int \<Rightarrow> 'p option" where
  "NthNode l n = (if 0 \<le> n \<and> n < size_nl l then Some (nl_heap l ! nat n) else None)"

definition Current :: "('p, 'c) nodelist \<Rightarrow> int \<Rightarrow> 'p option" where
  "Current l n = NthNode l n"

definition Parent :: "('p, 'c) nodelist \<Rightarrow> int \<Rightarrow> 'p option" where
  "Parent l n = NthNode l ((n - 1) sdiv 2)"

definition LeftChild :: "('p, 'c) nodelist \<Rightarrow> int \<Rightarrow> 'p option" where
  "LeftChild l n = NthNode l (n * 2 + 1)"

definition RightChild :: "('p, 'c) nodelist \<Rightarrow> int \<Rightarrow> 'p option" where
  "RightChild l n = NthNode l (n * 2 + 2)"

definition SwapWithParent :: "nat \<Rightarrow> ('p, 'c) nodelist \<Rightarrow> ('p, 'c) nodelist option" where
  "SwapWithParent idx l = do {
     ASSERT (0 < idx);
     let parent_idx = (idx - 1) div 2;
     let tmp = nl_heap l ! parent_idx;
     let hp = (nl_heap l)[parent_idx := nl_heap l ! idx, idx := tmp];
     let l = set_nodelist_index (hp ! parent_idx) (int parent_idx) (l\<lparr>nl_heap := hp\<rparr>);
     Some (set_nodelist_index (hp ! idx) (int idx) l)
   }"

text \<open>
  The loops run over positions that the assertions in front of them have shown to be in range
  (or, in \<open>MoveUpItem\<close>, do not run at all), so their index is a natural number.
\<close>

function MoveUpItem_loop :: "nat \<Rightarrow> ('p, 'c::linorder) nodelist \<Rightarrow> ('p, 'c) nodelist option" where
  "MoveUpItem_loop current_idx l =
     (if 0 < current_idx then
        let parent_idx = (current_idx - 1) div 2 in
        if f_value l (nl_heap l ! parent_idx) \<le> f_value l (nl_heap l ! current_idx) then Some l
        else do { l \<leftarrow> SwapWithParent current_idx l; MoveUpItem_loop parent_idx l }
      else Some l)"
  by pat_completeness auto
termination
  by (relation "measure fst") (auto simp: Let_def)

text \<open>The two sanity checks of \<open>MoveUpItem\<close>: a child that exists is not below the item.\<close>

definition child_above :: "('p, 'c::linorder) nodelist \<Rightarrow> 'p option \<Rightarrow> 'p option \<Rightarrow> unit option" where
  "child_above l child current =
     (case child of None \<Rightarrow> Some ()
      | Some c \<Rightarrow> do { fc \<leftarrow> deref_f l current; ASSERT (fc \<le> f_value l c) })"

definition MoveUpItem :: "int \<Rightarrow> ('p, 'c::linorder) nodelist \<Rightarrow> ('p, 'c) nodelist option" where
  "MoveUpItem idx l = do {
     let current = Current l idx;
     child_above l (LeftChild l idx) current;
     child_above l (RightChild l idx) current;
     MoveUpItem_loop (nat idx) l
   }"

function MoveDownItem_loop ::
    "nat \<Rightarrow> nat \<Rightarrow> ('p, 'c::linorder) nodelist \<Rightarrow> ('p, 'c) nodelist option" where
  "MoveDownItem_loop num_nodes current_idx l =
     (if current_idx < num_nodes then
        let left_child_idx = current_idx * 2 + 1;
            right_child_idx = current_idx * 2 + 2;
            f = (\<lambda>i. f_value l (nl_heap l ! i)) in
        if right_child_idx < num_nodes then
          if f left_child_idx \<le> f right_child_idx then
            if f current_idx \<le> f left_child_idx then Some l
            else do { l \<leftarrow> SwapWithParent left_child_idx l; MoveDownItem_loop num_nodes left_child_idx l }
          else
            if f current_idx \<le> f right_child_idx then Some l
            else do { l \<leftarrow> SwapWithParent right_child_idx l; MoveDownItem_loop num_nodes right_child_idx l }
        else
          if left_child_idx < num_nodes then
            if f current_idx \<le> f left_child_idx then Some l
            else SwapWithParent left_child_idx l
          else Some l
      else Some l)"
  by pat_completeness auto
termination
  by (relation "measure (\<lambda>(n, i, l). n - i)") auto

declare MoveUpItem_loop.simps [simp del] MoveDownItem_loop.simps [simp del]

definition MoveDownItem :: "int \<Rightarrow> ('p, 'c::linorder) nodelist \<Rightarrow> ('p, 'c) nodelist option" where
  "MoveDownItem idx l = do {
     (if idx = 0 then Some () else do {
        fp \<leftarrow> deref_f l (Parent l idx);
        fc \<leftarrow> deref_f l (Current l idx);
        ASSERT (fp \<le> fc) });
     MoveDownItem_loop (length (nl_heap l)) (nat idx) l
   }"

definition AdjustItemLocation :: "int \<Rightarrow> ('p, 'c::linorder) nodelist \<Rightarrow> ('p, 'c) nodelist option" where
  "AdjustItemLocation idx l = do {
     ASSERT (0 \<le> idx \<and> idx < size_nl l);
     down \<leftarrow> (if idx = 0 then Some True else do {
        fp \<leftarrow> deref_f l (Parent l idx);
        fc \<leftarrow> deref_f l (Current l idx);
        Some (fp \<le> fc) });
     if down then MoveDownItem idx l else MoveUpItem idx l
   }"

definition AddNode :: "'p option \<Rightarrow> ('p, 'c::linorder) nodelist \<Rightarrow> ('p, 'c) nodelist option" where
  "AddNode newnode l = do {
     node \<leftarrow> newnode;
     let l = l\<lparr>nl_heap := nl_heap l @ [node]\<rparr>;
     let current_idx = size_nl l - 1;
     let l = set_nodelist_index node current_idx l;
     MoveUpItem current_idx l
   }"

definition RemoveItem :: "int \<Rightarrow> ('p, 'c::linorder) nodelist \<Rightarrow> ('p, 'c) nodelist option" where
  "RemoveItem idx l = do {
     ASSERT (0 \<le> idx \<and> idx < size_nl l);
     let l = l\<lparr>nl_heap := (nl_heap l)[nat idx := last (nl_heap l)]\<rparr>;
     let l = set_nodelist_index (nl_heap l ! nat idx) idx l;
     let l = l\<lparr>nl_heap := butlast (nl_heap l)\<rparr>;
     if idx < size_nl l then AdjustItemLocation idx l else Some l
   }"

definition InList :: "('p, 'c) nodelist \<Rightarrow> 'p \<Rightarrow> bool" where
  "InList l item =
     (let idx = nodelist_index l item
      in 0 \<le> idx \<and> idx < size_nl l \<and> nl_heap l ! nat idx = item)"

definition AdjustPosition ::
    "'p \<Rightarrow> ('p, 'c::linorder) nodelist \<Rightarrow> (bool \<times> ('p, 'c) nodelist) option" where
  "AdjustPosition item l =
     (let idx = nodelist_index l item
      in if 0 \<le> idx \<and> idx < size_nl l \<and> nl_heap l ! nat idx = item
         then do { l \<leftarrow> AdjustItemLocation idx l; Some (True, l) }
         else Some (False, l))"

text \<open>\<open>*old_item = *new_item\<close> copies both members; the index is put back by the next line.\<close>

definition ReplaceItem :: "'p \<Rightarrow> 'p \<Rightarrow> ('p, 'c::linorder) nodelist \<Rightarrow> ('p, 'c) nodelist option" where
  "ReplaceItem old_item new_item l = do {
     let old_index = nodelist_index l old_item;
     ASSERT (0 \<le> old_index \<and> old_index < size_nl l);
     ASSERT (nl_heap l ! nat old_index = old_item);
     let l = l\<lparr>f_value := (f_value l)(old_item := f_value l new_item)\<rparr>;
     let l = set_nodelist_index old_item (nodelist_index l new_item) l;
     let l = set_nodelist_index old_item old_index l;
     AdjustItemLocation old_index l
   }"

definition GetAndRemoveFirstNode ::
    "('p, 'c::linorder) nodelist \<Rightarrow> ('p option \<times> ('p, 'c) nodelist) option" where
  "GetAndRemoveFirstNode l =
     (if nl_heap l = [] then Some (None, l)
      else do {
        let ret_node = nl_heap l ! 0;
        let l = set_nodelist_index ret_node (-1) l;
        l \<leftarrow> RemoveItem 0 l;
        Some (Some ret_node, l)
      })"

definition FirstNode :: "('p, 'c) nodelist \<Rightarrow> 'p option" where
  "FirstNode l = (if nl_heap l = [] then None else Some (nl_heap l ! 0))"

fun CheckHeapConsistency_loop :: "nat \<Rightarrow> ('p, 'c::linorder) nodelist \<Rightarrow> unit option" where
  "CheckHeapConsistency_loop 0 l = Some ()"
| "CheckHeapConsistency_loop (Suc i) l = do {
     fc \<leftarrow> deref_f l (Current l (int (Suc i)));
     fp \<leftarrow> deref_f l (Parent l (int (Suc i)));
     ASSERT (fp \<le> fc);
     CheckHeapConsistency_loop i l
   }"

definition CheckHeapConsistency :: "('p, 'c::linorder) nodelist \<Rightarrow> unit option" where
  "CheckHeapConsistency l = CheckHeapConsistency_loop (length (nl_heap l) - 1) l"

section \<open>Invariant\<close>

definition nl_idx :: "('p, 'c) nodelist \<Rightarrow> bool" where
  "nl_idx l \<longleftrightarrow> (\<forall>i < length (nl_heap l). nodelist_index l (nl_heap l ! i) = int i)"

definition nl_inv :: "('p, 'c::linorder) nodelist \<Rightarrow> bool" where
  "nl_inv l \<longleftrightarrow> nl_idx l \<and> is_heap (\<lambda>p c. f_value l p \<le> f_value l c) (nl_heap l)"

text \<open>What the two sifting loops keep.\<close>

definition nl_keeps :: "('p, 'c) nodelist \<Rightarrow> ('p, 'c) nodelist \<Rightarrow> bool" where
  "nl_keeps l l' \<longleftrightarrow> nl_idx l' \<and> mset (nl_heap l') = mset (nl_heap l) \<and> f_value l' = f_value l \<and>
     (\<forall>p. p \<notin> set (nl_heap l) \<longrightarrow> nodelist_index l' p = nodelist_index l p)"

interpretation f_order: heap_order "\<lambda>p c. f p \<le> f c" for f :: "'p \<Rightarrow> 'c::linorder"
  by unfold_locales auto

lemma nl_idx_distinct: "nl_idx l \<Longrightarrow> distinct (nl_heap l)"
  unfolding nl_idx_def by (metis distinct_conv_nth of_nat_eq_iff)

lemma nl_keeps_refl: "nl_idx l \<Longrightarrow> nl_keeps l l"
  by (simp add: nl_keeps_def)

lemma nl_keeps_trans: "nl_keeps l l' \<Longrightarrow> nl_keeps l' l'' \<Longrightarrow> nl_keeps l l''"
  unfolding nl_keeps_def by (metis set_mset_mset)

lemma nl_keepsD:
  assumes "nl_keeps l l'"
  shows "nl_idx l'" "mset (nl_heap l') = mset (nl_heap l)" "f_value l' = f_value l"
    "length (nl_heap l') = length (nl_heap l)" "set (nl_heap l') = set (nl_heap l)"
    "p \<notin> set (nl_heap l) \<Longrightarrow> nodelist_index l' p = nodelist_index l p"
  using assms by (auto simp: nl_keeps_def dest: mset_eq_length mset_eq_setD)

lemma nl_invD:
  "nl_inv l \<Longrightarrow> nl_idx l" "nl_inv l \<Longrightarrow> is_heap (\<lambda>p c. f_value l p \<le> f_value l c) (nl_heap l)"
  by (simp_all add: nl_inv_def)

lemma set_nodelist_index_sel [simp]:
  "nl_heap (set_nodelist_index p i l) = nl_heap l" "f_value (set_nodelist_index p i l) = f_value l"
  "nodelist_index (set_nodelist_index p i l) = (nodelist_index l)(p := i)"
  by (simp_all add: set_nodelist_index_def)

lemma set_nodelist_index_heap:
  "(set_nodelist_index p i l)\<lparr>nl_heap := xs\<rparr> = set_nodelist_index p i (l\<lparr>nl_heap := xs\<rparr>)"
  by (cases l) (simp add: set_nodelist_index_def)

lemma set_nodelist_index_twice:
  "set_nodelist_index p i (set_nodelist_index p j l) = set_nodelist_index p i l"
  by (cases l) (simp add: set_nodelist_index_def)

lemma set_nodelist_index_same: "set_nodelist_index p (nodelist_index l p) l = l"
  by (cases l) (simp add: set_nodelist_index_def)

lemma SwapWithParent_ok:
  assumes "nl_idx l" "0 < k" "k < length (nl_heap l)"
  shows "\<exists>l'. SwapWithParent k l = Some l' \<and> nl_heap l' = list_swap (nl_heap l) k (par k) \<and> nl_keeps l l'"
proof -
  let ?xs = "nl_heap l" and ?p = "par k"
  let ?ys = "?xs[?p := ?xs ! k, k := ?xs ! ?p]"
  let ?l = "set_nodelist_index (?ys ! k) (int k) (set_nodelist_index (?ys ! ?p) (int ?p) (l\<lparr>nl_heap := ?ys\<rparr>))"
  have p: "?p < k" "?p < length ?xs" using assms by auto
  have ys: "?ys = list_swap ?xs k ?p"
    using p by (simp add: list_swap_def list_update_swap)
  have s: "SwapWithParent k l = Some ?l"
    using assms by (simp add: SwapWithParent_def par_def Let_def)
  have d: "distinct ?ys" using nl_idx_distinct [OF assms(1)] p assms ys by simp
  have "nl_idx ?l"
    unfolding nl_idx_def
  proof (intro allI impI)
    fix i assume i: "i < length (nl_heap ?l)"
    show "nodelist_index ?l (nl_heap ?l ! i) = int i"
    proof (cases "i = k \<or> i = ?p")
      case True
      moreover have "?ys ! ?p \<noteq> ?ys ! k"
        using p assms(2,3) nth_eq_iff_index_eq [OF d, of ?p k] less_imp_neq [OF p(1)] by simp
      ultimately show ?thesis by auto
    next
      case False
      then have "?ys ! i \<noteq> ?ys ! k" "?ys ! i \<noteq> ?ys ! ?p" "?ys ! i = ?xs ! i"
        using i p assms(2,3) nth_eq_iff_index_eq [OF d, of i k] nth_eq_iff_index_eq [OF d, of i ?p]
        by auto
      then show ?thesis using i assms(1) by (simp add: nl_idx_def)
    qed
  qed
  moreover have "?ys ! k \<in> set ?xs" "?ys ! ?p \<in> set ?xs" using p assms by (auto simp: nth_list_update)
  ultimately have "nl_keeps l ?l" using p assms ys by (auto simp: nl_keeps_def)
  with s ys show ?thesis by auto
qed

lemma MoveUpItem_loop_ok:
  assumes "nl_idx l" "k < length (nl_heap l)" "heap_up (\<lambda>p c. f_value l p \<le> f_value l c) (nl_heap l) k"
  shows "\<exists>l'. MoveUpItem_loop k l = Some l' \<and> nl_keeps l l' \<and> nl_inv l'"
  using assms
proof (induction k arbitrary: l rule: less_induct)
  case (less k)
  let ?f = "f_value l" and ?xs = "nl_heap l"
  show ?case
  proof (cases "k = 0 \<or> ?f (?xs ! par k) \<le> ?f (?xs ! k)")
    case True
    then have "MoveUpItem_loop k l = Some l"
      by (subst MoveUpItem_loop.simps) (auto simp: par_def)
    moreover have "nl_inv l"
      using less.prems True f_order.up_done by (auto simp: nl_inv_def)
    ultimately show ?thesis using less.prems by (auto intro: nl_keeps_refl)
  next
    case False
    then have k: "0 < k" by simp
    obtain l1 where l1: "SwapWithParent k l = Some l1" "nl_heap l1 = list_swap ?xs k (par k)" "nl_keeps l l1"
      using SwapWithParent_ok [OF less.prems(1) k less.prems(2)] by blast
    have "heap_up (\<lambda>p c. ?f p \<le> ?f c) (nl_heap l1) (par k)"
      unfolding l1(2) using less.prems k False by (intro f_order.up_step) auto
    then obtain l' where "MoveUpItem_loop (par k) l1 = Some l'" "nl_keeps l1 l'" "nl_inv l'"
      using less.IH [of "par k" l1] nl_keepsD [OF l1(3)] k less.prems(2) par_less_length by auto
    moreover have "MoveUpItem_loop k l = MoveUpItem_loop (par k) l1"
      using False k l1(1) by (subst MoveUpItem_loop.simps) (simp add: par_def Let_def)
    ultimately show ?thesis using l1(3) by (auto intro: nl_keeps_trans)
  qed
qed

lemma MoveDownItem_loop_ok:
  assumes "nl_idx l" "n = length (nl_heap l)"
    and "heap_down (\<lambda>p c. f_value l p \<le> f_value l c) (nl_heap l) k"
  shows "\<exists>l'. MoveDownItem_loop n k l = Some l' \<and> nl_keeps l l' \<and> nl_inv l'"
  using assms
proof (induction "n - k" arbitrary: k l rule: less_induct)
  case less
  let ?f = "f_value l" and ?xs = "nl_heap l"
  let ?le = "\<lambda>p c. ?f p \<le> ?f c"
  have stop: ?case if "MoveDownItem_loop n k l = Some l"
    "\<And>c. 0 < c \<Longrightarrow> c < n \<Longrightarrow> par c = k \<Longrightarrow> ?le (?xs ! k) (?xs ! c)"
    using that less.prems f_order.down_done [OF less.prems(3)] by (auto simp: nl_inv_def intro: nl_keeps_refl)
  have go: "\<exists>l1. SwapWithParent c l = Some l1 \<and> nl_keeps l l1 \<and> heap_down ?le (nl_heap l1) c \<and>
      (\<exists>l'. MoveDownItem_loop n c l1 = Some l' \<and> nl_keeps l l' \<and> nl_inv l')"
    if c: "0 < c" "c < n" "par c = k" "\<not> ?le (?xs ! k) (?xs ! c)"
      "\<And>e. 0 < e \<Longrightarrow> e < n \<Longrightarrow> par e = k \<Longrightarrow> ?le (?xs ! c) (?xs ! e)" for c
  proof -
    obtain l1 where l1: "SwapWithParent c l = Some l1" "nl_heap l1 = list_swap ?xs c (par c)" "nl_keeps l l1"
      using SwapWithParent_ok [OF less.prems(1) c(1)] c(2) less.prems(2) by blast
    have k: "k < c" using c par_less by blast
    have d: "heap_down ?le (list_swap ?xs k c) c"
      using less.prems c by (intro f_order.down_step) auto
    have "list_swap ?xs k c = nl_heap l1" using l1(2) c(3) k by (simp add: list_swap_def list_update_swap)
    with d have d1: "heap_down (\<lambda>p c. f_value l1 p \<le> f_value l1 c) (nl_heap l1) c"
      using nl_keepsD(3) [OF l1(3)] by simp
    then obtain l' where "MoveDownItem_loop n c l1 = Some l'" "nl_keeps l1 l'" "nl_inv l'"
      using less.hyps [of c l1] diff_less_mono2 [OF k order.strict_trans [OF k c(2)]]
        nl_keepsD(1,4) [OF l1(3)] less.prems(2) by auto
    moreover have "heap_down ?le (nl_heap l1) c" using d1 nl_keepsD(3) [OF l1(3)] by simp
    ultimately show ?thesis using l1(1,3) nl_keeps_trans by blast
  qed
  consider (none) "n \<le> 2 * k + 1" | (left) "2 * k + 1 < n" "n \<le> 2 * k + 2" | (both) "2 * k + 2 < n"
    by linarith
  then show ?case
  proof cases
    case none
    then show ?thesis
      by (intro stop) (subst MoveDownItem_loop.simps, auto simp: par_eq_iff Let_def)
  next
    case left
    then have only: "c = 2 * k + 1" if "0 < c" "c < n" "par c = k" for c
      using that by (auto simp: par_eq_iff)
    show ?thesis
    proof (cases "?le (?xs ! k) (?xs ! (2 * k + 1))")
      case True
      show ?thesis
      proof (rule stop)
        show "MoveDownItem_loop n k l = Some l"
          using left True by (subst MoveDownItem_loop.simps) (simp add: Let_def mult.commute)
      qed (use only True in fastforce)
    next
      case False
      obtain l1 where l1: "SwapWithParent (2 * k + 1) l = Some l1" "nl_keeps l l1"
        "heap_down ?le (nl_heap l1) (2 * k + 1)"
        using go [of "2 * k + 1"] left False only by force
      have "n = length (nl_heap l1)" using nl_keepsD(4) [OF l1(2)] less.prems(2) by simp
      then have "is_heap ?le (nl_heap l1)"
        using f_order.down_done [OF l1(3)] left by (auto simp: par_eq_iff)
      then have "nl_inv l1" using nl_keepsD [OF l1(2)] by (simp add: nl_inv_def)
      moreover have "MoveDownItem_loop n k l = Some l1"
        using left False l1(1) by (subst MoveDownItem_loop.simps) (simp add: Let_def mult.commute)
      ultimately show ?thesis using l1(2) by blast
    qed
  next
    case both
    define c where "c = (if ?le (?xs ! (2 * k + 1)) (?xs ! (2 * k + 2)) then 2 * k + 1 else 2 * k + 2)"
    have c: "0 < c" "c < n" "par c = k" using both by (auto simp: c_def)
    have best: "?le (?xs ! c) (?xs ! e)" if "0 < e" "e < n" "par e = k" for e
      using that by (auto simp: par_eq_iff c_def)
    have unfold: "MoveDownItem_loop n k l =
        (if ?le (?xs ! k) (?xs ! c) then Some l else SwapWithParent c l \<bind> MoveDownItem_loop n c)"
      using both by (subst MoveDownItem_loop.simps) (simp add: Let_def mult.commute c_def)
    show ?thesis
    proof (cases "?le (?xs ! k) (?xs ! c)")
      case True
      then have "MoveDownItem_loop n k l = Some l" using unfold by simp
      then show ?thesis by (rule stop) (rule order.trans [OF True best])
    next
      case False
      obtain l1 l' where "SwapWithParent c l = Some l1" "MoveDownItem_loop n c l1 = Some l'"
        "nl_keeps l l'" "nl_inv l'" using go [OF c False best] by blast
      with False unfold show ?thesis by simp
    qed
  qed
qed

section \<open>The operations\<close>

lemma NthNode_int: "NthNode l (int k) = (if k < length (nl_heap l) then Some (nl_heap l ! k) else None)"
  by (simp add: NthNode_def size_nl_def)

lemma Current_int: "k < length (nl_heap l) \<Longrightarrow> Current l (int k) = Some (nl_heap l ! k)"
  by (simp add: Current_def NthNode_int)

lemma sdiv2_pred: "0 < k \<Longrightarrow> (int k - 1) sdiv 2 = int (par k)"
  by (cases k) (auto simp: signed_divide_int_def par_def sgn_if zdiv_int)

lemma Parent_int:
  "0 < k \<Longrightarrow> k < length (nl_heap l) \<Longrightarrow> Parent l (int k) = Some (nl_heap l ! par k)"
  using par_less_length [of k] by (simp add: Parent_def sdiv2_pred NthNode_int)

lemma LeftChild_int: "LeftChild l (int k) = NthNode l (int (2 * k + 1))"
  by (simp add: LeftChild_def algebra_simps)

lemma RightChild_int: "RightChild l (int k) = NthNode l (int (2 * k + 2))"
  by (simp add: RightChild_def algebra_simps)

lemma MoveUpItem_ok:
  assumes "nl_idx l" "k < length (nl_heap l)" "heap_up (\<lambda>p c. f_value l p \<le> f_value l c) (nl_heap l) k"
  shows "\<exists>l'. MoveUpItem (int k) l = Some l' \<and> nl_keeps l l' \<and> nl_inv l'"
proof -
  have "child_above l (NthNode l (int c)) (Current l (int k)) = Some ()"
    if "c = 2 * k + 1 \<or> c = 2 * k + 2" for c
    using that assms(2) heap_upD(2) [OF assms(3), of c]
    by (auto simp: child_above_def NthNode_int Current_int deref_f_def)
  from this [of "2 * k + 1"] this [of "2 * k + 2"] have "MoveUpItem (int k) l = MoveUpItem_loop k l"
    by (simp only: MoveUpItem_def LeftChild_int RightChild_int Let_def) simp
  with MoveUpItem_loop_ok [OF assms] show ?thesis by simp
qed

lemma MoveDownItem_ok:
  assumes "nl_idx l" "k < length (nl_heap l)" "heap_down (\<lambda>p c. f_value l p \<le> f_value l c) (nl_heap l) k"
  shows "\<exists>l'. MoveDownItem (int k) l = Some l' \<and> nl_keeps l l' \<and> nl_inv l'"
proof -
  have "MoveDownItem (int k) l = MoveDownItem_loop (length (nl_heap l)) k l"
    using assms(2) heap_downD(2) [OF assms(3)]
    by (cases "k = 0") (simp_all add: MoveDownItem_def Parent_int Current_int deref_f_def)
  with MoveDownItem_loop_ok [OF assms(1) refl assms(3)] show ?thesis by simp
qed

lemma AdjustItemLocation_ok:
  assumes "nl_idx l" "k < length (nl_heap l)" "heap_hole (\<lambda>p c. f_value l p \<le> f_value l c) (nl_heap l) k"
  shows "\<exists>l'. AdjustItemLocation (int k) l = Some l' \<and> nl_keeps l l' \<and> nl_inv l'"
proof (cases "k = 0 \<or> f_value l (nl_heap l ! par k) \<le> f_value l (nl_heap l ! k)")
  case True
  then have "AdjustItemLocation (int k) l = MoveDownItem (int k) l"
    using assms(2) by (auto simp: AdjustItemLocation_def Parent_int Current_int deref_f_def size_nl_def)
  moreover have "heap_down (\<lambda>p c. f_value l p \<le> f_value l c) (nl_heap l) k"
    using assms(3) True by (rule f_order.hole_down)
  ultimately show ?thesis using MoveDownItem_ok assms by simp
next
  case False
  then have "AdjustItemLocation (int k) l = MoveUpItem (int k) l"
    using assms(2) by (simp add: AdjustItemLocation_def Parent_int Current_int deref_f_def size_nl_def)
  moreover have "heap_up (\<lambda>p c. f_value l p \<le> f_value l c) (nl_heap l) k"
    using assms(3) False by (intro f_order.hole_up) auto
  ultimately show ?thesis using MoveUpItem_ok assms by simp
qed

lemma AddNode_ok:
  assumes "nl_inv l" "node \<notin> set (nl_heap l)"
  shows "\<exists>l'. AddNode (Some node) l = Some l' \<and> nl_inv l' \<and> f_value l' = f_value l \<and>
    mset (nl_heap l') = add_mset node (mset (nl_heap l))"
proof -
  let ?n = "length (nl_heap l)"
  let ?l = "set_nodelist_index node (int ?n) (l\<lparr>nl_heap := nl_heap l @ [node]\<rparr>)"
  have "nl_idx ?l"
    using assms by (auto simp: nl_inv_def nl_idx_def nth_append less_Suc_eq)
  moreover have "heap_up (\<lambda>p c. f_value ?l p \<le> f_value ?l c) (nl_heap ?l) ?n"
    using f_order.is_heap_append [OF nl_invD(2) [OF assms(1)]] by simp
  ultimately obtain l' where l': "MoveUpItem (int ?n) ?l = Some l'" "nl_keeps ?l l'" "nl_inv l'"
    using MoveUpItem_ok [of ?l ?n] by auto
  moreover have "AddNode (Some node) l = MoveUpItem (int ?n) ?l"
    by (simp add: AddNode_def size_nl_def Let_def)
  ultimately show ?thesis using nl_keepsD [OF l'(2)] by simp
qed

lemma RemoveItem_ok:
  assumes "distinct (nl_heap l)" "k < length (nl_heap l)"
    and "\<And>i. i < length (nl_heap l) \<Longrightarrow> i \<noteq> k \<Longrightarrow> nodelist_index l (nl_heap l ! i) = int i"
    and "is_heap (\<lambda>p c. f_value l p \<le> f_value l c) (nl_heap l)"
  shows "\<exists>l'. RemoveItem (int k) l = Some l' \<and> nl_inv l' \<and> f_value l' = f_value l \<and>
    mset (nl_heap l) = add_mset (nl_heap l ! k) (mset (nl_heap l'))"
proof -
  let ?xs = "nl_heap l"
  let ?ys = "butlast (?xs[k := last ?xs])"
  let ?l = "set_nodelist_index (last ?xs) (int k) (l\<lparr>nl_heap := ?ys\<rparr>)"
  have len: "length ?ys = length ?xs - 1" by simp
  have ne: "?xs ! i \<noteq> last ?xs" if "i < length ?xs - 1" for i
    using that assms(1,2) by (cases "?xs = []") (auto simp: last_conv_nth nth_eq_iff_index_eq)
  have idx: "nl_idx ?l"
    using assms(2,3) ne by (auto simp: nl_idx_def vec_simps)
  have hole: "heap_hole (\<lambda>p c. f_value ?l p \<le> f_value ?l c) (nl_heap ?l) k"
    using f_order.is_heap_overwrite_last [OF assms(4,2)] by simp
  have m: "mset ?xs = add_mset (?xs ! k) (mset ?ys)"
    using mset_butlast_update_last [OF assms(2)] assms(2) by simp
  have "RemoveItem (int k) l = (if k < length ?ys then AdjustItemLocation (int k) ?l else Some ?l)"
    using assms(2) by (auto simp: RemoveItem_def size_nl_def set_nodelist_index_heap of_nat_diff Let_def)
  moreover have "nl_inv ?l" if "\<not> k < length ?ys"
  proof -
    have "heap_down (\<lambda>p c. f_value ?l p \<le> f_value ?l c) (nl_heap ?l) k"
      using hole that by (auto simp: heap_down_def)
    then have "is_heap (\<lambda>p c. f_value ?l p \<le> f_value ?l c) (nl_heap ?l)"
    proof (rule f_order.down_done)
      fix c assume c: "0 < c" "c < length (nl_heap ?l)" "par c = k"
      then have "k < length ?ys" using par_less [OF c(1)] by simp
      with that show "f_value ?l (nl_heap ?l ! k) \<le> f_value ?l (nl_heap ?l ! c)" by simp
    qed
    with idx show ?thesis by (simp add: nl_inv_def)
  qed
  moreover have "\<exists>l'. AdjustItemLocation (int k) ?l = Some l' \<and> nl_keeps ?l l' \<and> nl_inv l'"
    if "k < length ?ys" using that idx hole by (intro AdjustItemLocation_ok) auto
  ultimately show ?thesis using m
    by (cases "k < length ?ys") (auto simp: nl_keeps_def)
qed

lemma RemoveItem_inv_ok:
  assumes "nl_inv l" "k < length (nl_heap l)"
  shows "\<exists>l'. RemoveItem (int k) l = Some l' \<and> nl_inv l' \<and> f_value l' = f_value l \<and>
    mset (nl_heap l) = add_mset (nl_heap l ! k) (mset (nl_heap l'))"
  using RemoveItem_ok [OF nl_idx_distinct [OF nl_invD(1) [OF assms(1)]] assms(2)]
    nl_invD [OF assms(1)] by (auto simp: nl_idx_def)

lemma InList_iff: "nl_inv l \<Longrightarrow> InList l item \<longleftrightarrow> item \<in> set (nl_heap l)"
  unfolding InList_def Let_def size_nl_def nl_inv_def nl_idx_def in_set_conv_nth
  by (metis nat_int nat_less_iff of_nat_0_le_iff of_nat_less_iff)

lemma FirstNode_least:
  assumes "nl_inv l" "p \<in> set (nl_heap l)"
  shows "\<exists>t. FirstNode l = Some t \<and> t \<in> set (nl_heap l) \<and> f_value l t \<le> f_value l p"
  using assms f_order.is_heap_top [OF nl_invD(2) [OF assms(1)]]
  by (cases "nl_heap l") (fastforce simp: FirstNode_def in_set_conv_nth)+

lemma GetAndRemoveFirstNode_ok:
  assumes "nl_inv l" "nl_heap l \<noteq> []"
  shows "\<exists>t l'. GetAndRemoveFirstNode l = Some (Some t, l') \<and> nl_inv l' \<and> f_value l' = f_value l \<and>
    mset (nl_heap l) = add_mset t (mset (nl_heap l')) \<and> (\<forall>p \<in> set (nl_heap l). f_value l t \<le> f_value l p)"
proof -
  let ?t = "nl_heap l ! 0"
  let ?l = "set_nodelist_index ?t (-1) l"
  have d: "distinct (nl_heap l)" using assms(1) by (intro nl_idx_distinct nl_invD)
  have i: "nodelist_index ?l (nl_heap ?l ! i) = int i" if "i < length (nl_heap ?l)" "i \<noteq> 0" for i
    using that assms nth_eq_iff_index_eq [OF d, of i 0] by (auto simp: nl_inv_def nl_idx_def)
  obtain l' where "RemoveItem (int 0) ?l = Some l'" "nl_inv l'" "f_value l' = f_value l"
    "mset (nl_heap l) = add_mset ?t (mset (nl_heap l'))"
    using RemoveItem_ok [of ?l 0] d i nl_invD(2) [OF assms(1)] assms(2) by auto
  moreover have "f_value l ?t \<le> f_value l p" if "p \<in> set (nl_heap l)" for p
    using FirstNode_least [OF assms(1) that] assms(2) by (simp add: FirstNode_def)
  ultimately show ?thesis using assms(2) by (auto simp: GetAndRemoveFirstNode_def)
qed

lemma heap_hole_changed_f:
  assumes "nl_inv l" "item = nl_heap l ! k" "k < length (nl_heap l)"
    "\<And>p. p \<noteq> item \<Longrightarrow> f p = f_value l p"
  shows "heap_hole (\<lambda>p c. f p \<le> f c) (nl_heap l) k"
proof -
  have d: "distinct (nl_heap l)" using assms(1) by (intro nl_idx_distinct nl_invD)
  have hole: "heap_hole (\<lambda>p c. f_value l p \<le> f_value l c) (nl_heap l) k"
    using f_order.is_heap_imp_hole [OF nl_invD(2) [OF assms(1)]] .
  have f: "f (nl_heap l ! i) = f_value l (nl_heap l ! i)" if "i < length (nl_heap l)" "i \<noteq> k" for i
    using that assms d by (simp add: nth_eq_iff_index_eq)
  have A: "f (nl_heap l ! par i) \<le> f (nl_heap l ! i)"
    if i: "i < length (nl_heap l)" "0 < i" "i \<noteq> k" "par i \<noteq> k" for i
    using heap_holeD1 [OF hole i(2,1,3,4)] f [OF i(1,3)] f [OF par_less_length [OF i(1)] i(4)] by simp
  have B: "f (nl_heap l ! par k) \<le> f (nl_heap l ! i)"
    if i: "i < length (nl_heap l)" "0 < i" "par i = k" "0 < k" for i
  proof -
    have "i \<noteq> k" "par k \<noteq> k" using i par_less [of i] less_imp_neq [OF par_less [of k]] by simp_all
    then show ?thesis
      using heap_holeD2 [OF hole i(2,1,3,4)] f [OF i(1)] f [OF par_less_length [OF assms(3)]] by simp
  qed
  from A B show ?thesis by (simp add: heap_hole_def)
qed

lemma ReplaceItem_ok:
  assumes "nl_inv l" "InList l old_item"
  shows "\<exists>l'. ReplaceItem old_item new_item l = Some l' \<and> nl_inv l' \<and>
    mset (nl_heap l') = mset (nl_heap l) \<and> f_value l' = (f_value l)(old_item := f_value l new_item)"
proof -
  define k where "k = nat (nodelist_index l old_item)"
  have k: "k < length (nl_heap l)" "nl_heap l ! k = old_item" "nodelist_index l old_item = int k"
    using assms(2) by (auto simp: InList_def Let_def k_def size_nl_def)
  let ?l = "l\<lparr>f_value := (f_value l)(old_item := f_value l new_item)\<rparr>"
  have e: "ReplaceItem old_item new_item l = AdjustItemLocation (int k) ?l"
    using k set_nodelist_index_same [of old_item ?l]
    by (simp add: ReplaceItem_def size_nl_def set_nodelist_index_twice Let_def)
  have "heap_hole (\<lambda>p c. f_value ?l p \<le> f_value ?l c) (nl_heap ?l) k"
    using heap_hole_changed_f [OF assms(1) k(2) [symmetric] k(1), of "f_value ?l"] by simp
  then show ?thesis
    using AdjustItemLocation_ok [of ?l k] k nl_invD(1) [OF assms(1)] unfolding e
    by (auto simp: nl_idx_def nl_keeps_def)
qed

lemma CheckHeapConsistency_loop_iff:
  "n < length (nl_heap l) \<or> n = 0 \<Longrightarrow> CheckHeapConsistency_loop n l = Some () \<longleftrightarrow>
   (\<forall>i. 0 < i \<longrightarrow> i \<le> n \<longrightarrow> f_value l (nl_heap l ! par i) \<le> f_value l (nl_heap l ! i))"
proof (induction n)
  case (Suc n)
  have "Current l (int (Suc n)) = Some (nl_heap l ! Suc n)" "Parent l (int (Suc n)) = Some (nl_heap l ! par (Suc n))"
    using Suc.prems by (intro Current_int Parent_int; simp)+
  then show ?case using Suc by (auto simp: deref_f_def le_Suc_eq simp del: of_nat_Suc)
qed simp

text \<open>The debugging check of the code succeeds exactly on the lists that are in heap order.\<close>

lemma CheckHeapConsistency_iff:
  "CheckHeapConsistency l = Some () \<longleftrightarrow> is_heap (\<lambda>p c. f_value l p \<le> f_value l c) (nl_heap l)"
  unfolding CheckHeapConsistency_def is_heap_def
  by (subst CheckHeapConsistency_loop_iff) (auto simp: less_eq_Suc_le Suc_diff_le)

section \<open>The list as a priority queue\<close>

definition take_first_node :: "('p, 'c::linorder) nodelist \<Rightarrow> ('p \<times> ('p, 'c) nodelist) option" where
  "take_first_node l = do {
     (p, l) \<leftarrow> GetAndRemoveFirstNode l;
     t \<leftarrow> p;
     Some (t, l)
   }"

interpretation open_list: pqueue "\<lambda>l. nl_inv l \<and> f_value l = f" "\<lambda>l. mset (nl_heap l)"
    take_first_node "\<lambda>p q. f p \<le> f q" for f :: "'p \<Rightarrow> 'c::linorder"
proof
  fix l assume "nl_inv l \<and> f_value l = f" "mset (nl_heap l) \<noteq> {#}"
  then show "\<exists>t l'. take_first_node l = Some (t, l') \<and> (nl_inv l' \<and> f_value l' = f) \<and>
    mset (nl_heap l) = add_mset t (mset (nl_heap l')) \<and> (\<forall>p \<in># mset (nl_heap l). f t \<le> f p)"
    using GetAndRemoveFirstNode_ok [of l] by (auto simp: take_first_node_def)
qed

section \<open>The list as a queue with keys that can be changed\<close>

text \<open>
  What the A* search relies on: nodes are added with a key, the first node has a least key, and
  after the key of a listed node was overwritten \<open>AdjustPosition\<close> finds the node and puts it right.
\<close>

locale keyed_queue =
  fixes wf :: "'s \<Rightarrow> bool"
    and nodes :: "'s \<Rightarrow> 'p set"
    and key :: "'s \<Rightarrow> 'p \<Rightarrow> 'c::linorder"
    and set_key :: "'p \<Rightarrow> 'c \<Rightarrow> 's \<Rightarrow> 's"
    and add :: "'p \<Rightarrow> 's \<Rightarrow> 's option"
    and take_min :: "'s \<Rightarrow> ('p \<times> 's) option"
    and adjust :: "'p \<Rightarrow> 's \<Rightarrow> (bool \<times> 's) option"
  assumes add_spec: "wf s \<Longrightarrow> p \<notin> nodes s \<Longrightarrow>
      \<exists>s'. add p (set_key p k s) = Some s' \<and> wf s' \<and> nodes s' = insert p (nodes s) \<and> key s' = (key s)(p := k)"
    and take_spec: "wf s \<Longrightarrow> nodes s \<noteq> {} \<Longrightarrow>
      \<exists>t s'. take_min s = Some (t, s') \<and> wf s' \<and> t \<in> nodes s \<and> nodes s' = nodes s - {t} \<and> key s' = key s \<and>
        (\<forall>p \<in> nodes s. key s t \<le> key s p)"
    and adjust_spec: "wf s \<Longrightarrow> p \<in> nodes s \<Longrightarrow>
      \<exists>s'. adjust p (set_key p k s) = Some (True, s') \<and> wf s' \<and> nodes s' = nodes s \<and> key s' = (key s)(p := k)"
begin

text \<open>A node that is given a key below all others is the next one to be taken.\<close>

lemma bring_forward:
  assumes "wf s" "p \<in> nodes s" "\<And>q. q \<in> nodes s \<Longrightarrow> q \<noteq> p \<Longrightarrow> k < key s q"
  shows "\<exists>s' s''. adjust p (set_key p k s) = Some (True, s') \<and> take_min s' = Some (p, s'') \<and>
    nodes s'' = nodes s - {p}"
proof -
  obtain s' where s': "adjust p (set_key p k s) = Some (True, s')" "wf s'" "nodes s' = nodes s"
    "key s' = (key s)(p := k)" using adjust_spec [OF assms(1,2)] by blast
  obtain t s'' where t: "take_min s' = Some (t, s'')" "t \<in> nodes s'" "nodes s'' = nodes s' - {t}"
    "key s' t \<le> key s' p" using take_spec [OF s'(2)] s'(3) assms(2) by blast
  then have "t = p" using assms(3) [of t] s'(3,4) by (auto split: if_splits)
  with s' t show ?thesis by auto
qed

end

definition set_f :: "'p \<Rightarrow> 'c \<Rightarrow> ('p, 'c) nodelist \<Rightarrow> ('p, 'c) nodelist" where
  "set_f p k l = l\<lparr>f_value := (f_value l)(p := k)\<rparr>"

lemma set_f_sel [simp]:
  "nl_heap (set_f p k l) = nl_heap l" "f_value (set_f p k l) = (f_value l)(p := k)"
  "nodelist_index (set_f p k l) = nodelist_index l"
  by (simp_all add: set_f_def)

lemma nl_inv_new_key:
  assumes "nl_inv l" "p \<notin> set (nl_heap l)"
  shows "nl_inv (set_nodelist_index p i (set_f p k l))"
proof -
  have "nl_heap l ! j \<noteq> p" if "j < length (nl_heap l)" for j using assms(2) that by auto
  moreover have "nl_heap l ! par j \<noteq> p" if "j < length (nl_heap l)" for j
    using assms(2) par_less_length [OF that] by auto
  ultimately show ?thesis using assms(1) by (simp add: nl_inv_def nl_idx_def is_heap_def)
qed

lemma AdjustPosition_ok:
  assumes "nl_inv l" "p \<in> set (nl_heap l)"
  shows "\<exists>l'. AdjustPosition p (set_f p k l) = Some (True, l') \<and> nl_inv l' \<and>
    mset (nl_heap l') = mset (nl_heap l) \<and> f_value l' = (f_value l)(p := k)"
proof -
  obtain i where i: "i < length (nl_heap l)" "nl_heap l ! i = p" "nodelist_index l p = int i"
    using assms by (auto simp: in_set_conv_nth nl_inv_def nl_idx_def)
  have "heap_hole (\<lambda>q c. f_value (set_f p k l) q \<le> f_value (set_f p k l) c) (nl_heap (set_f p k l)) i"
    using heap_hole_changed_f [OF assms(1) i(2) [symmetric] i(1), of "(f_value l)(p := k)"] by simp
  then obtain l' where l': "AdjustItemLocation (int i) (set_f p k l) = Some l'"
      "nl_keeps (set_f p k l) l'" "nl_inv l'"
    using AdjustItemLocation_ok [of "set_f p k l" i] i nl_invD(1) [OF assms(1)] by (auto simp: nl_idx_def)
  then show ?thesis
    using i nl_keepsD [OF l'(2)] by (simp add: AdjustPosition_def size_nl_def Let_def)
qed

interpretation nl_queue: keyed_queue nl_inv "\<lambda>l. set (nl_heap l)" f_value set_f
    "\<lambda>p l. AddNode (Some p) (set_nodelist_index p (- 1) l)" take_first_node AdjustPosition
proof
  fix l :: "('p, 'c::linorder) nodelist" and p k
  show "\<exists>l'. AddNode (Some p) (set_nodelist_index p (- 1) (set_f p k l)) = Some l' \<and> nl_inv l' \<and>
      set (nl_heap l') = insert p (set (nl_heap l)) \<and> f_value l' = (f_value l)(p := k)"
    if "nl_inv l" "p \<notin> set (nl_heap l)"
    using AddNode_ok [of "set_nodelist_index p (- 1) (set_f p k l)" p] nl_inv_new_key [OF that] that(2)
    by (auto dest!: arg_cong [where f = set_mset])
  show "\<exists>t l'. take_first_node l = Some (t, l') \<and> nl_inv l' \<and> t \<in> set (nl_heap l) \<and>
      set (nl_heap l') = set (nl_heap l) - {t} \<and> f_value l' = f_value l \<and>
      (\<forall>p \<in> set (nl_heap l). f_value l t \<le> f_value l p)"
    if l: "nl_inv l" "set (nl_heap l) \<noteq> {}"
  proof -
    obtain t l' where t: "GetAndRemoveFirstNode l = Some (Some t, l')" "nl_inv l'" "f_value l' = f_value l"
      "mset (nl_heap l) = add_mset t (mset (nl_heap l'))" "\<forall>p \<in> set (nl_heap l). f_value l t \<le> f_value l p"
      using GetAndRemoveFirstNode_ok [of l] l by auto
    have "set (nl_heap l') = set (nl_heap l) - {t}" "t \<in> set (nl_heap l)"
      using set_remove_mset(1) [OF t(4) nl_idx_distinct [OF nl_invD(1) [OF l(1)]]]
        arg_cong [OF t(4), of set_mset] by auto
    with t show ?thesis by (simp add: take_first_node_def)
  qed
  show "\<exists>l'. AdjustPosition p (set_f p k l) = Some (True, l') \<and> nl_inv l' \<and>
      set (nl_heap l') = set (nl_heap l) \<and> f_value l' = (f_value l)(p := k)"
    if "nl_inv l" "p \<in> set (nl_heap l)"
    using AdjustPosition_ok [OF that, of k] by (auto dest!: mset_eq_setD)
qed

section \<open>Properties\<close>

definition sample_open :: "(nat, nat) nodelist" where
  "sample_open = \<lparr>nl_heap = [1, 2, 3], f_value = (\<lambda>p. [0, 4, 7, 5, 1] ! p),
     nodelist_index = (\<lambda>p. [-1, 0, 1, 2, -1] ! p)\<rparr>"

lemma sample_open_inv: "nl_inv sample_open" "nl_heap sample_open = [1, 2, 3]"
    "f_value sample_open = (\<lambda>p. [0, 4, 7, 5, 1] ! p)"
  by (simp_all add: nl_inv_def nl_idx_def is_heap_def sample_open_def less_Suc_eq par_def
      numeral_2_eq_2 numeral_3_eq_3 all_conj_distrib imp_conjL)

text \<open>
  Adding a node that is not in the list trips none of the sanity checks, and keeps the list a
  heap on \<open>f_value\<close> in which each node's \<open>nodelist_index\<close> is its own cell.
\<close>

theorem nodelist_add_ok:
  assumes "nl_inv l" "node \<notin> set (nl_heap l)"
  shows "\<exists>l'. AddNode (Some node) l = Some l' \<and> nl_inv l' \<and> f_value l' = f_value l \<and>
    mset (nl_heap l') = add_mset node (mset (nl_heap l))"
  using assms by (rule AddNode_ok)

theorem nodelist_add_ok_witness:
  "\<exists>l'. AddNode (Some 4) sample_open = Some l' \<and> nl_inv l' \<and> mset (nl_heap l') = {#4, 1, 2, 3#}"
  using nodelist_add_ok [OF sample_open_inv(1), of 4] by (auto simp: sample_open_inv(2))

text \<open>
  C18. Any node of the list can be removed at its index: the sanity checks hold, the list stays a
  heap, and exactly that node is gone. (The last node takes its place and may have to move up or
  down; \<open>AdjustItemLocation\<close> does either.)
\<close>

theorem nodelist_remove_ok:
  assumes "nl_inv l" "InList l node"
  shows "\<exists>l'. RemoveItem (nodelist_index l node) l = Some l' \<and> nl_inv l' \<and> f_value l' = f_value l \<and>
    mset (nl_heap l) = add_mset node (mset (nl_heap l')) \<and> \<not> InList l' node"
proof -
  have d: "distinct (nl_heap l)" using assms(1) by (intro nl_idx_distinct nl_invD)
  define k where "k = nat (nodelist_index l node)"
  have k: "nodelist_index l node = int k" "k < length (nl_heap l)" "nl_heap l ! k = node"
    using assms(2) by (auto simp: InList_def Let_def size_nl_def k_def)
  obtain l' where "RemoveItem (int k) l = Some l'" "nl_inv l'" "f_value l' = f_value l"
    and m: "mset (nl_heap l) = add_mset node (mset (nl_heap l'))"
    using RemoveItem_inv_ok [OF assms(1) k(2)] k(3) by blast
  moreover have "node \<notin> set (nl_heap l')" using set_remove_mset(1) [OF m d] by simp
  ultimately show ?thesis using k(1) by (auto simp: InList_iff)
qed

theorem nodelist_remove_ok_witness:
  "\<exists>l'. RemoveItem (nodelist_index sample_open 2) sample_open = Some l' \<and> nl_inv l' \<and>
    {#1, 2, 3#} = add_mset 2 (mset (nl_heap l')) \<and> \<not> InList l' 2"
  using nodelist_remove_ok [OF sample_open_inv(1), of 2]
  by (auto simp: sample_open_inv(2) InList_iff [OF sample_open_inv(1)])

text \<open>
  Replacing the content of a listed node by that of another (the A* search does it when it finds
  a cheaper way to a state, but the cost may go either way) leaves a heap with the same nodes.
\<close>

theorem nodelist_replace_ok:
  assumes "nl_inv l" "InList l old_item"
  shows "\<exists>l'. ReplaceItem old_item new_item l = Some l' \<and> nl_inv l' \<and>
    mset (nl_heap l') = mset (nl_heap l) \<and> f_value l' = (f_value l)(old_item := f_value l new_item)"
  using assms by (rule ReplaceItem_ok)

theorem nodelist_replace_ok_witness:
  "\<exists>l'. ReplaceItem 2 4 sample_open = Some l' \<and> nl_inv l' \<and> mset (nl_heap l') = {#1, 2, 3#}"
  using nodelist_replace_ok [OF sample_open_inv(1), of 2 4]
  by (auto simp: sample_open_inv(2) InList_iff [OF sample_open_inv(1)])

text \<open>
  Taking the first node until the list is empty never fails and yields every node once, in
  ascending order of \<open>f_value\<close>.
\<close>

theorem nodelist_drains_sorted:
  assumes "nl_inv l"
  shows "\<exists>ts. drain take_first_node (length (nl_heap l)) l = Some ts \<and>
    mset ts = mset (nl_heap l) \<and> sorted_wrt (\<lambda>p q. f_value l p \<le> f_value l q) ts"
  using open_list.drain_sorted [of l "f_value l"] assms by simp

theorem nodelist_drains_sorted_witness:
  "\<exists>ts. drain take_first_node 3 sample_open = Some ts \<and> mset ts = {#1, 2, 3#} \<and>
    sorted_wrt (\<lambda>p q. [0, 4, 7, 5, 1 :: nat] ! p \<le> [0, 4, 7, 5, 1] ! q) ts"
  using nodelist_drains_sorted [OF sample_open_inv(1)] by (simp add: sample_open_inv(2,3) numeral_3_eq_3)

text \<open>
  \<open>GetAndRemoveFirstNode\<close> clears the index of the node it returns before it removes the node,
  but when the node was the only one \<open>RemoveItem\<close> writes the index 0 back.
\<close>

theorem nodelist_last_node_index_not_cleared:
  "\<exists>l'. GetAndRemoveFirstNode \<lparr>nl_heap = [p], f_value = f, nodelist_index = i\<rparr> = Some (Some p, l') \<and>
     nodelist_index l' p = 0 \<and> nl_heap l' = []"
  by (simp add: GetAndRemoveFirstNode_def RemoveItem_def size_nl_def set_nodelist_index_def)

end
