(* ===== verification/Collection.thy ===== *)
theory Collection
  imports Prelude
begin

text \<open>
  \<open>util/memory/collection.h\<close>: \<open>UniqueCollection\<close>, which owns its objects and keeps at most
  one of each signature, and \<open>Collection\<close>, a plain vector of owned objects. An address is the
  number of the allocation; the memory block hands out a new one for every object and frees all of
  them only in \<open>Clear\<close>. The signature of an object (the members its \<open>SIGNATURE\<close> macro lists,
  which \<open>binary_hash\<close> and \<open>binary_equal\<close> look at) is a parameter. The name of a collection is for
  debug output and left out.
\<close>

section \<open>UniqueCollection\<close>

record 't unique_collection =
  uc_memory :: "'t list"
  uc_collection :: "nat list"

definition empty_uc :: "'t unique_collection" where
  "empty_uc = \<lparr>uc_memory = [], uc_collection = []\<rparr>"

definition uc_object :: "'t unique_collection \<Rightarrow> nat \<Rightarrow> 't" where
  "uc_object c p = uc_memory c ! p"

definition Lookup_Mutable :: "('t \<Rightarrow> 's) \<Rightarrow> 't \<Rightarrow> 't unique_collection \<Rightarrow> nat option" where
  "Lookup_Mutable sig candidate_object c =
     List.find (\<lambda>p. sig (uc_object c p) = sig candidate_object) (uc_collection c)"

text \<open>\<open>collection_.insert(obj)\<close>: an \<open>unordered_set\<close> ignores an element equal to one it has.\<close>

definition set_insert :: "('t \<Rightarrow> 's) \<Rightarrow> nat \<Rightarrow> 't unique_collection \<Rightarrow> 't unique_collection" where
  "set_insert sig obj c =
     (case Lookup_Mutable sig (uc_object c obj) c of
        None \<Rightarrow> c\<lparr>uc_collection := uc_collection c @ [obj]\<rparr>
      | Some _ \<Rightarrow> c)"

definition Insert_Mutable :: "('t \<Rightarrow> 's) \<Rightarrow> 't \<Rightarrow> 't unique_collection \<Rightarrow> nat \<times> 't unique_collection" where
  "Insert_Mutable sig candidate_object c =
     (let obj = length (uc_memory c);
          c = c\<lparr>uc_memory := uc_memory c @ [candidate_object]\<rparr>
      in (obj, set_insert sig obj c))"

definition Store_Mutable :: "('t \<Rightarrow> 's) \<Rightarrow> 't \<Rightarrow> 't unique_collection \<Rightarrow> nat \<times> 't unique_collection" where
  "Store_Mutable sig candidate_object c =
     (case Lookup_Mutable sig candidate_object c of
        Some item \<Rightarrow> (item, c)
      | None \<Rightarrow> Insert_Mutable sig candidate_object c)"

definition Replace :: "('t \<Rightarrow> 's) \<Rightarrow> 't \<Rightarrow> 't \<Rightarrow> 't unique_collection \<Rightarrow> nat option \<times> 't unique_collection" where
  "Replace sig old_object new_object c =
     (case Lookup_Mutable sig old_object c of
        None \<Rightarrow> (None, c)
      | Some location \<Rightarrow>
          let c = c\<lparr>uc_collection := remove1 location (uc_collection c)\<rparr>;
              c = c\<lparr>uc_memory := (uc_memory c)[location := new_object]\<rparr>
          in (Some location, set_insert sig location c))"

definition uc_Clear :: "'t unique_collection \<Rightarrow> 't unique_collection" where
  "uc_Clear c = c\<lparr>uc_collection := [], uc_memory := []\<rparr>"

definition uc_size :: "'t unique_collection \<Rightarrow> nat" where
  "uc_size c = length (uc_collection c)"

text \<open>Writing through a pointer that \<open>Lookup_Mutable\<close> or \<open>Insert_Mutable\<close> returned.\<close>

definition uc_write :: "nat \<Rightarrow> ('t \<Rightarrow> 't) \<Rightarrow> 't unique_collection \<Rightarrow> 't unique_collection" where
  "uc_write p f c = c\<lparr>uc_memory := (uc_memory c)[p := f (uc_memory c ! p)]\<rparr>"

section \<open>Collection\<close>

record 't plain_collection =
  pc_memory :: "'t list"
  pc_collection :: "nat list"

definition pc_Clear :: "'t plain_collection \<Rightarrow> 't plain_collection" where
  "pc_Clear c = c\<lparr>pc_collection := [], pc_memory := []\<rparr>"

definition pc_Store :: "'t \<Rightarrow> 't plain_collection \<Rightarrow> nat \<times> 't plain_collection" where
  "pc_Store candidate_object c =
     (let obj = length (pc_memory c);
          c = c\<lparr>pc_memory := pc_memory c @ [candidate_object]\<rparr>
      in (obj, c\<lparr>pc_collection := pc_collection c @ [obj]\<rparr>))"

definition pc_size :: "'t plain_collection \<Rightarrow> int" where
  "pc_size c = int (length (pc_collection c))"

definition pc_at :: "'t plain_collection \<Rightarrow> int \<Rightarrow> nat option" where
  "pc_at c i = do {
     ASSERT (0 \<le> i \<and> i < pc_size c);
     Some (pc_collection c ! nat i)
   }"

definition DumpToVector :: "'t plain_collection \<Rightarrow> nat list" where
  "DumpToVector c = map (\<lambda>i. pc_collection c ! i) [0..<length (pc_collection c)]"

section \<open>The contract of a store of unique objects\<close>

text \<open>
  What a client such as the A* search relies on: looking up finds the object with the same
  signature, inserting a new object adds exactly that object and moves no other, and writing to an
  object without touching its signature changes no lookup.
\<close>

locale unique_store =
  fixes sig :: "'t \<Rightarrow> 's"
    and wf :: "'c \<Rightarrow> bool"
    and lookup :: "'t \<Rightarrow> 'c \<Rightarrow> 'p option"
    and store :: "'t \<Rightarrow> 'c \<Rightarrow> 'p \<times> 'c"
    and ins :: "'t \<Rightarrow> 'c \<Rightarrow> 'p \<times> 'c"
    and obj :: "'c \<Rightarrow> 'p \<Rightarrow> 't"
    and wr :: "'p \<Rightarrow> ('t \<Rightarrow> 't) \<Rightarrow> 'c \<Rightarrow> 'c"
  assumes lookup_sig: "wf c \<Longrightarrow> lookup x c = Some p \<Longrightarrow> sig (obj c p) = sig x"
    and lookup_cong: "wf c \<Longrightarrow> sig x = sig y \<Longrightarrow> lookup x c = lookup y c"
    and store_def: "store x c = (case lookup x c of Some p \<Rightarrow> (p, c) | None \<Rightarrow> ins x c)"
    and ins_wf: "wf c \<Longrightarrow> lookup x c = None \<Longrightarrow> wf (snd (ins x c))"
    and ins_obj: "wf c \<Longrightarrow> lookup x c = None \<Longrightarrow> obj (snd (ins x c)) (fst (ins x c)) = x"
    and ins_lookup: "wf c \<Longrightarrow> lookup x c = None \<Longrightarrow>
      lookup y (snd (ins x c)) = (if sig y = sig x then Some (fst (ins x c)) else lookup y c)"
    and ins_keeps: "wf c \<Longrightarrow> lookup x c = None \<Longrightarrow> lookup y c = Some q \<Longrightarrow>
      obj (snd (ins x c)) q = obj c q"
    and wr_wf: "wf c \<Longrightarrow> lookup y c = Some p \<Longrightarrow> sig (f (obj c p)) = sig (obj c p) \<Longrightarrow> wf (wr p f c)"
    and wr_lookup: "wf c \<Longrightarrow> lookup y c = Some p \<Longrightarrow> sig (f (obj c p)) = sig (obj c p) \<Longrightarrow>
      lookup x (wr p f c) = lookup x c"
    and wr_obj: "wf c \<Longrightarrow> lookup y c = Some p \<Longrightarrow> lookup x c = Some q \<Longrightarrow>
      obj (wr p f c) q = (if q = p then f (obj c p) else obj c q)"
begin

lemma store_lookup:
  assumes "wf c" "store x c = (p, c')"
  shows "wf c'" "lookup y c' = (if sig y = sig x then Some p else lookup y c)" "sig (obj c' p) = sig x"
proof -
  have "wf c' \<and> lookup y c' = (if sig y = sig x then Some p else lookup y c) \<and> sig (obj c' p) = sig x"
  proof (cases "lookup x c")
    case None
    then show ?thesis
      using assms ins_wf [of c x] ins_lookup [of c x y] ins_obj [of c x] by (simp add: store_def)
  next
    case (Some q)
    then show ?thesis
      using assms lookup_sig [of c x q] lookup_cong [of c y x] by (auto simp: store_def)
  qed
  then show "wf c'" "lookup y c' = (if sig y = sig x then Some p else lookup y c)" "sig (obj c' p) = sig x"
    by auto
qed

lemma store_again:
  assumes "wf c" "store x c = (p, c')" "sig y = sig x"
  shows "store y c' = (p, c')"
  using store_lookup(2) [OF assms(1,2), of y] assms(3) by (simp add: store_def)

lemma store_keeps:
  assumes "wf c" "store x c = (p, c')" "lookup y c = Some q"
  shows "obj c' q = obj c q" "lookup y c' = Some q"
proof -
  have "obj c' q = obj c q \<and> lookup y c' = Some q"
  proof (cases "lookup x c")
    case None
    then have "sig y \<noteq> sig x" using lookup_cong [OF assms(1), of y x] assms(3) by auto
    then show ?thesis
      using assms None ins_keeps [of c x y q] ins_lookup [of c x y] by (simp add: store_def)
  next
    case (Some r)
    then show ?thesis using assms by (simp add: store_def)
  qed
  then show "obj c' q = obj c q" "lookup y c' = Some q" by auto
qed

end

section \<open>UniqueCollection keeps the contract\<close>

definition uc_inv :: "('t \<Rightarrow> 's) \<Rightarrow> 't unique_collection \<Rightarrow> bool" where
  "uc_inv sig c \<longleftrightarrow> distinct (map (\<lambda>p. sig (uc_object c p)) (uc_collection c)) \<and>
     (\<forall>p \<in> set (uc_collection c). p < length (uc_memory c))"

lemma uc_invD:
  assumes "uc_inv sig c"
  shows "distinct (uc_collection c)" "p \<in> set (uc_collection c) \<Longrightarrow> p < length (uc_memory c)"
    "p \<in> set (uc_collection c) \<Longrightarrow> q \<in> set (uc_collection c) \<Longrightarrow>
     sig (uc_object c p) = sig (uc_object c q) \<Longrightarrow> p = q"
  using assms by (auto simp: uc_inv_def distinct_map inj_on_def)

lemma Lookup_Some_iff:
  assumes "uc_inv sig c"
  shows "Lookup_Mutable sig x c = Some p \<longleftrightarrow> p \<in> set (uc_collection c) \<and> sig (uc_object c p) = sig x"
proof
  assume "Lookup_Mutable sig x c = Some p"
  then show "p \<in> set (uc_collection c) \<and> sig (uc_object c p) = sig x"
    by (auto simp: Lookup_Mutable_def find_Some_iff in_set_conv_nth)
next
  assume p: "p \<in> set (uc_collection c) \<and> sig (uc_object c p) = sig x"
  then obtain q where q: "Lookup_Mutable sig x c = Some q"
    by (cases "Lookup_Mutable sig x c") (auto simp: Lookup_Mutable_def find_None_iff)
  then have "q \<in> set (uc_collection c)" "sig (uc_object c q) = sig x"
    by (auto simp: Lookup_Mutable_def find_Some_iff in_set_conv_nth)
  with p q uc_invD(3) [OF assms] show "Lookup_Mutable sig x c = Some p" by metis
qed

lemma Lookup_None_iff:
  "Lookup_Mutable sig x c = None \<longleftrightarrow> (\<forall>p \<in> set (uc_collection c). sig (uc_object c p) \<noteq> sig x)"
  by (auto simp: Lookup_Mutable_def find_None_iff)

lemma Lookup_cong: "sig x = sig y \<Longrightarrow> Lookup_Mutable sig x c = Lookup_Mutable sig y c"
  by (simp add: Lookup_Mutable_def)

lemma Insert_new:
  assumes "uc_inv sig c" "Lookup_Mutable sig x c = None"
  shows "Insert_Mutable sig x c = (length (uc_memory c),
    \<lparr>uc_memory = uc_memory c @ [x], uc_collection = uc_collection c @ [length (uc_memory c)]\<rparr>)"
proof -
  let ?c = "c\<lparr>uc_memory := uc_memory c @ [x]\<rparr>"
  have "uc_object ?c p = uc_object c p" if "p \<in> set (uc_collection c)" for p
    using uc_invD(2) [OF assms(1) that] by (simp add: uc_object_def nth_append)
  then have "Lookup_Mutable sig x ?c = None"
    using assms(2) by (simp add: Lookup_None_iff)
  then show ?thesis
    by (cases c) (simp add: Insert_Mutable_def set_insert_def uc_object_def Let_def)
qed

lemma uc_object_append:
  assumes "uc_inv sig c" "p \<in> set (uc_collection c)"
  shows "uc_object \<lparr>uc_memory = uc_memory c @ [x], uc_collection = l\<rparr> p = uc_object c p"
  using uc_invD(2) [OF assms] by (simp add: uc_object_def nth_append)

lemma Insert_inv:
  assumes "uc_inv sig c" "Lookup_Mutable sig x c = None"
  shows "uc_inv sig (snd (Insert_Mutable sig x c))"
proof -
  have "\<forall>p \<in> set (uc_collection c). p < Suc (length (uc_memory c))"
    using uc_invD(2) [OF assms(1)] less_SucI by blast
  with assms uc_object_append [OF assms(1)] show ?thesis
    by (auto simp: Insert_new uc_inv_def Lookup_None_iff uc_object_def nth_append distinct_map inj_on_def)
qed

lemma Insert_lookup:
  assumes "uc_inv sig c" "Lookup_Mutable sig x c = None"
  shows "Lookup_Mutable sig y (snd (Insert_Mutable sig x c)) =
    (if sig y = sig x then Some (fst (Insert_Mutable sig x c)) else Lookup_Mutable sig y c)"
proof -
  let ?c = "snd (Insert_Mutable sig x c)"
  have o: "uc_object ?c p = uc_object c p" if "p \<in> set (uc_collection c)" for p
    using uc_object_append [OF assms(1) that] by (simp add: Insert_new [OF assms])
  have n: "uc_object ?c (length (uc_memory c)) = x"
    by (simp add: Insert_new [OF assms] uc_object_def)
  show ?thesis
  proof (cases "sig y = sig x")
    case True
    then have "Lookup_Mutable sig y ?c = Some (length (uc_memory c))"
      unfolding Lookup_Some_iff [OF Insert_inv [OF assms]] using n by (simp add: Insert_new [OF assms])
    then show ?thesis using True by (simp add: Insert_new [OF assms])
  next
    case False
    have "Lookup_Mutable sig y ?c = Some p \<longleftrightarrow> Lookup_Mutable sig y c = Some p" for p
      unfolding Lookup_Some_iff [OF Insert_inv [OF assms]] Lookup_Some_iff [OF assms(1)]
      using False n o by (auto simp: Insert_new [OF assms])
    then show ?thesis using False by (metis not_None_eq)
  qed
qed

lemma uc_write_object:
  assumes "uc_inv sig c" "p \<in> set (uc_collection c)"
  shows "uc_object (uc_write p f c) q = (if q = p then f (uc_object c p) else uc_object c q)"
  using uc_invD(2) [OF assms] by (simp add: uc_write_def uc_object_def)

lemma uc_write_sel [simp]:
  "uc_collection (uc_write p f c) = uc_collection c"
  "length (uc_memory (uc_write p f c)) = length (uc_memory c)"
  by (simp_all add: uc_write_def)

lemma uc_write_inv:
  assumes "uc_inv sig c" "p \<in> set (uc_collection c)" "sig (f (uc_object c p)) = sig (uc_object c p)"
  shows "uc_inv sig (uc_write p f c)"
proof -
  have "map (\<lambda>q. sig (uc_object (uc_write p f c) q)) (uc_collection c) =
      map (\<lambda>q. sig (uc_object c q)) (uc_collection c)"
    using assms(3) by (simp add: uc_write_object [OF assms(1,2)])
  then show ?thesis using assms(1) by (auto simp only: uc_inv_def uc_write_sel)
qed

lemma uc_write_lookup:
  assumes "uc_inv sig c" "p \<in> set (uc_collection c)" "sig (f (uc_object c p)) = sig (uc_object c p)"
  shows "Lookup_Mutable sig x (uc_write p f c) = Lookup_Mutable sig x c"
proof -
  have "(\<lambda>q. sig (uc_object (uc_write p f c) q) = sig x) = (\<lambda>q. sig (uc_object c q) = sig x)"
    using assms(3) by (auto simp: uc_write_object [OF assms(1,2)] fun_eq_iff)
  then show ?thesis by (simp add: Lookup_Mutable_def)
qed

interpretation ucoll: unique_store sig "uc_inv sig" "Lookup_Mutable sig" "Store_Mutable sig"
    "Insert_Mutable sig" uc_object uc_write for sig :: "'t \<Rightarrow> 's"
proof
  fix c :: "'t unique_collection" and x y p q f
  show "uc_inv sig c \<Longrightarrow> Lookup_Mutable sig x c = Some p \<Longrightarrow> sig (uc_object c p) = sig x"
    by (simp add: Lookup_Some_iff)
  show "uc_inv sig c \<Longrightarrow> sig x = sig y \<Longrightarrow> Lookup_Mutable sig x c = Lookup_Mutable sig y c"
    by (rule Lookup_cong)
  show "Store_Mutable sig x c =
      (case Lookup_Mutable sig x c of Some p \<Rightarrow> (p, c) | None \<Rightarrow> Insert_Mutable sig x c)"
    by (simp add: Store_Mutable_def split: option.split)
  show "uc_inv sig c \<Longrightarrow> Lookup_Mutable sig x c = None \<Longrightarrow> uc_inv sig (snd (Insert_Mutable sig x c))"
    by (rule Insert_inv)
  show "uc_inv sig c \<Longrightarrow> Lookup_Mutable sig x c = None \<Longrightarrow>
      uc_object (snd (Insert_Mutable sig x c)) (fst (Insert_Mutable sig x c)) = x"
    by (simp add: Insert_new uc_object_def)
  show "uc_inv sig c \<Longrightarrow> Lookup_Mutable sig x c = None \<Longrightarrow>
      Lookup_Mutable sig y (snd (Insert_Mutable sig x c)) =
      (if sig y = sig x then Some (fst (Insert_Mutable sig x c)) else Lookup_Mutable sig y c)"
    by (rule Insert_lookup)
  show "uc_inv sig c \<Longrightarrow> Lookup_Mutable sig x c = None \<Longrightarrow> Lookup_Mutable sig y c = Some q \<Longrightarrow>
      uc_object (snd (Insert_Mutable sig x c)) q = uc_object c q"
    by (simp add: Insert_new Lookup_Some_iff uc_object_append)
  show "uc_inv sig c \<Longrightarrow> Lookup_Mutable sig y c = Some p \<Longrightarrow>
      sig (f (uc_object c p)) = sig (uc_object c p) \<Longrightarrow> uc_inv sig (uc_write p f c)"
    by (simp add: Lookup_Some_iff uc_write_inv)
  show "uc_inv sig c \<Longrightarrow> Lookup_Mutable sig y c = Some p \<Longrightarrow>
      sig (f (uc_object c p)) = sig (uc_object c p) \<Longrightarrow>
      Lookup_Mutable sig x (uc_write p f c) = Lookup_Mutable sig x c"
    by (simp add: Lookup_Some_iff uc_write_lookup)
  show "uc_inv sig c \<Longrightarrow> Lookup_Mutable sig y c = Some p \<Longrightarrow> Lookup_Mutable sig x c = Some q \<Longrightarrow>
      uc_object (uc_write p f c) q = (if q = p then f (uc_object c p) else uc_object c q)"
    by (simp add: Lookup_Some_iff uc_write_object)
qed

lemma empty_uc_inv: "uc_inv sig empty_uc"
  by (simp add: uc_inv_def empty_uc_def)

end
