(* ===== verification/AStar.thy ===== *)
theory AStar
  imports NodeList Collection
begin

text \<open>
  \<open>util/algorithm/astar.h\<close>: the A* search over the open list of \<open>NodeList\<close> and the node storage
  of \<open>UniqueCollection\<close>. A \<open>tAStarNode\<close> is an object of the storage; its members \<open>f_value\<close> and
  \<open>nodelist_index\<close> live in the stores of the open list. The virtual functions that a user of the
  class overrides are the fields of the record \<open>search_problem\<close>. The cost type is any ordered
  integral domain: the arithmetic of \<open>double\<close> costs is taken as exact.
\<close>

record ('e, 'c) tAStarEdge =
  parent :: "nat option"
  edge :: 'e
  edge_cost :: 'c
  cumulative_cost :: 'c

record ('n, 'e, 'c) tAStarNode =
  node :: 'n
  parent_link :: "('e, 'c) tAStarEdge list"
  twoway_connector :: bool

record ('n, 'e, 'c) tExpandCandidate =
  cand_edge :: 'e
  cand_edge_cost :: 'c
  newnode :: 'n

record ('n, 'e, 'c) tPlanStep =
  step_edge :: "'e option"
  earlier_cost :: 'c
  step_edge_cost :: 'c
  step_node :: 'n

record ('n, 'e, 'c) search_problem =
  ExpandNode :: "'n \<Rightarrow> 'n option \<Rightarrow> 'e option \<Rightarrow> 'c \<Rightarrow> ('n, 'e, 'c) tExpandCandidate list"
  ExpandNode_Reverse :: "'n \<Rightarrow> 'n option \<Rightarrow> 'e option \<Rightarrow> 'c \<Rightarrow> ('n, 'e, 'c) tExpandCandidate list"
  IsTarget :: "'n \<Rightarrow> 'c \<Rightarrow> bool"
  EstimateRemainingCost :: "'n \<Rightarrow> 'c"
  EstimateRemainingCost_Reverse :: "'n \<Rightarrow> 'c"
  StrongDuplicate :: "'n \<Rightarrow> 'n \<Rightarrow> bool"

record ('n, 'e, 'c) astar =
  nodestorage :: "('n, 'e, 'c) tAStarNode unique_collection"
  src :: "'n list"
  dest :: "'n list"
  open_nodes :: "(nat, 'c) nodelist"
  closed :: "nat list"
  searching :: bool
  is_oneway_search :: bool
  is_reverse_search :: bool
  success_node :: "nat option"
  best_cost :: 'c

section \<open>Operations\<close>

text \<open>A constructed object. (\<open>best_cost_\<close> is not initialized by the code before \<open>Search\<close>.)\<close>

definition AStar :: "'c \<Rightarrow> ('n, 'e, 'c) astar" where
  "AStar uninitialized = \<lparr>nodestorage = empty_uc, src = [], dest = [],
     open_nodes = \<lparr>nl_heap = [], f_value = (\<lambda>_. uninitialized), nodelist_index = (\<lambda>_. - 1)\<rparr>,
     closed = [], searching = False, is_oneway_search = True, is_reverse_search = False,
     success_node = None, best_cost = uninitialized\<rparr>"

definition SetOneWaySearch :: "('n, 'e, 'c) astar \<Rightarrow> ('n, 'e, 'c) astar" where
  "SetOneWaySearch s = s\<lparr>is_oneway_search := True, is_reverse_search := False\<rparr>"

definition SetForwardSearch :: "('n, 'e, 'c) astar \<Rightarrow> ('n, 'e, 'c) astar" where
  "SetForwardSearch s = s\<lparr>is_oneway_search := False, is_reverse_search := False\<rparr>"

definition SetReverseSearch :: "('n, 'e, 'c) astar \<Rightarrow> ('n, 'e, 'c) astar" where
  "SetReverseSearch s = s\<lparr>is_oneway_search := False, is_reverse_search := True\<rparr>"

definition CumulativeCost :: "('n, 'e, 'c::linordered_idom) tAStarNode \<Rightarrow> 'c" where
  "CumulativeCost n = (if parent_link n = [] then 0 else cumulative_cost (parent_link n ! 0))"

definition StepCumulativeCost :: "('n, 'e, 'c::linordered_idom) tPlanStep \<Rightarrow> 'c" where
  "StepCumulativeCost t = earlier_cost t + step_edge_cost t"

definition obj_at :: "('n, 'e, 'c) astar \<Rightarrow> nat \<Rightarrow> ('n, 'e, 'c) tAStarNode" where
  "obj_at s p = uc_object (nodestorage s) p"

text \<open>\<open>parent_link[0]\<close>; reading it from an empty vector is undefined.\<close>

definition primary_link :: "('n, 'e, 'c) tAStarNode \<Rightarrow> ('e, 'c) tAStarEdge option" where
  "primary_link n = (if parent_link n = [] then None else Some (parent_link n ! 0))"

definition write_node ::
    "nat \<Rightarrow> (('n, 'e, 'c) tAStarNode \<Rightarrow> ('n, 'e, 'c) tAStarNode) \<Rightarrow> ('n, 'e, 'c) astar \<Rightarrow> ('n, 'e, 'c) astar" where
  "write_node p f s = s\<lparr>nodestorage := uc_write p f (nodestorage s)\<rparr>"

definition set_f_value :: "nat \<Rightarrow> 'c \<Rightarrow> ('n, 'e, 'c) astar \<Rightarrow> ('n, 'e, 'c) astar" where
  "set_f_value p f s = s\<lparr>open_nodes := set_f p f (open_nodes s)\<rparr>"

text \<open>\<open>ASSERT(open_.AdjustPosition(dup))\<close>\<close>

definition readjust :: "nat \<Rightarrow> ('n, 'e, 'c::linorder) astar \<Rightarrow> ('n, 'e, 'c) astar option" where
  "readjust p s = do {
     (found, l) \<leftarrow> AdjustPosition p (open_nodes s);
     ASSERT found;
     Some (s\<lparr>open_nodes := l\<rparr>)
   }"

text \<open>A new object is a copy of \<open>newnode\<close>, whose \<open>nodelist_index\<close> is still the initial \<open>-1\<close>.\<close>

definition AddNewNode ::
    "('n, 'e, 'c::linorder) tAStarNode \<Rightarrow> 'c \<Rightarrow> ('n, 'e, 'c) astar \<Rightarrow> ('n, 'e, 'c) astar option" where
  "AddNewNode nn f s = do {
     let (new_entry, st) = Insert_Mutable node nn (nodestorage s);
     let l = set_nodelist_index new_entry (- 1) (open_nodes (set_f_value new_entry f s));
     l \<leftarrow> AddNode (Some new_entry) l;
     Some (s\<lparr>nodestorage := st, open_nodes := l\<rparr>)
   }"

definition RegisterNode ::
    "('n, 'e, 'c::linordered_idom) search_problem \<Rightarrow> ('n, 'e, 'c) tAStarNode \<Rightarrow> 'c \<Rightarrow>
     ('n, 'e, 'c) astar \<Rightarrow> ('n, 'e, 'c) astar option" where
  "RegisterNode P nn f s = do {
     ASSERT (length (parent_link nn) \<le> 1);
     case Lookup_Mutable node nn (nodestorage s) of
       None \<Rightarrow> AddNewNode nn f s
     | Some dup \<Rightarrow>
         if StrongDuplicate P (node nn) (node (obj_at s dup)) then do {
           ASSERT (length (parent_link nn) = 1);
           if CumulativeCost nn < CumulativeCost (obj_at s dup) then do {
             ASSERT (0 < length (parent_link (obj_at s dup)));
             link \<leftarrow> primary_link nn;
             let s = write_node dup (\<lambda>d. d\<lparr>parent_link := (parent_link d)[0 := link],
                       twoway_connector := twoway_connector nn\<rparr>) s;
             readjust dup (set_f_value dup f s)
           } else Some s
         } else do {
           ASSERT (\<not> twoway_connector nn);
           link \<leftarrow> primary_link nn;
           if CumulativeCost nn < CumulativeCost (obj_at s dup) then do {
             ASSERT (0 < length (parent_link (obj_at s dup)));
             let s = write_node dup (\<lambda>d. d\<lparr>parent_link :=
                       (parent_link d @ [parent_link d ! 0])[0 := link]\<rparr>) s;
             readjust dup (set_f_value dup f s)
           } else Some (write_node dup (\<lambda>d. d\<lparr>parent_link := parent_link d @ [link]\<rparr>) s)
         }
   }"

definition AddInitialNode ::
    "('n, 'e, 'c::linordered_idom) search_problem \<Rightarrow> 'n \<Rightarrow> ('n, 'e, 'c) astar \<Rightarrow> ('n, 'e, 'c) astar option" where
  "AddInitialNode P initial s = do {
     ASSERT (closed s = []);
     s \<leftarrow> RegisterNode P \<lparr>node = initial, parent_link = [], twoway_connector = False\<rparr> 0 s;
     Some (s\<lparr>searching := True\<rparr>)
   }"

definition AddSrcNode ::
    "('n, 'e, 'c::linordered_idom) search_problem \<Rightarrow> 'n \<Rightarrow> ('n, 'e, 'c) astar \<Rightarrow> ('n, 'e, 'c) astar option" where
  "AddSrcNode P s0 s = AddInitialNode P s0 (s\<lparr>src := src s @ [s0]\<rparr>)"

definition AddDestNode :: "'n \<Rightarrow> ('n, 'e, 'c) astar \<Rightarrow> ('n, 'e, 'c) astar" where
  "AddDestNode d s = s\<lparr>dest := dest s @ [d]\<rparr>"

definition NumOpenNodes :: "('n, 'e, 'c) astar \<Rightarrow> int" where
  "NumOpenNodes s = size_nl (open_nodes s)"

definition NumClosedNodes :: "('n, 'e, 'c) astar \<Rightarrow> int" where
  "NumClosedNodes s = int (length (closed s))"

definition FirstOpenNode :: "('n, 'e, 'c) astar \<Rightarrow> nat option" where
  "FirstOpenNode s = FirstNode (open_nodes s)"

definition MoveFirstOpenNodeToClosedList ::
    "('n, 'e, 'c::linorder) astar \<Rightarrow> ('n, 'e, 'c) astar option" where
  "MoveFirstOpenNodeToClosedList s = do {
     (current, l) \<leftarrow> GetAndRemoveFirstNode (open_nodes s);
     p \<leftarrow> current;
     Some (s\<lparr>open_nodes := l, closed := closed s @ [p]\<rparr>)
   }"

definition FindInClosedList :: "('n, 'e, 'c) tAStarNode \<Rightarrow> ('n, 'e, 'c) astar \<Rightarrow> nat option" where
  "FindInClosedList n s =
     (case Lookup_Mutable node n (nodestorage s) of
        None \<Rightarrow> None
      | Some dup \<Rightarrow> if InList (open_nodes s) dup then None else Some dup)"

section \<open>Tracing a plan\<close>

fun ReverseVector_loop :: "nat \<Rightarrow> 'a list \<Rightarrow> 'a list" where
  "ReverseVector_loop 0 v = v"
| "ReverseVector_loop (Suc i) v = ReverseVector_loop i (list_swap v i (length v - 1 - i))"

definition ReverseVector :: "'a list \<Rightarrow> 'a list" where
  "ReverseVector v = ReverseVector_loop (length v div 2) v"

text \<open>The steps in reverse; the loop follows the primary links until it meets a root.\<close>

partial_function (option) TracePlan_loop ::
    "('n, 'e, 'c::linordered_idom) astar \<Rightarrow> nat option \<Rightarrow> ('n, 'e, 'c) tPlanStep list \<Rightarrow>
     ('n, 'e, 'c) tPlanStep list option" where
  "TracePlan_loop s p result =
     (case p of
        None \<Rightarrow> Some result
      | Some q \<Rightarrow>
          if parent_link (obj_at s q) = [] then
            Some (result @ [\<lparr>step_edge = None, earlier_cost = 0, step_edge_cost = 0, step_node = node (obj_at s q)\<rparr>])
          else
            let e = parent_link (obj_at s q) ! 0 in
            (case parent e of
               None \<Rightarrow> None
             | Some r \<Rightarrow>
                 TracePlan_loop s (parent e)
                   (result @ [\<lparr>step_edge = Some (edge e), earlier_cost = CumulativeCost (obj_at s r),
                      step_edge_cost = edge_cost e, step_node = node (obj_at s q)\<rparr>])))"

definition TracePlanFromNode ::
    "('n, 'e, 'c::linordered_idom) astar \<Rightarrow> nat option \<Rightarrow> ('n, 'e, 'c) tPlanStep list option" where
  "TracePlanFromNode s final_node = map_option ReverseVector (TracePlan_loop s final_node [])"

definition TracePlanFromExpansionCandidate ::
    "('n, 'e, 'c::linordered_idom) astar \<Rightarrow> ('n, 'e, 'c) tPlanStep list option" where
  "TracePlanFromExpansionCandidate s = do {
     ASSERT (closed s \<noteq> []);
     TracePlanFromNode s (Some (last (closed s)))
   }"

section \<open>The search\<close>

definition RegisterCandidate ::
    "('n, 'e, 'c::linordered_idom) search_problem \<Rightarrow> nat \<Rightarrow> ('n, 'e, 'c) tExpandCandidate \<Rightarrow>
     ('n, 'e, 'c) astar \<Rightarrow> ('n, 'e, 'c) astar option" where
  "RegisterCandidate P current c s = do {
     ASSERT (0 \<le> cand_edge_cost c);
     let cost = CumulativeCost (obj_at s current) + cand_edge_cost c;
     let e = \<lparr>parent = Some current, edge = cand_edge c, edge_cost = cand_edge_cost c, cumulative_cost = cost\<rparr>;
     let n = \<lparr>node = newnode c, parent_link = [e], twoway_connector = False\<rparr>;
     let f = (if is_reverse_search s then cost + EstimateRemainingCost_Reverse P (newnode c)
              else cost + EstimateRemainingCost P (newnode c));
     s \<leftarrow> RegisterNode P n f s;
     if is_oneway_search s \<and> IsTarget P (newnode c) cost \<and> (best_cost s < 0 \<or> cost < best_cost s)
     then Some (s\<lparr>best_cost := cost\<rparr>) else Some s
   }"

fun RegisterCandidates ::
    "('n, 'e, 'c::linordered_idom) search_problem \<Rightarrow> nat \<Rightarrow> ('n, 'e, 'c) tExpandCandidate list \<Rightarrow>
     ('n, 'e, 'c) astar \<Rightarrow> ('n, 'e, 'c) astar option" where
  "RegisterCandidates P current [] s = Some s"
| "RegisterCandidates P current (c # cs) s = do {
     s \<leftarrow> RegisterCandidate P current c s;
     RegisterCandidates P current cs s
   }"

definition Expand ::
    "('n, 'e, 'c::linordered_idom) search_problem \<Rightarrow> nat \<Rightarrow> ('n, 'e, 'c) astar \<Rightarrow>
     ('n, 'e, 'c) tExpandCandidate list" where
  "Expand P current s =
     (let cur = obj_at s current;
          (prev_node, prev_edge) =
            (case primary_link cur of
               None \<Rightarrow> (None, None)
             | Some e \<Rightarrow> (case parent e of
                 None \<Rightarrow> (None, None)
               | Some q \<Rightarrow> (Some (node (obj_at s q)), Some (edge e))))
      in if is_reverse_search s
         then ExpandNode_Reverse P (node cur) prev_node prev_edge (CumulativeCost cur)
         else ExpandNode P (node cur) prev_node prev_edge (CumulativeCost cur))"

definition SearchOneStep ::
    "('n, 'e, 'c::linordered_idom) search_problem \<Rightarrow> ('n, 'e, 'c) astar \<Rightarrow> ('n, 'e, 'c) astar option" where
  "SearchOneStep P s =
     (if \<not> searching s then Some s
      else case FirstNode (open_nodes s) of
        None \<Rightarrow> Some (s\<lparr>searching := False, success_node := None\<rparr>)
      | Some current \<Rightarrow> do {
          ASSERT (\<not> twoway_connector (obj_at s current));
          s \<leftarrow> MoveFirstOpenNodeToClosedList s;
          if is_oneway_search s \<and> IsTarget P (node (obj_at s current)) (CumulativeCost (obj_at s current))
          then Some (s\<lparr>searching := False, success_node := Some current\<rparr>)
          else RegisterCandidates P current (Expand P current s) s
        })"

partial_function (option) Search_loop ::
    "('n, 'e, 'c::linordered_idom) search_problem \<Rightarrow> ('n, 'e, 'c) astar \<Rightarrow> ('n, 'e, 'c) astar option" where
  "Search_loop P s = (if searching s then do { s \<leftarrow> SearchOneStep P s; Search_loop P s } else Some s)"

definition Search ::
    "('n, 'e, 'c::linordered_idom) search_problem \<Rightarrow> ('n, 'e, 'c) astar \<Rightarrow>
     ('c \<times> ('n, 'e, 'c) tPlanStep list \<times> ('n, 'e, 'c) astar) option" where
  "Search P s = do {
     let s = s\<lparr>searching := True, success_node := None, best_cost := - 1\<rparr>;
     ASSERT (closed s = []);
     s \<leftarrow> Search_loop P s;
     case success_node s of
       Some t \<Rightarrow> do {
         result \<leftarrow> TracePlanFromNode s (Some t);
         let s = s\<lparr>best_cost := CumulativeCost (obj_at s t)\<rparr>;
         Some (best_cost s, result, s)
       }
     | None \<Rightarrow> do {
         let s = s\<lparr>best_cost := - 1\<rparr>;
         Some (best_cost s, [], s)
       }
   }"

end
