(* ===== verification/AStar_Optimal.thy ===== *)
theory AStar_Optimal
  imports AStar
begin

text \<open>
  The A* search of \<open>AStar\<close> finds cheapest plans. The proof goes through an abstract view of the
  search state (the nodes in the order they were stored, the primary link and the \<open>f_value\<close> of
  each, the set of open and the list of closed ones), on which registering a node is a step
  relation and the invariant of the search is stated; the operations of the code are shown to
  refine it.
\<close>

section \<open>Search problems on graphs\<close>

definition succs :: "('n, 'e, 'c::linordered_idom) search_problem \<Rightarrow> 'n \<Rightarrow> ('n, 'e, 'c) tExpandCandidate list" where
  "succs P n = ExpandNode P n None None 0"

text \<open>
  The problems for which \<open>astar.h\<close> promises a cheapest plan: expansion and target test look at the
  node only, no edge has a negative cost, the estimate of the remaining cost is consistent (the
  code aborts when it is not: a better way to a closed node fails the assertion) and zero at
  targets, and the initial nodes have no weak duplicates.
\<close>

definition graph_problem :: "('n, 'e, 'c::linordered_idom) search_problem \<Rightarrow> 'n set \<Rightarrow> bool" where
  "graph_problem P S \<longleftrightarrow>
     (\<forall>n pn pe g. ExpandNode P n pn pe g = succs P n) \<and>
     (\<forall>n g. IsTarget P n g = IsTarget P n 0) \<and>
     (\<forall>n. \<forall>c \<in> set (succs P n). 0 \<le> cand_edge_cost c \<and>
        EstimateRemainingCost P n \<le> cand_edge_cost c + EstimateRemainingCost P (newnode c)) \<and>
     (\<forall>n. 0 \<le> EstimateRemainingCost P n \<and> (IsTarget P n 0 \<longrightarrow> EstimateRemainingCost P n = 0)) \<and>
     (\<forall>n. \<forall>m \<in> S. StrongDuplicate P n m)"

inductive path_to :: "('n, 'e, 'c::linordered_idom) search_problem \<Rightarrow> 'n set \<Rightarrow> 'n \<Rightarrow> 'c \<Rightarrow> bool"
  for P S where
  source: "n \<in> S \<Longrightarrow> path_to P S n 0"
| edge: "path_to P S n d \<Longrightarrow> c \<in> set (succs P n) \<Longrightarrow> path_to P S (newnode c) (d + cand_edge_cost c)"

text \<open>A plan that spells out such a path, step by step.\<close>

inductive plan_for ::
    "('n, 'e, 'c::linordered_idom) search_problem \<Rightarrow> 'n set \<Rightarrow> ('n, 'e, 'c) tPlanStep list \<Rightarrow> 'n \<Rightarrow> 'c \<Rightarrow> bool"
  for P S where
  root: "n \<in> S \<Longrightarrow>
    plan_for P S [\<lparr>step_edge = None, earlier_cost = 0, step_edge_cost = 0, step_node = n\<rparr>] n 0"
| step: "plan_for P S ss n d \<Longrightarrow> c \<in> set (succs P n) \<Longrightarrow>
    plan_for P S (ss @ [\<lparr>step_edge = Some (cand_edge c), earlier_cost = d,
      step_edge_cost = cand_edge_cost c, step_node = newnode c\<rparr>]) (newnode c) (d + cand_edge_cost c)"

lemma graph_problemD:
  assumes "graph_problem P S"
  shows "ExpandNode P n pn pe g = succs P n" "IsTarget P n g = IsTarget P n 0"
    "c \<in> set (succs P n) \<Longrightarrow> 0 \<le> cand_edge_cost c"
    "c \<in> set (succs P n) \<Longrightarrow>
      EstimateRemainingCost P n \<le> cand_edge_cost c + EstimateRemainingCost P (newnode c)"
    "0 \<le> EstimateRemainingCost P n" "IsTarget P n 0 \<Longrightarrow> EstimateRemainingCost P n = 0"
    "m \<in> S \<Longrightarrow> StrongDuplicate P n m"
  using assms unfolding graph_problem_def by blast+

lemma path_to_nonneg: "path_to P S n d \<Longrightarrow> graph_problem P S \<Longrightarrow> 0 \<le> d"
  by (induction rule: path_to.induct) (auto dest: graph_problemD(3))

lemma plan_for_path: "plan_for P S ss n d \<Longrightarrow> path_to P S n d"
  by (induction rule: plan_for.induct) (auto intro: path_to.intros)

section \<open>The abstract view\<close>

record ('n, 'e, 'c) aview =
  vn :: "'n list"
  vl :: "('e, 'c) tAStarEdge option list"
  vf :: "'c list"
  vo :: "nat set"
  vc :: "nat list"

definition gcost :: "('n, 'e, 'c::linordered_idom) aview \<Rightarrow> nat \<Rightarrow> 'c" where
  "gcost v p = (case vl v ! p of None \<Rightarrow> 0 | Some e \<Rightarrow> cumulative_cost e)"

inductive areg ::
    "'n \<Rightarrow> ('e, 'c::linordered_idom) tAStarEdge \<Rightarrow> 'c \<Rightarrow> ('n, 'e, 'c) aview \<Rightarrow> ('n, 'e, 'c) aview \<Rightarrow> bool"
  for n e f where
  fresh: "n \<notin> set (vn v) \<Longrightarrow> areg n e f v
    (v\<lparr>vn := vn v @ [n], vl := vl v @ [Some e], vf := vf v @ [f], vo := insert (length (vn v)) (vo v)\<rparr>)"
| better: "p < length (vn v) \<Longrightarrow> vn v ! p = n \<Longrightarrow> cumulative_cost e < gcost v p \<Longrightarrow>
    areg n e f v (v\<lparr>vl := (vl v)[p := Some e], vf := (vf v)[p := f]\<rparr>)"
| worse: "p < length (vn v) \<Longrightarrow> vn v ! p = n \<Longrightarrow> gcost v p \<le> cumulative_cost e \<Longrightarrow> areg n e f v v"

text \<open>How a stored node came to be: a root with its \<open>f_value\<close> 0, or the head of an edge.\<close>

definition link_ok ::
    "('n, 'e, 'c::linordered_idom) search_problem \<Rightarrow> 'n set \<Rightarrow> ('n, 'e, 'c) aview \<Rightarrow> nat \<Rightarrow> bool" where
  "link_ok P S v p \<longleftrightarrow>
     (case vl v ! p of
        None \<Rightarrow> vn v ! p \<in> S \<and> vf v ! p = 0
      | Some e \<Rightarrow> \<exists>q \<in> set (vc v). parent e = Some q \<and>
          \<lparr>cand_edge = edge e, cand_edge_cost = edge_cost e, newnode = vn v ! p\<rparr> \<in> set (succs P (vn v ! q)) \<and>
          cumulative_cost e = gcost v q + edge_cost e \<and>
          vf v ! p = cumulative_cost e + EstimateRemainingCost P (vn v ! p))"

definition covered :: "('n, 'e, 'c::linordered_idom) aview \<Rightarrow> nat \<Rightarrow> ('n, 'e, 'c) tExpandCandidate \<Rightarrow> bool" where
  "covered v q c \<longleftrightarrow> (\<exists>p < length (vn v). vn v ! p = newnode c \<and> gcost v p \<le> gcost v q + cand_edge_cost c)"

definition view_wf :: "('n, 'e, 'c) aview \<Rightarrow> bool" where
  "view_wf v \<longleftrightarrow> length (vl v) = length (vn v) \<and> length (vf v) = length (vn v) \<and> distinct (vn v) \<and>
     vo v \<union> set (vc v) = {..<length (vn v)} \<and> vo v \<inter> set (vc v) = {} \<and> distinct (vc v)"

text \<open>
  The invariant. \<open>X\<close> holds the candidates of closed nodes that have not been registered yet: those
  of the node that is being expanded.
\<close>

definition vinv ::
    "('n, 'e, 'c::linordered_idom) search_problem \<Rightarrow> 'n set \<Rightarrow> (nat \<times> ('n, 'e, 'c) tExpandCandidate) set \<Rightarrow>
     ('n, 'e, 'c) aview \<Rightarrow> bool" where
  "vinv P S X v \<longleftrightarrow> view_wf v \<and>
     (\<forall>p < length (vn v). link_ok P S v p) \<and>
     (\<forall>i < length (vc v). \<forall>e. vl v ! (vc v ! i) = Some e \<longrightarrow> (\<exists>j < i. parent e = Some (vc v ! j))) \<and>
     (\<forall>n \<in> S. \<exists>p < length (vn v). vn v ! p = n \<and> vl v ! p = None) \<and>
     (\<forall>q \<in> set (vc v). \<forall>c \<in> set (succs P (vn v ! q)). covered v q c \<or> (q, c) \<in> X) \<and>
     (\<forall>q \<in> set (vc v). \<forall>d. path_to P S (vn v ! q) d \<longrightarrow> gcost v q \<le> d)"

lemma vinvD:
  assumes "vinv P S X v"
  shows "view_wf v" "p < length (vn v) \<Longrightarrow> link_ok P S v p"
    "i < length (vc v) \<Longrightarrow> vl v ! (vc v ! i) = Some e \<Longrightarrow> \<exists>j < i. parent e = Some (vc v ! j)"
    "n \<in> S \<Longrightarrow> \<exists>p < length (vn v). vn v ! p = n \<and> vl v ! p = None"
    "q \<in> set (vc v) \<Longrightarrow> c \<in> set (succs P (vn v ! q)) \<Longrightarrow> covered v q c \<or> (q, c) \<in> X"
    "q \<in> set (vc v) \<Longrightarrow> path_to P S (vn v ! q) d \<Longrightarrow> gcost v q \<le> d"
  using assms unfolding vinv_def by blast+

lemma vinvI:
  assumes "view_wf v" "\<And>p. p < length (vn v) \<Longrightarrow> link_ok P S v p"
    "\<And>i e. i < length (vc v) \<Longrightarrow> vl v ! (vc v ! i) = Some e \<Longrightarrow> \<exists>j < i. parent e = Some (vc v ! j)"
    "\<And>n. n \<in> S \<Longrightarrow> \<exists>p < length (vn v). vn v ! p = n \<and> vl v ! p = None"
    "\<And>q c. q \<in> set (vc v) \<Longrightarrow> c \<in> set (succs P (vn v ! q)) \<Longrightarrow> covered v q c \<or> (q, c) \<in> X"
    "\<And>q d. q \<in> set (vc v) \<Longrightarrow> path_to P S (vn v ! q) d \<Longrightarrow> gcost v q \<le> d"
  shows "vinv P S X v"
  using assms unfolding vinv_def by blast

lemma view_wfD:
  assumes "view_wf v"
  shows "length (vl v) = length (vn v)" "length (vf v) = length (vn v)" "distinct (vn v)"
    "q \<in> set (vc v) \<Longrightarrow> q < length (vn v)" "p \<in> vo v \<Longrightarrow> p < length (vn v)"
    "p \<in> vo v \<Longrightarrow> p \<notin> set (vc v)" "p < length (vn v) \<Longrightarrow> p \<in> vo v \<or> p \<in> set (vc v)" "distinct (vc v)"
  using assms unfolding view_wf_def by blast+

lemma link_okD:
  assumes "link_ok P S v p" "vl v ! p = Some e"
  obtains q where "q \<in> set (vc v)" "parent e = Some q"
    "\<lparr>cand_edge = edge e, cand_edge_cost = edge_cost e, newnode = vn v ! p\<rparr> \<in> set (succs P (vn v ! q))"
    "cumulative_cost e = gcost v q + edge_cost e"
    "vf v ! p = cumulative_cost e + EstimateRemainingCost P (vn v ! p)"
  using assms unfolding link_ok_def by auto

lemma link_ok_root: "link_ok P S v p \<Longrightarrow> vl v ! p = None \<Longrightarrow> vn v ! p \<in> S \<and> vf v ! p = 0 \<and> gcost v p = 0"
  by (simp add: link_ok_def gcost_def)

lemma f_value_le:
  assumes "link_ok P S v p" "graph_problem P S"
  shows "vf v ! p \<le> gcost v p + EstimateRemainingCost P (vn v ! p)"
  using assms(1) graph_problemD(5) [OF assms(2), of "vn v ! p"]
  by (cases "vl v ! p") (auto simp: link_ok_def gcost_def)

section \<open>Every stored cost is the cost of a path\<close>

text \<open>The primary links of the closed nodes lead back to a root, one closed node at a time.\<close>

lemma closed_path:
  assumes "vinv P S X v"
  shows "i < length (vc v) \<Longrightarrow> path_to P S (vn v ! (vc v ! i)) (gcost v (vc v ! i))"
proof (induction i rule: less_induct)
  case (less i)
  let ?p = "vc v ! i"
  have p: "?p < length (vn v)" using less.prems view_wfD(4) [OF vinvD(1) [OF assms]] by simp
  note l = vinvD(2) [OF assms p]
  show ?case
  proof (cases "vl v ! ?p")
    case None
    then show ?thesis using link_ok_root [OF l None] by (simp add: path_to.source)
  next
    case (Some e)
    then obtain q where q: "q \<in> set (vc v)" "parent e = Some q"
        "\<lparr>cand_edge = edge e, cand_edge_cost = edge_cost e, newnode = vn v ! ?p\<rparr> \<in> set (succs P (vn v ! q))"
        "cumulative_cost e = gcost v q + edge_cost e"
      using link_okD [OF l] by metis
    obtain j where "j < i" "parent e = Some (vc v ! j)" using vinvD(3) [OF assms less.prems Some] by blast
    then have "path_to P S (vn v ! q) (gcost v q)" using less.IH [of j] less.prems q(2) by simp
    from path_to.edge [OF this q(3)] show ?thesis using Some q(4) by (simp add: gcost_def)
  qed
qed

lemma stored_path:
  assumes "vinv P S X v" "p < length (vn v)"
  shows "path_to P S (vn v ! p) (gcost v p)"
proof (cases "vl v ! p")
  case None
  then show ?thesis using link_ok_root [OF vinvD(2) [OF assms] None] by (simp add: path_to.source)
next
  case (Some e)
  then obtain q where q: "q \<in> set (vc v)"
      "\<lparr>cand_edge = edge e, cand_edge_cost = edge_cost e, newnode = vn v ! p\<rparr> \<in> set (succs P (vn v ! q))"
      "cumulative_cost e = gcost v q + edge_cost e"
    using link_okD [OF vinvD(2) [OF assms] Some] by metis
  have "path_to P S (vn v ! q) (gcost v q)"
    using closed_path [OF assms(1)] q(1) by (metis in_set_conv_nth)
  from path_to.edge [OF this q(2)] show ?thesis using Some q(3) by (simp add: gcost_def)
qed

text \<open>Every path is either completely explored or leaves the explored part at an open node.\<close>

lemma path_frontier:
  assumes "vinv P S {} v" "graph_problem P S" "path_to P S n d"
  shows "(\<exists>p \<in> set (vc v). vn v ! p = n \<and> gcost v p \<le> d) \<or>
    (\<exists>m \<in> vo v. vf v ! m \<le> d + EstimateRemainingCost P n)"
  using assms(3)
proof (induction rule: path_to.induct)
  case (source n)
  then obtain p where p: "p < length (vn v)" "vn v ! p = n" "vl v ! p = None"
    using vinvD(4) [OF assms(1)] by blast
  have "vf v ! p \<le> 0 + EstimateRemainingCost P n" "gcost v p = 0"
    using f_value_le [OF vinvD(2) [OF assms(1) p(1)] assms(2)] p by (simp_all add: gcost_def)
  then show ?case using p view_wfD(7) [OF vinvD(1) [OF assms(1)] p(1)] by force
next
  case (edge n d c)
  from edge.IH show ?case
  proof
    assume "\<exists>q \<in> set (vc v). vn v ! q = n \<and> gcost v q \<le> d"
    then obtain q where q: "q \<in> set (vc v)" "vn v ! q = n" "gcost v q \<le> d" by blast
    then obtain p where p: "p < length (vn v)" "vn v ! p = newnode c" "gcost v p \<le> gcost v q + cand_edge_cost c"
      using vinvD(5) [OF assms(1) q(1)] edge.hyps(2) by (auto simp: covered_def)
    have "vf v ! p \<le> gcost v p + EstimateRemainingCost P (newnode c)"
      using f_value_le [OF vinvD(2) [OF assms(1) p(1)] assms(2)] p(2) by simp
    then have "vf v ! p \<le> d + cand_edge_cost c + EstimateRemainingCost P (newnode c)"
      "gcost v p \<le> d + cand_edge_cost c" using p(3) q(3) by linarith+
    then show ?case using p view_wfD(7) [OF vinvD(1) [OF assms(1)] p(1)] by blast
  next
    assume "\<exists>m \<in> vo v. vf v ! m \<le> d + EstimateRemainingCost P n"
    then obtain m where m: "m \<in> vo v" "vf v ! m \<le> d + EstimateRemainingCost P n" by blast
    have "vf v ! m \<le> d + cand_edge_cost c + EstimateRemainingCost P (newnode c)"
      using m(2) graph_problemD(4) [OF assms(2) edge.hyps(2)] by linarith
    with m(1) show ?case by blast
  qed
qed

lemma f_value_cases:
  assumes "link_ok P S v p"
  shows "gcost v p = 0 \<or> vf v ! p = gcost v p + EstimateRemainingCost P (vn v ! p)"
  using assms by (cases "vl v ! p") (auto simp: link_ok_def gcost_def)

lemma first_open_optimal:
  assumes "vinv P S {} v" "graph_problem P S" "t \<in> vo v" "\<And>m. m \<in> vo v \<Longrightarrow> vf v ! t \<le> vf v ! m"
    "path_to P S (vn v ! t) d"
  shows "gcost v t \<le> d"
proof -
  have t: "t < length (vn v)" using view_wfD(5) [OF vinvD(1) [OF assms(1)] assms(3)] .
  have "\<not> (\<exists>p \<in> set (vc v). vn v ! p = vn v ! t \<and> gcost v p \<le> d)"
    using view_wfD [OF vinvD(1) [OF assms(1)]] assms(3) t by (metis nth_eq_iff_index_eq)
  then obtain m where m: "m \<in> vo v" "vf v ! m \<le> d + EstimateRemainingCost P (vn v ! t)"
    using path_frontier [OF assms(1,2,5)] by blast
  show ?thesis
    using f_value_cases [OF vinvD(2) [OF assms(1) t]] path_to_nonneg [OF assms(5,2)] m(2) assms(4) [OF m(1)]
    by (elim disjE) linarith+
qed

section \<open>The steps keep the invariant\<close>

text \<open>Closing a first open node.\<close>

lemma vinv_close:
  assumes "vinv P S {} v" "graph_problem P S" "t \<in> vo v" "\<And>m. m \<in> vo v \<Longrightarrow> vf v ! t \<le> vf v ! m"
  shows "vinv P S {(t, c) |c. c \<in> set (succs P (vn v ! t))} (v\<lparr>vo := vo v - {t}, vc := vc v @ [t]\<rparr>)"
    (is "vinv P S ?X ?v")
proof (rule vinvI)
  note w = view_wfD [OF vinvD(1) [OF assms(1)]]
  have g: "gcost ?v p = gcost v p" for p by (simp add: gcost_def)
  show "view_wf ?v" using vinvD(1) [OF assms(1)] assms(3) unfolding view_wf_def by auto
  show "link_ok P S ?v p" if "p < length (vn ?v)" for p
    using vinvD(2) [OF assms(1), of p] that by (auto simp: link_ok_def g split: option.splits)
  show "\<exists>j < i. parent e = Some (vc ?v ! j)" if i: "i < length (vc ?v)" "vl ?v ! (vc ?v ! i) = Some e" for i e
  proof (cases "i < length (vc v)")
    case True
    then obtain j where "j < i" "parent e = Some (vc v ! j)"
      using vinvD(3) [OF assms(1) True, of e] i by (auto simp: nth_append)
    with True show ?thesis by (intro exI [of _ j]) (simp add: nth_append)
  next
    case False
    then have "i = length (vc v)" "vl v ! t = Some e" using i by (auto simp: nth_append less_Suc_eq)
    then obtain q where q: "q \<in> set (vc v)" "parent e = Some q"
      using link_okD [OF vinvD(2) [OF assms(1) w(5) [OF assms(3)]]] by metis
    then obtain j where "j < length (vc v)" "vc v ! j = q" by (metis in_set_conv_nth)
    with \<open>i = length (vc v)\<close> q show ?thesis by (intro exI [of _ j]) (simp add: nth_append)
  qed
  show "\<exists>p < length (vn ?v). vn ?v ! p = n \<and> vl ?v ! p = None" if "n \<in> S" for n
    using vinvD(4) [OF assms(1) that] by simp
  show "covered ?v q c \<or> (q, c) \<in> ?X" if "q \<in> set (vc ?v)" "c \<in> set (succs P (vn ?v ! q))" for q c
    using that vinvD(5) [OF assms(1), of q c] by (auto simp: covered_def g)
  show "gcost ?v q \<le> d" if "q \<in> set (vc ?v)" "path_to P S (vn ?v ! q) d" for q d
    using that vinvD(6) [OF assms(1), of q d] first_open_optimal [OF assms, of d] by (auto simp: g)
qed

text \<open>
  Registering the candidate \<open>c\<close> of the closed node \<open>q\<close>. A better way is never found to a closed
  node or to a root.
\<close>

lemma better_is_open:
  assumes "vinv P S X v" "graph_problem P S" "q \<in> set (vc v)" "c \<in> set (succs P (vn v ! q))"
    "p < length (vn v)" "vn v ! p = newnode c" "gcost v q + cand_edge_cost c < gcost v p"
  shows "p \<in> vo v" "vl v ! p \<noteq> None"
proof -
  have path: "path_to P S (vn v ! p) (gcost v q + cand_edge_cost c)"
    using path_to.edge [OF stored_path [OF assms(1)] assms(4)] view_wfD(4) [OF vinvD(1) [OF assms(1)] assms(3)]
      assms(6) by simp
  then show "p \<in> vo v"
    using vinvD(6) [OF assms(1) _ path] view_wfD(7) [OF vinvD(1) [OF assms(1)] assms(5)] assms(7) by force
  have "0 < gcost v p" using path_to_nonneg [OF path assms(2)] assms(7) by linarith
  then show "vl v ! p \<noteq> None" by (cases "vl v ! p") (simp_all add: gcost_def)
qed

definition cand_link :: "nat \<Rightarrow> ('n, 'e, 'c) tExpandCandidate \<Rightarrow> 'c::linordered_idom \<Rightarrow> ('e, 'c) tAStarEdge" where
  "cand_link q c g = \<lparr>parent = Some q, edge = cand_edge c, edge_cost = cand_edge_cost c,
     cumulative_cost = g + cand_edge_cost c\<rparr>"

lemma vinv_frame:
  assumes v: "vinv P S X v" and v': "view_wf v'"
    and eq: "vc v' = vc v" "\<And>p. p < length (vn v) \<Longrightarrow> vn v' ! p = vn v ! p" "length (vn v) \<le> length (vn v')"
      "\<And>p. p \<in> set (vc v) \<Longrightarrow> vl v' ! p = vl v ! p" "\<And>p. p < length (vn v) \<Longrightarrow> vl v ! p = None \<Longrightarrow> vl v' ! p = None"
    and le: "\<And>p. p < length (vn v) \<Longrightarrow> gcost v' p \<le> gcost v p"
    and lk: "\<And>p. p < length (vn v') \<Longrightarrow> link_ok P S v' p"
    and new: "\<And>q c. (q, c) \<in> X \<Longrightarrow> (q, c) \<notin> Y \<Longrightarrow> covered v' q c"
  shows "vinv P S Y v'"
proof (rule vinvI)
  note w = view_wfD [OF vinvD(1) [OF v]]
  have g: "gcost v' q = gcost v q" if "q \<in> set (vc v)" for q using eq(4) [OF that] by (simp add: gcost_def)
  show "\<exists>j < i. parent e = Some (vc v' ! j)" if "i < length (vc v')" "vl v' ! (vc v' ! i) = Some e" for i e
    using vinvD(3) [OF v, of i e] that eq(1,4) by auto
  show "\<exists>p < length (vn v'). vn v' ! p = n \<and> vl v' ! p = None" if "n \<in> S" for n
    using vinvD(4) [OF v that] eq(2,3,5) by (metis order_less_le_trans)
  show "covered v' q c \<or> (q, c) \<in> Y" if q: "q \<in> set (vc v')" and c: "c \<in> set (succs P (vn v' ! q))" for q c
  proof (cases "(q, c) \<in> X")
    case False
    have "q < length (vn v)" using q eq(1) w(4) by simp
    then have "covered v q c" using vinvD(5) [OF v, of q c] q c eq(1,2) False by simp
    then show ?thesis using le eq(2,3) g [of q] q eq(1) unfolding covered_def by (metis order_less_le_trans order_trans)
  qed (use new in blast)
  show "gcost v' q \<le> d" if "q \<in> set (vc v')" "path_to P S (vn v' ! q) d" for q d
    using vinvD(6) [OF v, of q d] that eq(1,2) g w(4) by simp
qed (use v' lk in auto)

lemma link_ok_keep:
  assumes "link_ok P S v p" "vl v' ! p = vl v ! p" "vn v' ! p = vn v ! p" "vf v' ! p = vf v ! p" "vc v' = vc v"
    "\<And>q. q \<in> set (vc v) \<Longrightarrow> gcost v' q = gcost v q \<and> vn v' ! q = vn v ! q"
  shows "link_ok P S v' p"
  using assms by (auto simp: link_ok_def split: option.splits)

lemma link_ok_cand:
  assumes "q \<in> set (vc v)" "c \<in> set (succs P (vn v ! q))" "vl v ! p = Some (cand_link q c (gcost v q))"
    "vn v ! p = newnode c" "vf v ! p = gcost v q + cand_edge_cost c + EstimateRemainingCost P (newnode c)"
  shows "link_ok P S v p"
proof -
  have "\<lparr>cand_edge = cand_edge c, cand_edge_cost = cand_edge_cost c, newnode = newnode c\<rparr> = c" by (cases c) simp
  with assms(2) have "\<lparr>cand_edge = cand_edge c, cand_edge_cost = cand_edge_cost c, newnode = newnode c\<rparr>
      \<in> set (succs P (vn v ! q))" by (simp only:)
  then show ?thesis using assms by (auto simp: link_ok_def cand_link_def)
qed

lemma vinv_areg:
  assumes v: "vinv P S (insert (q, c) X) v" and P: "graph_problem P S"
    and q: "q \<in> set (vc v)" and c: "c \<in> set (succs P (vn v ! q))"
    and r: "areg (newnode c) (cand_link q c (gcost v q))
      (gcost v q + cand_edge_cost c + EstimateRemainingCost P (newnode c)) v v'"
  shows "vinv P S X v'"
  using r
proof (cases rule: areg.cases)
  note w = view_wfD [OF vinvD(1) [OF v]]
  {
    case fresh
    then have sel: "vc v' = vc v" "vn v' = vn v @ [newnode c]" "vl v' = vl v @ [Some (cand_link q c (gcost v q))]"
      "vf v' = vf v @ [gcost v q + cand_edge_cost c + EstimateRemainingCost P (newnode c)]" by simp_all
    have g: "gcost v' p = gcost v p" if "p < length (vn v)" for p
      using that w(1) sel(3) by (simp add: gcost_def nth_append)
    have n: "vn v' ! p = vn v ! p" "vl v' ! p = vl v ! p" "vf v' ! p = vf v ! p" if "p < length (vn v)" for p
      using that sel w(1,2) by (simp_all add: nth_append)
    have last: "vl v' ! length (vn v) = Some (cand_link q c (gcost v q))" "vn v' ! length (vn v) = newnode c"
      "vf v' ! length (vn v) = gcost v q + cand_edge_cost c + EstimateRemainingCost P (newnode c)"
      using sel w(1,2) by (metis nth_append_length)+
    show ?thesis
    proof (rule vinv_frame [OF v])
      show "view_wf v'" using vinvD(1) [OF v] fresh by (auto simp: view_wf_def)
      show "link_ok P S v' p" if "p < length (vn v')" for p
      proof (cases "p < length (vn v)")
        case True
        then show ?thesis by (intro link_ok_keep [OF vinvD(2) [OF v True]]) (auto simp: n g sel(1) dest: w(4))
      next
        case False
        then have "p = length (vn v)" using that sel(2) by simp
        then show ?thesis using link_ok_cand [of q v' c] last q c sel(1) n(1) g w(4) [OF q] by simp
      qed
      show "covered v' r d" if "(r, d) \<in> insert (q, c) X" "(r, d) \<notin> X" for r d
        using that last(1,2) g [OF w(4) [OF q]] sel(2) unfolding covered_def
        by (intro exI [of _ "length (vn v)"]) (auto simp: gcost_def cand_link_def)
    qed (use n g sel in \<open>auto dest: w(4)\<close>)
  next
    case (better p)
    then have less: "gcost v q + cand_edge_cost c < gcost v p" by (simp add: cand_link_def)
    have p: "p \<in> vo v" "vl v ! p \<noteq> None" "p \<notin> set (vc v)" "p \<noteq> q"
      using better_is_open [OF v P q c better(2,3) less] w(6) q by auto
    have sel: "vc v' = vc v" "vn v' = vn v" "vl v' = (vl v)[p := Some (cand_link q c (gcost v q))]"
      "vf v' = (vf v)[p := gcost v q + cand_edge_cost c + EstimateRemainingCost P (newnode c)]"
      using better(1) by simp_all
    have g: "gcost v' r = (if r = p then gcost v q + cand_edge_cost c else gcost v r)" for r
      using better(2) w(1) sel(3) by (simp add: gcost_def cand_link_def)
    have gc: "gcost v' r = gcost v r" if "r \<in> set (vc v)" for r using g p(3) that by auto
    show ?thesis
    proof (rule vinv_frame [OF v])
      show "view_wf v'" using vinvD(1) [OF v] better(1) by (simp add: view_wf_def)
      show "link_ok P S v' r" if "r < length (vn v')" for r
      proof (cases "r = p")
        case True
        then show ?thesis using link_ok_cand [of q v' c P r S] sel q c gc [OF q] better(2,3) w(1,2) by simp
      next
        case False
        then show ?thesis using that sel gc by (intro link_ok_keep [OF vinvD(2) [OF v]]) auto
      qed
      show "covered v' r d" if "(r, d) \<in> insert (q, c) X" "(r, d) \<notin> X" for r d
        using that better(2,3) g [of p] gc [OF q] sel(2) unfolding covered_def by (intro exI [of _ p]) auto
      show "gcost v' r \<le> gcost v r" for r using g less by simp
      show "vl v' ! r = None" if "r < length (vn v)" "vl v ! r = None" for r
        using that p(2) sel(3) by (metis nth_list_update_neq)
      show "vl v' ! r = vl v ! r" if "r \<in> set (vc v)" for r using that p(3) sel(3) by (metis nth_list_update_neq)
    qed (use p sel in auto)
  next
    case (worse p)
    show ?thesis
    proof (rule vinv_frame [OF v])
      show "covered v' r d" if "(r, d) \<in> insert (q, c) X" "(r, d) \<notin> X" for r d
        using that worse unfolding covered_def by (intro exI [of _ p]) (auto simp: cand_link_def)
    qed (use worse(1) vinvD [OF v] in auto)
  }
qed

section \<open>The operations of the code refine the view\<close>

definition view :: "('n, 'e, 'c) astar \<Rightarrow> ('n, 'e, 'c) aview" where
  "view s = \<lparr>vn = map node (uc_memory (nodestorage s)), vl = map primary_link (uc_memory (nodestorage s)),
     vf = map (f_value (open_nodes s)) [0..<length (uc_memory (nodestorage s))],
     vo = set (nl_heap (open_nodes s)), vc = closed s\<rparr>"

definition astar_ok :: "('n, 'e, 'c::linorder) astar \<Rightarrow> bool" where
  "astar_ok s \<longleftrightarrow> uc_inv node (nodestorage s) \<and>
     uc_collection (nodestorage s) = [0..<length (uc_memory (nodestorage s))] \<and> nl_inv (open_nodes s) \<and>
     set (nl_heap (open_nodes s)) \<subseteq> {..<length (uc_memory (nodestorage s))} \<and>
     (\<forall>d \<in> set (uc_memory (nodestorage s)). \<not> twoway_connector d)"

text \<open>What registering a node leaves alone.\<close>

definition same_config :: "('n, 'e, 'c) astar \<Rightarrow> ('n, 'e, 'c) astar \<Rightarrow> bool" where
  "same_config s s' \<longleftrightarrow> searching s' = searching s \<and> is_oneway_search s' = is_oneway_search s \<and>
     is_reverse_search s' = is_reverse_search s \<and> success_node s' = success_node s \<and> src s' = src s \<and>
     closed s' = closed s"

lemma same_config_refl [simp]: "same_config s s"
  by (simp add: same_config_def)

lemma same_config_trans: "same_config s s' \<Longrightarrow> same_config s' s'' \<Longrightarrow> same_config s s''"
  by (simp add: same_config_def)

lemma astar_okD:
  assumes "astar_ok s"
  shows "uc_inv node (nodestorage s)"
    "uc_collection (nodestorage s) = [0..<length (uc_memory (nodestorage s))]" "nl_inv (open_nodes s)"
    "p \<in> set (nl_heap (open_nodes s)) \<Longrightarrow> p < length (uc_memory (nodestorage s))"
    "p < length (uc_memory (nodestorage s)) \<Longrightarrow> \<not> twoway_connector (obj_at s p)"
  using assms unfolding astar_ok_def obj_at_def uc_object_def by auto

lemma view_nth:
  assumes "p < length (uc_memory (nodestorage s))"
  shows "vn (view s) ! p = node (obj_at s p)" "vl (view s) ! p = primary_link (obj_at s p)"
    "vf (view s) ! p = f_value (open_nodes s) p" "gcost (view s) p = CumulativeCost (obj_at s p)"
  using assms by (simp_all add: view_def obj_at_def uc_object_def gcost_def CumulativeCost_def primary_link_def)

lemma view_sel [simp]:
  "length (vn (view s)) = length (uc_memory (nodestorage s))" "length (vl (view s)) = length (uc_memory (nodestorage s))"
  "vo (view s) = set (nl_heap (open_nodes s))" "vc (view s) = closed s"
  by (simp_all add: view_def)

lemma AddNewNode_view:
  assumes s: "astar_ok s" and nn: "\<not> twoway_connector nn" "Lookup_Mutable node nn (nodestorage s) = None"
  shows "\<exists>s'. AddNewNode nn f s = Some s' \<and> astar_ok s' \<and> same_config s s' \<and>
    view s' = (view s)\<lparr>vn := vn (view s) @ [node nn], vl := vl (view s) @ [primary_link nn],
      vf := vf (view s) @ [f], vo := insert (length (vn (view s))) (vo (view s))\<rparr>"
proof -
  let ?m = "uc_memory (nodestorage s)"
  let ?n = "length ?m"
  have "?n \<notin> set (nl_heap (open_nodes s))" using astar_okD(4) [OF s] by blast
  then obtain l where l: "AddNode (Some ?n) (set_nodelist_index ?n (- 1) (set_f ?n f (open_nodes s))) = Some l"
    "nl_inv l" "set (nl_heap l) = insert ?n (set (nl_heap (open_nodes s)))"
    "f_value l = (f_value (open_nodes s))(?n := f)"
    using nl_queue.add_spec [OF astar_okD(3) [OF s]] by blast
  let ?st = "\<lparr>uc_memory = ?m @ [nn], uc_collection = uc_collection (nodestorage s) @ [?n]\<rparr>"
  let ?s = "s\<lparr>nodestorage := ?st, open_nodes := l\<rparr>"
  note new = Insert_new [OF astar_okD(1) [OF s] nn(2)]
  have "AddNewNode nn f s = Some ?s"
    using l(1) by (simp add: AddNewNode_def new set_f_value_def)
  moreover have "uc_inv node ?st" using Insert_inv [OF astar_okD(1) [OF s] nn(2)] by (simp add: new)
  then have "astar_ok ?s" using s l nn(1) unfolding astar_ok_def by auto
  moreover have "map (f_value l) [0..<Suc ?n] = map (f_value (open_nodes s)) [0..<?n] @ [f]"
    using l(4) by simp
  then have "view ?s = (view s)\<lparr>vn := vn (view s) @ [node nn], vl := vl (view s) @ [primary_link nn],
      vf := vf (view s) @ [f], vo := insert (length (vn (view s))) (vo (view s))\<rparr>"
    using l(3) by (simp add: view_def del: upt_Suc)
  moreover have "same_config s ?s" by (simp add: same_config_def)
  ultimately show ?thesis by blast
qed

lemma write_node_ok:
  assumes s: "astar_ok s" and p: "p < length (uc_memory (nodestorage s))"
    and F: "node (F (obj_at s p)) = node (obj_at s p)" "\<not> twoway_connector (F (obj_at s p))"
  shows "astar_ok (write_node p F s)"
    "view (write_node p F s) = (view s)\<lparr>vl := (vl (view s))[p := primary_link (F (obj_at s p))]\<rparr>"
    "same_config s (write_node p F s)"
proof -
  let ?m = "uc_memory (nodestorage s)"
  have "uc_inv node (uc_write p F (nodestorage s))"
    using uc_write_inv [OF astar_okD(1) [OF s]] F(1) p astar_okD(2) [OF s] by (simp add: obj_at_def)
  moreover have "\<not> twoway_connector d" if "d \<in> set (?m[p := F (?m ! p)])" for d
    using set_update_subset_insert [of ?m p "F (?m ! p)"] that F(2) s
    by (auto simp: astar_ok_def obj_at_def uc_object_def)
  ultimately show "astar_ok (write_node p F s)"
    using s by (auto simp: astar_ok_def write_node_def uc_write_def)
  have e: "node (F (?m ! p)) = map node ?m ! p" using F(1) p by (simp add: obj_at_def uc_object_def)
  have "map node (?m[p := F (?m ! p)]) = (map node ?m)[p := map node ?m ! p]"
    unfolding e [symmetric] by (rule map_update)
  then have "map node (?m[p := F (?m ! p)]) = map node ?m" unfolding list_update_id .
  then show "view (write_node p F s) = (view s)\<lparr>vl := (vl (view s))[p := primary_link (F (obj_at s p))]\<rparr>"
    by (simp add: view_def write_node_def uc_write_def map_update obj_at_def uc_object_def)
  show "same_config s (write_node p F s)" by (simp add: same_config_def write_node_def)
qed

lemma readjust_ok:
  assumes s: "astar_ok s" and p: "p \<in> set (nl_heap (open_nodes s))"
  shows "\<exists>s'. readjust p (set_f_value p f s) = Some s' \<and> astar_ok s' \<and> same_config s s' \<and>
    view s' = (view s)\<lparr>vf := (vf (view s))[p := f]\<rparr>"
proof -
  obtain l where l: "AdjustPosition p (set_f p f (open_nodes s)) = Some (True, l)" "nl_inv l"
    "set (nl_heap l) = set (nl_heap (open_nodes s))" "f_value l = (f_value (open_nodes s))(p := f)"
    using nl_queue.adjust_spec [OF astar_okD(3) [OF s] p] by blast
  have p': "p < length (uc_memory (nodestorage s))" using astar_okD(4) [OF s p] .
  have "map (f_value l) [0..<length (uc_memory (nodestorage s))] =
      (map (f_value (open_nodes s)) [0..<length (uc_memory (nodestorage s))])[p := f]"
    using p' l(4) by (intro nth_equalityI) (auto simp: nth_list_update)
  then have "view (s\<lparr>open_nodes := l\<rparr>) = (view s)\<lparr>vf := (vf (view s))[p := f]\<rparr>"
    using l(3) by (simp add: view_def)
  moreover have "astar_ok (s\<lparr>open_nodes := l\<rparr>)" using s l by (simp add: astar_ok_def)
  moreover have "readjust p (set_f_value p f s) = Some (s\<lparr>open_nodes := l\<rparr>)"
    using l(1) by (simp add: readjust_def set_f_value_def)
  ultimately show ?thesis by (auto simp: same_config_def)
qed

lemma Lookup_view:
  assumes "astar_ok s"
  shows "Lookup_Mutable node nn (nodestorage s) = Some p \<longleftrightarrow>
    p < length (uc_memory (nodestorage s)) \<and> vn (view s) ! p = node nn"
  using Lookup_Some_iff [OF astar_okD(1) [OF assms], of nn p] astar_okD(2) [OF assms]
  by (auto simp: view_def uc_object_def)

lemma Lookup_view_None:
  assumes "astar_ok s" "Lookup_Mutable node nn (nodestorage s) = None"
  shows "node nn \<notin> set (vn (view s))"
  using Lookup_view [OF assms(1), of nn] assms(2) by (auto simp: in_set_conv_nth)

text \<open>The two ways in which a better cost overwrites the primary link of a known node.\<close>

lemma overwrite_ok:
  assumes s: "astar_ok s" and p: "p \<in> set (nl_heap (open_nodes s))"
    and F: "node (F (obj_at s p)) = node (obj_at s p)" "\<not> twoway_connector (F (obj_at s p))"
      "primary_link (F (obj_at s p)) = Some e"
  shows "\<exists>s'. readjust p (set_f_value p f (write_node p F s)) = Some s' \<and> astar_ok s' \<and> same_config s s' \<and>
    view s' = (view s)\<lparr>vl := (vl (view s))[p := Some e], vf := (vf (view s))[p := f]\<rparr>"
proof -
  note w = write_node_ok [OF s astar_okD(4) [OF s p], of F, OF F(1,2)]
  have "p \<in> set (nl_heap (open_nodes (write_node p F s)))" using p by (simp add: write_node_def)
  from readjust_ok [OF w(1) this, of f] show ?thesis
    using w(2,3) F(3) by (auto intro: same_config_trans)
qed

lemma RegisterNode_view:
  assumes s: "astar_ok s" and nn: "parent_link nn = [e]" "\<not> twoway_connector nn"
    and better: "\<And>p. p < length (vn (view s)) \<Longrightarrow> vn (view s) ! p = node nn \<Longrightarrow>
      cumulative_cost e < gcost (view s) p \<Longrightarrow> p \<in> vo (view s) \<and> vl (view s) ! p \<noteq> None"
    and roots: "\<And>p. p < length (vn (view s)) \<Longrightarrow> vl (view s) ! p = None \<Longrightarrow>
      StrongDuplicate P (node nn) (vn (view s) ! p)"
  shows "\<exists>s'. RegisterNode P nn f s = Some s' \<and> astar_ok s' \<and> same_config s s' \<and>
    areg (node nn) e f (view s) (view s')"
proof -
  have pl: "primary_link nn = Some e" "CumulativeCost nn = cumulative_cost e"
    using nn(1) by (simp_all add: primary_link_def CumulativeCost_def)
  show ?thesis
  proof (cases "Lookup_Mutable node nn (nodestorage s)")
    case None
    have "RegisterNode P nn f s = AddNewNode nn f s" using None nn(1) by (simp add: RegisterNode_def)
    then show ?thesis
      using AddNewNode_view [OF s nn(2) None, of f] areg.fresh [OF Lookup_view_None [OF s None], of e f] pl(1)
      by auto
  next
    case (Some p)
    then have p: "p < length (uc_memory (nodestorage s))" "vn (view s) ! p = node nn"
      using Lookup_view [OF s] by auto
    note pv = view_nth [OF p(1)]
    show ?thesis
    proof (cases "cumulative_cost e < gcost (view s) p")
      case True
      then have o: "p \<in> set (nl_heap (open_nodes s))" "parent_link (obj_at s p) \<noteq> []"
        using better [of p] p pv(2) by (auto simp: primary_link_def)
      have lt: "CumulativeCost nn < CumulativeCost (obj_at s p)" using True pv(4) pl(2) by simp
      define F where "F = (\<lambda>d :: ('a, 'b, 'c) tAStarNode.
        if StrongDuplicate P (node nn) (node (obj_at s p))
        then d\<lparr>parent_link := (parent_link d)[0 := e], twoway_connector := twoway_connector nn\<rparr>
        else d\<lparr>parent_link := (parent_link d @ [parent_link d ! 0])[0 := e]\<rparr>)"
      have "RegisterNode P nn f s = readjust p (set_f_value p f (write_node p F s))"
        using Some nn o(2) lt pl(1) by (simp add: RegisterNode_def F_def)
      moreover have "\<exists>s'. readjust p (set_f_value p f (write_node p F s)) = Some s' \<and> astar_ok s' \<and>
          same_config s s' \<and> view s' = (view s)\<lparr>vl := (vl (view s))[p := Some e], vf := (vf (view s))[p := f]\<rparr>"
      proof (rule overwrite_ok [OF s o(1)])
        show "node (F (obj_at s p)) = node (obj_at s p)" by (simp add: F_def)
        show "\<not> twoway_connector (F (obj_at s p))" using nn(2) astar_okD(5) [OF s p(1)] by (simp add: F_def)
        show "primary_link (F (obj_at s p)) = Some e"
          using o(2) by (cases "parent_link (obj_at s p)") (simp_all add: F_def primary_link_def)
      qed
      ultimately show ?thesis using areg.better [of p "view s" "node nn" e f] p True by auto
    next
      case False
      then have w: "areg (node nn) e f (view s) (view s)" using areg.worse [of p "view s"] p by simp
      have ge: "\<not> CumulativeCost nn < CumulativeCost (obj_at s p)" using False pv(4) pl(2) by simp
      show ?thesis
      proof (cases "StrongDuplicate P (node nn) (node (obj_at s p))")
        case True
        then have "RegisterNode P nn f s = Some s" using Some nn ge by (simp add: RegisterNode_def)
        then show ?thesis using s w by auto
      next
        case weak: False
        then have ne: "parent_link (obj_at s p) \<noteq> []"
          using roots [of p] p pv by (auto simp: primary_link_def)
        let ?F = "\<lambda>d. d\<lparr>parent_link := parent_link d @ [e]\<rparr>"
        have r: "RegisterNode P nn f s = Some (write_node p ?F s)"
          using Some nn ge weak pl(1) by (simp add: RegisterNode_def)
        have "primary_link (?F (obj_at s p)) = vl (view s) ! p"
          using ne pv(2) by (simp add: primary_link_def nth_append)
        then have "view (write_node p ?F s) = view s"
          using write_node_ok(2) [OF s p(1), of ?F] astar_okD(5) [OF s p(1)] by simp
        then show ?thesis
          using r w write_node_ok(1,3) [OF s p(1), of ?F] astar_okD(5) [OF s p(1)] by simp
      qed
    qed
  qed
qed

section \<open>The search keeps the invariant\<close>

lemma areg_vn: "areg n e f v v' \<Longrightarrow> vn v' = vn v \<or> vn v' = vn v @ [n]"
  by (auto elim: areg.cases)

lemma best_cost_frame [simp]:
  "astar_ok (s\<lparr>best_cost := b\<rparr>) = astar_ok s" "view (s\<lparr>best_cost := b\<rparr>) = view s"
  "same_config t (s\<lparr>best_cost := b\<rparr>) = same_config t s"
  by (simp_all add: astar_ok_def view_def same_config_def)

lemma RegisterCandidate_ok:
  assumes s: "astar_ok s" "vinv P S (insert (q, c) X) (view s)" "graph_problem P S" "\<not> is_reverse_search s"
    and q: "q \<in> set (closed s)" "c \<in> set (succs P (vn (view s) ! q))"
  shows "\<exists>s'. RegisterCandidate P q c s = Some s' \<and> astar_ok s' \<and> same_config s s' \<and> vinv P S X (view s') \<and>
    (\<exists>ns. vn (view s') = vn (view s) @ ns)"
proof -
  note w = view_wfD [OF vinvD(1) [OF s(2)]]
  have q': "q < length (uc_memory (nodestorage s))" using w(4) [of q] q(1) by simp
  let ?e = "cand_link q c (gcost (view s) q)"
  let ?nn = "\<lparr>node = newnode c, parent_link = [?e], twoway_connector = False\<rparr>"
  let ?f = "gcost (view s) q + cand_edge_cost c + EstimateRemainingCost P (newnode c)"
  have "\<exists>s'. RegisterNode P ?nn ?f s = Some s' \<and> astar_ok s' \<and> same_config s s' \<and>
    areg (node ?nn) ?e ?f (view s) (view s')"
  proof (rule RegisterNode_view [OF s(1)])
    show "p \<in> vo (view s) \<and> vl (view s) ! p \<noteq> None"
      if "p < length (vn (view s))" "vn (view s) ! p = node ?nn" "cumulative_cost ?e < gcost (view s) p" for p
      using better_is_open [OF s(2,3), of q c p] q that by (simp add: cand_link_def)
    show "StrongDuplicate P (node ?nn) (vn (view s) ! p)"
      if "p < length (vn (view s))" "vl (view s) ! p = None" for p
      using graph_problemD(7) [OF s(3)] link_ok_root [OF vinvD(2) [OF s(2) that(1)] that(2)] by simp
  qed simp_all
  then obtain s' where s': "RegisterNode P ?nn ?f s = Some s'" "astar_ok s'" "same_config s s'"
    "areg (newnode c) ?e ?f (view s) (view s')" by auto
  have "vinv P S X (view s')" using vinv_areg [OF s(2,3)] q s'(4) by simp
  moreover have "\<exists>ns. vn (view s') = vn (view s) @ ns" using areg_vn [OF s'(4)] by auto
  moreover have "RegisterCandidate P q c s = Some s' \<or> (\<exists>b. RegisterCandidate P q c s = Some (s'\<lparr>best_cost := b\<rparr>))"
    using s(4) s'(1) graph_problemD(3) [OF s(3) q(2)] unfolding RegisterCandidate_def
    by (auto simp: view_nth(4) [OF q'] cand_link_def Let_def)
  ultimately show ?thesis using s'(2,3) by auto
qed

lemma RegisterCandidates_ok:
  assumes "graph_problem P S" "astar_ok s" "vinv P S {(q, c) |c. c \<in> set cs} (view s)" "\<not> is_reverse_search s"
    "q \<in> set (closed s)" "set cs \<subseteq> set (succs P (vn (view s) ! q))"
  shows "\<exists>s'. RegisterCandidates P q cs s = Some s' \<and> astar_ok s' \<and> same_config s s' \<and> vinv P S {} (view s') \<and>
    (\<exists>ns. vn (view s') = vn (view s) @ ns)"
  using assms(2-)
proof (induction cs arbitrary: s)
  case Nil
  then show ?case by simp
next
  case (Cons c cs)
  have X: "{(q, d) |d. d \<in> set (c # cs)} = insert (q, c) {(q, d) |d. d \<in> set cs}" by auto
  obtain s' ns where s': "RegisterCandidate P q c s = Some s'" "astar_ok s'" "same_config s s'"
    "vinv P S {(q, d) |d. d \<in> set cs} (view s')" "vn (view s') = vn (view s) @ ns"
    using RegisterCandidate_ok [of s P S q c "{(q, d) |d. d \<in> set cs}"] Cons.prems assms(1)
    unfolding X by auto
  have "q < length (vn (view s))" using view_wfD(4) [OF vinvD(1) [OF Cons.prems(2)]] Cons.prems(4) by simp
  then have "vn (view s') ! q = vn (view s) ! q" using s'(5) by (simp add: nth_append)
  then obtain s'' ms where "RegisterCandidates P q cs s' = Some s''" "astar_ok s''" "same_config s' s''"
    "vinv P S {} (view s'')" "vn (view s'') = vn (view s') @ ms"
    using Cons.IH [OF s'(2,4)] s'(3) Cons.prems by (auto simp: same_config_def)
  then show ?case using s' same_config_trans [OF s'(3)] by auto
qed

lemma MoveFirst_ok:
  fixes s :: "('n, 'e, 'c::linordered_idom) astar"
  assumes "astar_ok s" "FirstNode (open_nodes s) = Some t"
  shows "\<exists>s'. MoveFirstOpenNodeToClosedList s = Some s' \<and> astar_ok s' \<and> t \<in> vo (view s) \<and>
    view s' = (view s)\<lparr>vo := vo (view s) - {t}, vc := vc (view s) @ [t]\<rparr> \<and>
    (\<forall>m \<in> vo (view s). vf (view s) ! t \<le> vf (view s) ! m) \<and>
    s' = s\<lparr>open_nodes := open_nodes s', closed := closed s @ [t]\<rparr>"
proof -
  have ne: "nl_heap (open_nodes s) \<noteq> []" "nl_heap (open_nodes s) ! 0 = t"
    using assms(2) by (auto simp: FirstNode_def split: if_splits)
  obtain u l where l: "take_first_node (open_nodes s) = Some (u, l)" "nl_inv l" "u \<in> set (nl_heap (open_nodes s))"
    "set (nl_heap l) = set (nl_heap (open_nodes s)) - {u}" "f_value l = f_value (open_nodes s)"
    "\<forall>p \<in> set (nl_heap (open_nodes s)). f_value (open_nodes s) u \<le> f_value (open_nodes s) p"
    using nl_queue.take_spec [OF astar_okD(3) [OF assms(1)]] ne(1) by auto
  then have u: "GetAndRemoveFirstNode (open_nodes s) = Some (Some u, l)"
    by (auto simp: take_first_node_def split: Option.bind_splits prod.splits)
  then have "u = t" using ne by (auto simp: GetAndRemoveFirstNode_def Let_def split: Option.bind_splits)
  let ?s = "s\<lparr>open_nodes := l, closed := closed s @ [t]\<rparr>"
  have "MoveFirstOpenNodeToClosedList s = Some ?s"
    using u \<open>u = t\<close> by (simp add: MoveFirstOpenNodeToClosedList_def)
  moreover have "astar_ok ?s" using assms(1) l by (auto simp: astar_ok_def)
  moreover have "view ?s = (view s)\<lparr>vo := vo (view s) - {t}, vc := vc (view s) @ [t]\<rparr>"
    using l(4,5) \<open>u = t\<close> by (simp add: view_def)
  moreover have "vf (view s) ! t \<le> vf (view s) ! m" if "m \<in> vo (view s)" for m
    using l(3,6) that \<open>u = t\<close> view_nth(3) [of t s] view_nth(3) [of m s] astar_okD(4) [OF assms(1)] by auto
  ultimately show ?thesis using l(3) \<open>u = t\<close> by auto
qed

definition search_inv ::
    "('n, 'e, 'c::linordered_idom) search_problem \<Rightarrow> 'n set \<Rightarrow> ('n, 'e, 'c) astar \<Rightarrow> bool" where
  "search_inv P S s \<longleftrightarrow> astar_ok s \<and> vinv P S {} (view s) \<and> is_oneway_search s \<and> \<not> is_reverse_search s \<and>
     (\<forall>q \<in> set (closed s). \<not> IsTarget P (vn (view s) ! q) 0)"

definition search_failed :: "('n, 'e, 'c::linordered_idom) search_problem \<Rightarrow> 'n set \<Rightarrow> ('n, 'e, 'c) astar \<Rightarrow> bool" where
  "search_failed P S s \<longleftrightarrow> success_node s = None \<and> (\<forall>n d. path_to P S n d \<longrightarrow> \<not> IsTarget P n 0)"

definition search_succeeded ::
    "('n, 'e, 'c::linordered_idom) search_problem \<Rightarrow> 'n set \<Rightarrow> ('n, 'e, 'c) astar \<Rightarrow> bool" where
  "search_succeeded P S s \<longleftrightarrow> (\<exists>t X. success_node s = Some t \<and> astar_ok s \<and> vinv P S X (view s) \<and>
     t \<in> set (closed s) \<and> IsTarget P (vn (view s) ! t) 0 \<and>
     (\<forall>n d. path_to P S n d \<longrightarrow> IsTarget P n 0 \<longrightarrow> gcost (view s) t \<le> d))"

lemma no_open_node:
  assumes "search_inv P S s" "graph_problem P S" "FirstNode (open_nodes s) = None" "path_to P S n d"
  shows "\<not> IsTarget P n 0"
proof -
  have "vo (view s) = {}" using assms(3) by (simp add: FirstNode_def split: if_splits)
  then obtain p where "p \<in> set (vc (view s))" "vn (view s) ! p = n"
    using path_frontier [OF _ assms(2,4), of "view s"] assms(1) by (auto simp: search_inv_def)
  with assms(1) show ?thesis by (auto simp: search_inv_def)
qed

lemma first_target_cheapest:
  assumes "search_inv P S s" "graph_problem P S" "t \<in> vo (view s)"
    "\<And>m. m \<in> vo (view s) \<Longrightarrow> vf (view s) ! t \<le> vf (view s) ! m" "IsTarget P (vn (view s) ! t) 0"
    "path_to P S n d" "IsTarget P n 0"
  shows "gcost (view s) t \<le> d"
proof -
  have v: "vinv P S {} (view s)" and c: "\<And>q. q \<in> set (vc (view s)) \<Longrightarrow> \<not> IsTarget P (vn (view s) ! q) 0"
    using assms(1) by (auto simp: search_inv_def)
  obtain m where m: "m \<in> vo (view s)" "vf (view s) ! m \<le> d"
    using path_frontier [OF v assms(2,6)] c assms(7) graph_problemD(6) [OF assms(2,7)] by fastforce
  have "t < length (vn (view s))" using view_wfD(5) [OF vinvD(1) [OF v] assms(3)] .
  then have "gcost (view s) t = 0 \<or> vf (view s) ! t = gcost (view s) t"
    using f_value_cases [OF vinvD(2) [OF v]] graph_problemD(6) [OF assms(2,5)] by fastforce
  then show ?thesis using m assms(4) [OF m(1)] path_to_nonneg [OF assms(6,2)] by auto
qed

lemma SearchOneStep_ok:
  assumes inv: "search_inv P S s" and P: "graph_problem P S" and "searching s"
  shows "\<exists>s'. SearchOneStep P s = Some s' \<and>
    (if searching s' then search_inv P S s' \<and> length (closed s') = Suc (length (closed s))
     else search_failed P S s' \<or> search_succeeded P S s')"
proof (cases "FirstNode (open_nodes s)")
  case None
  then show ?thesis using no_open_node [OF inv P None] assms(3)
    by (auto simp: SearchOneStep_def search_failed_def)
next
  case (Some t)
  have s: "astar_ok s" "vinv P S {} (view s)" "is_oneway_search s" "\<not> is_reverse_search s"
    "\<And>q. q \<in> set (closed s) \<Longrightarrow> \<not> IsTarget P (vn (view s) ! q) 0"
    using inv by (auto simp: search_inv_def)
  obtain s1 where s1: "MoveFirstOpenNodeToClosedList s = Some s1" "astar_ok s1" "t \<in> vo (view s)"
    "view s1 = (view s)\<lparr>vo := vo (view s) - {t}, vc := vc (view s) @ [t]\<rparr>"
    "\<And>m. m \<in> vo (view s) \<Longrightarrow> vf (view s) ! t \<le> vf (view s) ! m"
    and eq: "s1 = s\<lparr>open_nodes := open_nodes s1, closed := closed s @ [t]\<rparr>"
    using MoveFirst_ok [OF s(1) Some] by auto
  have t: "t < length (uc_memory (nodestorage s))" using astar_okD(4) [OF s(1)] s1(3) by simp
  have obj: "obj_at s1 t = obj_at s t" by (subst eq) (simp add: obj_at_def)
  have conf: "is_oneway_search s1" "\<not> is_reverse_search s1" "closed s1 = closed s @ [t]" "searching s1"
    using s(3,4) assms(3) by (subst eq, simp)+
  have v1: "vinv P S {(t, c) |c. c \<in> set (succs P (vn (view s) ! t))} (view s1)"
    unfolding s1(4) using vinv_close [OF s(2) P s1(3,5)] by simp
  have nt: "\<not> twoway_connector (obj_at s t)" using astar_okD(5) [OF s(1) t] .
  have target: "IsTarget P (node (obj_at s t)) (CumulativeCost (obj_at s t)) = IsTarget P (vn (view s) ! t) 0"
    using graph_problemD(2) [OF P] view_nth(1) [OF t] by simp
  show ?thesis
  proof (cases "IsTarget P (vn (view s) ! t) 0")
    case True
    let ?s = "s1\<lparr>searching := False, success_node := Some t\<rparr>"
    have "SearchOneStep P s = Some ?s"
      using True assms(3) Some s1(1) conf nt target by (simp add: SearchOneStep_def obj)
    moreover have "view ?s = view s1" by (simp add: view_def)
    moreover have "astar_ok ?s" using s1(2) by (simp add: astar_ok_def)
    moreover have "gcost (view s1) t = gcost (view s) t" "vn (view s1) = vn (view s)" by (simp_all add: s1(4) gcost_def)
    ultimately show ?thesis
      using True v1 conf(3) first_target_cheapest [OF inv P s1(3,5) True] by (auto simp: search_succeeded_def)
  next
    case False
    have ex: "Expand P t s1 = succs P (vn (view s) ! t)"
      using conf(2) graph_problemD(1) [OF P] view_nth(1) [OF t]
      by (auto simp: Expand_def obj Let_def split: option.split)
    obtain s' ns where s': "RegisterCandidates P t (succs P (vn (view s) ! t)) s1 = Some s'" "astar_ok s'"
      "same_config s1 s'" "vinv P S {} (view s')" "vn (view s') = vn (view s) @ ns"
      using RegisterCandidates_ok [OF P s1(2) v1 conf(2)] conf(3) by (auto simp: s1(4))
    have "SearchOneStep P s = Some s'"
      using False assms(3) Some s1(1) conf nt target s'(1) by (simp add: SearchOneStep_def obj ex)
    moreover have "\<not> IsTarget P (vn (view s') ! q) 0" if "q \<in> set (closed s')" for q
    proof -
      have "q < length (vn (view s))" "q = t \<or> q \<in> set (closed s)"
        using that s'(3) conf(3) t view_wfD(4) [OF vinvD(1) [OF s(2)], of q] by (auto simp: same_config_def)
      then show ?thesis using False s(5) [of q] s'(5) by (auto simp: nth_append)
    qed
    ultimately show ?thesis using s' conf by (auto simp: search_inv_def same_config_def)
  qed
qed

lemma closed_le_reachable:
  assumes "vinv P S X v" "finite {n. \<exists>d. path_to P S n d}"
  shows "length (vc v) \<le> card {n. \<exists>d. path_to P S n d}"
proof -
  note w = view_wfD [OF vinvD(1) [OF assms(1)]]
  have "set (vn v) \<subseteq> {n. \<exists>d. path_to P S n d}"
    using stored_path [OF assms(1)] by (fastforce simp: in_set_conv_nth)
  then have "card (set (vn v)) \<le> card {n. \<exists>d. path_to P S n d}" using assms(2) by (intro card_mono)
  moreover have "length (vc v) \<le> length (vn v)"
    using card_mono [of "{..<length (vn v)}" "set (vc v)"] w(4) distinct_card [OF w(8)] by auto
  ultimately show ?thesis using distinct_card [OF w(3)] by simp
qed

lemma Search_loop_ok:
  assumes P: "graph_problem P S" and fin: "finite {n. \<exists>d. path_to P S n d}"
  shows "search_inv P S s \<Longrightarrow> searching s \<Longrightarrow>
    \<exists>s'. Search_loop P s = Some s' \<and> (search_failed P S s' \<or> search_succeeded P S s')"
proof (induction "Suc (card {n. \<exists>d. path_to P S n d}) - length (closed s)" arbitrary: s rule: less_induct)
  case less
  obtain s' where s': "SearchOneStep P s = Some s'"
    "if searching s' then search_inv P S s' \<and> length (closed s') = Suc (length (closed s))
     else search_failed P S s' \<or> search_succeeded P S s'"
    using SearchOneStep_ok [OF less.prems(1) P less.prems(2)] by blast
  have l: "Search_loop P s = Search_loop P s'"
    using s'(1) less.prems(2) by (subst Search_loop.simps) simp
  have "length (closed s) \<le> card {n. \<exists>d. path_to P S n d}"
    using closed_le_reachable [OF _ fin, of "{}" "view s"] less.prems(1) by (simp add: search_inv_def)
  then show ?case
    using l s'(2) less.hyps [of s'] Search_loop.simps [of P s'] by (cases "searching s'") auto
qed

section \<open>Tracing\<close>

lemma ReverseVector_loop_nth:
  "2 * i \<le> length v \<Longrightarrow> length (ReverseVector_loop i v) = length v \<and> (\<forall>k < length v.
   ReverseVector_loop i v ! k = (if k < i \<or> length v - 1 - k < i then v ! (length v - 1 - k) else v ! k))"
proof (induction i arbitrary: v)
  case (Suc i)
  let ?w = "list_swap v i (length v - 1 - i)"
  have IH: "length (ReverseVector_loop i ?w) = length v"
    "\<And>k. k < length v \<Longrightarrow> ReverseVector_loop i ?w ! k =
      (if k < i \<or> length v - 1 - k < i then ?w ! (length v - 1 - k) else ?w ! k)"
    using Suc.IH [of ?w] Suc.prems by auto
  have "ReverseVector_loop i ?w ! k =
      (if k < Suc i \<or> length v - 1 - k < Suc i then v ! (length v - 1 - k) else v ! k)" if k: "k < length v" for k
    unfolding IH(2) [OF k] using Suc.prems k
    by (cases "k = i"; cases "k = length v - 1 - i") (auto simp: nth_list_swap)
  then show ?case using IH(1) by simp
qed simp

lemma ReverseVector_rev: "ReverseVector v = rev v"
proof (rule nth_equalityI)
  show "length (ReverseVector v) = length (rev v)"
    using ReverseVector_loop_nth [of "length v div 2" v] by (simp add: ReverseVector_def)
  fix k assume "k < length (ReverseVector v)"
  then have k: "k < length v" using ReverseVector_loop_nth [of "length v div 2" v] by (simp add: ReverseVector_def)
  have "k = length v - 1 - k" if "\<not> k < length v div 2" "\<not> length v - 1 - k < length v div 2"
    using that k by linarith
  then show "ReverseVector v ! k = rev v ! k"
    using ReverseVector_loop_nth [of "length v div 2" v] k by (auto simp: ReverseVector_def rev_nth)
qed

lemma TracePlan_loop_ok:
  assumes v: "vinv P S X (view s)"
  shows "i < length (closed s) \<Longrightarrow> \<exists>ss. TracePlan_loop s (Some (closed s ! i)) acc = Some (acc @ rev ss) \<and>
    plan_for P S ss (vn (view s) ! (closed s ! i)) (gcost (view s) (closed s ! i))"
proof (induction i arbitrary: acc rule: less_induct)
  case (less i)
  let ?p = "closed s ! i"
  have p: "?p < length (vn (view s))" using less.prems view_wfD(4) [OF vinvD(1) [OF v], of ?p] by simp
  note l = vinvD(2) [OF v p] and pv = view_nth [of ?p s]
  show ?case
  proof (cases "vl (view s) ! ?p")
    case None
    then have "TracePlan_loop s (Some ?p) acc = Some (acc @ rev [\<lparr>step_edge = None, earlier_cost = 0,
        step_edge_cost = 0, step_node = vn (view s) ! ?p\<rparr>])"
      using pv p by (subst TracePlan_loop.simps) (auto simp: primary_link_def split: if_splits)
    then show ?thesis using plan_for.root [of "vn (view s) ! ?p" S P] link_ok_root [OF l None] by metis
  next
    case (Some e)
    then obtain q where q: "parent e = Some q"
        "\<lparr>cand_edge = edge e, cand_edge_cost = edge_cost e, newnode = vn (view s) ! ?p\<rparr>
          \<in> set (succs P (vn (view s) ! q))"
        "cumulative_cost e = gcost (view s) q + edge_cost e" "q \<in> set (vc (view s))"
      using link_okD [OF l] by metis
    obtain j where j: "j < i" "q = closed s ! j" using vinvD(3) [OF v, of i e] less.prems Some q(1) by auto
    let ?t = "\<lparr>step_edge = Some (edge e), earlier_cost = gcost (view s) q, step_edge_cost = edge_cost e,
      step_node = vn (view s) ! ?p\<rparr>"
    have "q < length (vn (view s))" using view_wfD(4) [OF vinvD(1) [OF v] q(4)] .
    then have "TracePlan_loop s (Some ?p) acc = TracePlan_loop s (Some q) (acc @ [?t])"
      using pv p Some q(1) view_nth(4) [of q s]
      by (subst TracePlan_loop.simps) (auto simp: primary_link_def Let_def split: if_splits)
    moreover obtain ss where ss: "TracePlan_loop s (Some q) (acc @ [?t]) = Some ((acc @ [?t]) @ rev ss)"
      "plan_for P S ss (vn (view s) ! q) (gcost (view s) q)"
      using less.IH [OF j(1), of "acc @ [?t]"] less.prems j by auto
    moreover have "plan_for P S (ss @ [?t]) (vn (view s) ! ?p) (gcost (view s) ?p)"
      using plan_for.step [OF ss(2) q(2)] Some q(3) by (simp add: gcost_def)
    ultimately show ?thesis by (intro exI [of _ "ss @ [?t]"]) simp
  qed
qed

section \<open>The start of a search\<close>

fun AddSrcNodes ::
    "('n, 'e, 'c::linordered_idom) search_problem \<Rightarrow> 'n list \<Rightarrow> ('n, 'e, 'c) astar \<Rightarrow> ('n, 'e, 'c) astar option" where
  "AddSrcNodes P [] s = Some s"
| "AddSrcNodes P (n # ns) s = do { s \<leftarrow> AddSrcNode P n s; AddSrcNodes P ns s }"

definition source_view :: "'n list \<Rightarrow> ('n, 'e, 'c::linordered_idom) aview" where
  "source_view ns = \<lparr>vn = ns, vl = replicate (length ns) None, vf = replicate (length ns) 0,
     vo = {..<length ns}, vc = []\<rparr>"

definition fresh_search :: "'n list \<Rightarrow> ('n, 'e, 'c::linordered_idom) astar \<Rightarrow> bool" where
  "fresh_search ns s \<longleftrightarrow> astar_ok s \<and> view s = source_view ns \<and> is_oneway_search s \<and> \<not> is_reverse_search s"

lemma fresh_search_AStar: "fresh_search [] (AStar u)"
  by (simp add: fresh_search_def astar_ok_def AStar_def view_def source_view_def empty_uc_def uc_inv_def
      nl_inv_def nl_idx_def is_heap_def)

lemma AddSrcNode_ok:
  assumes "fresh_search ns s" "n \<notin> set ns"
  shows "\<exists>s'. AddSrcNode P n s = Some s' \<and> fresh_search (ns @ [n]) s'"
proof -
  let ?s = "s\<lparr>src := src s @ [n]\<rparr>"
  let ?nn = "\<lparr>node = n, parent_link = [], twoway_connector = False\<rparr>"
  have s: "astar_ok ?s" "view ?s = source_view ns" "closed ?s = []" "is_oneway_search ?s" "\<not> is_reverse_search ?s"
    using assms(1) by (auto simp: fresh_search_def astar_ok_def view_def source_view_def)
  have new: "Lookup_Mutable node ?nn (nodestorage ?s) = None"
  proof (cases "Lookup_Mutable node ?nn (nodestorage ?s)")
    case (Some p)
    then have "p < length (vn (view ?s))" "vn (view ?s) ! p = n" using Lookup_view [OF s(1)] by auto
    then show ?thesis using assms(2) s(2) by (auto simp: source_view_def)
  qed
  obtain s' where s': "AddNewNode ?nn 0 ?s = Some s'" "astar_ok s'" "same_config ?s s'"
    "view s' = (view ?s)\<lparr>vn := vn (view ?s) @ [n], vl := vl (view ?s) @ [None],
      vf := vf (view ?s) @ [0], vo := insert (length (vn (view ?s))) (vo (view ?s))\<rparr>"
    using AddNewNode_view [OF s(1) _ new, of 0] by (auto simp: primary_link_def)
  have "view s' = source_view (ns @ [n])"
    unfolding s'(4) s(2) by (simp add: source_view_def replicate_append_same [symmetric] lessThan_Suc)
  moreover have "view (s'\<lparr>searching := True\<rparr>) = view s'" "astar_ok (s'\<lparr>searching := True\<rparr>) = astar_ok s'"
    by (simp_all add: view_def astar_ok_def)
  moreover have "AddSrcNode P n s = Some (s'\<lparr>searching := True\<rparr>)"
    using s(3) s'(1) new by (simp add: AddSrcNode_def AddInitialNode_def RegisterNode_def)
  ultimately show ?thesis using s' s(4,5) by (simp add: fresh_search_def same_config_def)
qed

lemma AddSrcNodes_ok:
  "fresh_search ms s \<Longrightarrow> distinct (ms @ ns) \<Longrightarrow> \<exists>s'. AddSrcNodes P ns s = Some s' \<and> fresh_search (ms @ ns) s'"
proof (induction ns arbitrary: ms s)
  case (Cons n ns)
  then obtain s' where "AddSrcNode P n s = Some s'" "fresh_search (ms @ [n]) s'"
    using AddSrcNode_ok [of ms s n P] by auto
  then show ?case using Cons.IH [of "ms @ [n]" s'] Cons.prems(2) by simp
qed simp

lemma fresh_search_inv:
  assumes "fresh_search ns s" "distinct ns"
  shows "search_inv P (set ns) (s\<lparr>searching := b, success_node := t, best_cost := c\<rparr>)" "closed s = []"
proof -
  let ?s = "s\<lparr>searching := b, success_node := t, best_cost := c\<rparr>"
  have v: "view ?s = source_view ns" and ok: "astar_ok ?s" and cl: "closed s = []"
    using assms(1) by (auto simp: fresh_search_def view_def astar_ok_def source_view_def)
  have "vinv P (set ns) {} (source_view ns)"
    using assms(2)
    by (intro vinvI) (auto simp: source_view_def view_wf_def link_ok_def in_set_conv_nth)
  then show "search_inv P (set ns) ?s"
    using assms(1) v ok cl by (simp add: search_inv_def fresh_search_def)
  show "closed s = []" by (fact cl)
qed

text \<open>Tracing never ends on nodes whose primary links stay among themselves.\<close>

definition link_cycle :: "('n, 'e, 'c) astar \<Rightarrow> nat set \<Rightarrow> bool" where
  "link_cycle s C \<longleftrightarrow> (\<forall>q \<in> C. parent_link (obj_at s q) \<noteq> [] \<and>
     (\<exists>r \<in> C. parent (parent_link (obj_at s q) ! 0) = Some r))"

lemma TracePlan_loop_cycle:
  assumes "link_cycle s C" "p \<in> C"
  shows "TracePlan_loop s (Some p) acc = None"
proof -
  have "\<not> (link_cycle s C \<and> (\<exists>p \<in> C. t = Some p))" if "TracePlan_loop s t acc = Some r" for s t acc and r :: "('a, 'b, 'c) tPlanStep list"
  proof (rule TracePlan_loop.raw_induct [where P = "\<lambda>s t acc r. \<not> (link_cycle s C \<and> (\<exists>p \<in> C. t = Some p))", OF _ that])
    fix loop and s :: "('a, 'b, 'c) astar" and t :: "nat option" and acc r :: "('a, 'b, 'c) tPlanStep list"
    assume IH: "\<And>s t acc r. loop s t acc = Some r \<Longrightarrow> \<not> (link_cycle s C \<and> (\<exists>p \<in> C. t = Some p))"
      and b: "(case t of None \<Rightarrow> Some acc
        | Some q \<Rightarrow>
          if parent_link (obj_at s q) = [] then
            Some (acc @ [\<lparr>step_edge = None, earlier_cost = 0, step_edge_cost = 0, step_node = node (obj_at s q)\<rparr>])
          else
            let e = parent_link (obj_at s q) ! 0 in
            (case parent e of
               None \<Rightarrow> None
             | Some r \<Rightarrow>
                 loop s (parent e)
                   (acc @ [\<lparr>step_edge = Some (edge e), earlier_cost = CumulativeCost (obj_at s r),
                      step_edge_cost = edge_cost e, step_node = node (obj_at s q)\<rparr>]))) = Some r"
    show "\<not> (link_cycle s C \<and> (\<exists>p \<in> C. t = Some p))"
    proof
      assume "link_cycle s C \<and> (\<exists>p \<in> C. t = Some p)"
      then obtain p q where p: "link_cycle s C" "t = Some p" "q \<in> C" "parent_link (obj_at s p) \<noteq> []"
        "parent (parent_link (obj_at s p) ! 0) = Some q" by (auto simp: link_cycle_def)
      with b obtain acc' where "loop s (Some q) acc' = Some r" by (auto simp: Let_def)
      with IH p(1,3) show False by blast
    qed
  qed
  then show ?thesis using assms by (metis not_None_eq)
qed

lemma Search_loop_run:
  "((\<lambda>s. Option.bind s (SearchOneStep P)) ^^ k) (Some s) = Some s' \<Longrightarrow> \<not> searching s' \<Longrightarrow> Search_loop P s = Some s'"
proof (induction k arbitrary: s)
  case 0
  then show ?case by (subst Search_loop.simps) simp
next
  case (Suc k)
  then have step: "((\<lambda>s. Option.bind s (SearchOneStep P)) ^^ k) (SearchOneStep P s) = Some s'"
    by (simp only: funpow_Suc_right o_apply bind.bind_lunit)
  have none: "((\<lambda>s. Option.bind s (SearchOneStep P)) ^^ k) None = None" by (induction k) auto
  obtain s1 where s1: "SearchOneStep P s = Some s1" using step none by (cases "SearchOneStep P s") auto
  then have IH: "Search_loop P s1 = Some s'" using Suc.IH [of s1] step Suc.prems(2) by simp
  show ?case
  proof (cases "searching s")
    case True
    then show ?thesis using s1 IH by (subst Search_loop.simps) simp
  next
    case False
    then show ?thesis using s1 IH by (simp add: SearchOneStep_def)
  qed
qed

section \<open>Properties\<close>

text \<open>
  C1. The A* search is correct. Take a search problem on a graph with non-negative costs, a consistent
  estimate and finitely many reachable nodes, and distinct initial nodes. Then \<open>Search\<close> ends, no
  assertion of the search, of the open list or of the node storage fails, and: if a target can be
  reached, the result is a plan (step by step a path of the graph from an initial node to a target,
  with the costs of its steps) and its cost, which is least among all paths to targets; if none can,
  the result is the cost -1 and an empty plan.
\<close>

theorem astar_finds_cheapest_plan:
  assumes "graph_problem P (set ns)" "distinct ns" "finite {n. \<exists>d. path_to P (set ns) n d}"
  shows "\<exists>s cost plan s'. AddSrcNodes P ns (AStar u) = Some s \<and> Search P s = Some (cost, plan, s') \<and>
    (if \<exists>n d. path_to P (set ns) n d \<and> IsTarget P n 0
     then \<exists>t. plan_for P (set ns) plan t cost \<and> IsTarget P t 0 \<and>
       (\<forall>n d. path_to P (set ns) n d \<longrightarrow> IsTarget P n 0 \<longrightarrow> cost \<le> d)
     else cost = - 1 \<and> plan = [])"
proof -
  obtain s where s: "AddSrcNodes P ns (AStar u) = Some s" "fresh_search ns s"
    using AddSrcNodes_ok [OF fresh_search_AStar, of ns] assms(2) by auto
  let ?s = "s\<lparr>searching := True, success_node := None, best_cost := - 1\<rparr>"
  obtain s' where s': "Search_loop P ?s = Some s'" "search_failed P (set ns) s' \<or> search_succeeded P (set ns) s'"
    using Search_loop_ok [OF assms(1,3) fresh_search_inv(1) [OF s(2) assms(2)]] by fastforce
  note cl = fresh_search_inv(2) [OF s(2) assms(2)]
  from s'(2) show ?thesis
  proof
    assume "search_failed P (set ns) s'"
    then have "Search P s = Some (- 1, [], s'\<lparr>best_cost := - 1\<rparr>)"
      "\<not> (\<exists>n d. path_to P (set ns) n d \<and> IsTarget P n 0)"
      using s'(1) cl by (auto simp: Search_def search_failed_def)
    then show ?thesis using s(1) by auto
  next
    assume "search_succeeded P (set ns) s'"
    then obtain t X where t: "success_node s' = Some t" "vinv P (set ns) X (view s')" "t \<in> set (closed s')"
      "IsTarget P (vn (view s') ! t) 0"
      "\<And>n d. path_to P (set ns) n d \<Longrightarrow> IsTarget P n 0 \<Longrightarrow> gcost (view s') t \<le> d"
      by (auto simp: search_succeeded_def)
    obtain ss where ss: "TracePlan_loop s' (Some t) [] = Some (rev ss)"
      "plan_for P (set ns) ss (vn (view s') ! t) (gcost (view s') t)"
      using TracePlan_loop_ok [OF t(2), of _ "[]"] t(3) by (auto simp: in_set_conv_nth)
    have "t < length (vn (view s'))" using view_wfD(4) [OF vinvD(1) [OF t(2)]] t(3) by simp
    then have g: "CumulativeCost (obj_at s' t) = gcost (view s') t" by (simp add: view_nth(4))
    have "Search P s = Some (gcost (view s') t, ss, s'\<lparr>best_cost := gcost (view s') t\<rparr>)"
      using s'(1) cl t(1) ss(1) g by (simp add: Search_def TracePlanFromNode_def ReverseVector_rev Let_def)
    moreover have "\<exists>n d. path_to P (set ns) n d \<and> IsTarget P n 0" using plan_for_path [OF ss(2)] t(4) by blast
    ultimately show ?thesis using s(1) ss(2) t(4,5) by auto
  qed
qed

text \<open>A graph on three nodes, where the direct edge to the target is dearer than the detour.\<close>

definition detour :: "bool \<Rightarrow> (nat, nat, int) search_problem" where
  "detour strong = \<lparr>
     ExpandNode = (\<lambda>n _ _ _.
       if n = 0 then [\<lparr>cand_edge = 7, cand_edge_cost = 1, newnode = 1\<rparr>, \<lparr>cand_edge = 8, cand_edge_cost = 5, newnode = 2\<rparr>]
       else if n = 1 then [\<lparr>cand_edge = 6, cand_edge_cost = 1, newnode = 0\<rparr>, \<lparr>cand_edge = 9, cand_edge_cost = 1, newnode = 2\<rparr>]
       else []),
     ExpandNode_Reverse = (\<lambda>_ _ _ _. []),
     IsTarget = (\<lambda>n _. n = 2), EstimateRemainingCost = (\<lambda>_. 0), EstimateRemainingCost_Reverse = (\<lambda>_. 0),
     StrongDuplicate = (\<lambda>_ _. strong)\<rparr>"

lemma detour_problem: "graph_problem (detour True) S"
  by (auto simp: graph_problem_def succs_def detour_def)

lemma detour_reachable: "path_to (detour True) {0} n d \<Longrightarrow> n \<in> {0, 1, 2}"
  by (induction rule: path_to.induct) (auto simp: succs_def detour_def split: if_splits)

theorem astar_finds_cheapest_plan_witness:
  "\<exists>s cost plan s'. AddSrcNodes (detour True) [0] (AStar 0) = Some s \<and>
     Search (detour True) s = Some (cost, plan, s') \<and> (\<exists>t. plan_for (detour True) {0} plan t cost) \<and> cost \<le> 2"
proof -
  have f: "finite {n. \<exists>d. path_to (detour True) (set [0]) n d}"
    by (rule finite_subset [of _ "{0, 1, 2}"]) (use detour_reachable in auto)
  have "path_to (detour True) {0} 1 1"
    using path_to.edge [OF path_to.source, of 0 "{0}" "\<lparr>cand_edge = 7, cand_edge_cost = 1, newnode = 1\<rparr>" "detour True"]
    by (simp add: succs_def detour_def)
  then have p: "path_to (detour True) {0} 2 2"
    using path_to.edge [of "detour True" "{0}" 1 1 "\<lparr>cand_edge = 9, cand_edge_cost = 1, newnode = 2\<rparr>"]
    by (simp add: succs_def detour_def)
  moreover have "IsTarget (detour True) 2 0" by (simp add: detour_def)
  ultimately show ?thesis
    using astar_finds_cheapest_plan [OF detour_problem _ f, of 0] by (auto split: if_splits)
qed

definition start_search :: "('n, 'e, 'c::linordered_idom) astar \<Rightarrow> ('n, 'e, 'c) astar" where
  "start_search s = s\<lparr>searching := True, success_node := None, best_cost := - 1\<rparr>"

definition detour_end :: "(nat, nat, int) astar option" where
  "detour_end = ((\<lambda>s. Option.bind s (SearchOneStep (detour False))) ^^ 3)
     (map_option start_search (AddSrcNodes (detour False) [0] (AStar 0)))"

lemma detour_end_value:
  "map_option (\<lambda>s. (map (\<lambda>q. map parent (parent_link (obj_at s q))) [0, 1, 2], searching s, success_node s, closed s)) detour_end
   = Some ([[Some 1], [Some 0], [Some 1, Some 0]], False, Some 2, [0, 1, 2])"
  by code_simp

lemma detour_start_closed:
  "map_option closed (AddSrcNodes (detour False) [0] (AStar 0)) = Some []"
  by code_simp

text \<open>
  C39. A weak duplicate of the initial node gives the root a parent. On the three-node graph with
  an edge back to the initial node, and with no strong duplicates, the search reaches the target, but
  by then the primary links of the initial node and its successor point to each other, so tracing
  the plan runs around in a circle and \<open>Search\<close> does not return.
\<close>

theorem astar_weak_duplicate_of_root:
  "\<exists>s s'. AddSrcNodes (detour False) [0] (AStar 0) = Some s \<and>
     Search_loop (detour False) (s\<lparr>searching := True, success_node := None, best_cost := - 1\<rparr>) = Some s' \<and>
     success_node s' = Some 2 \<and> map parent (parent_link (obj_at s' 0)) = [Some 1] \<and>
     map parent (parent_link (obj_at s' 1)) = [Some 0] \<and> map parent (parent_link (obj_at s' 2)) = [Some 1, Some 0] \<and>
     Search (detour False) s = None"
proof -
  obtain s' where e: "detour_end = Some s'" and s': "map parent (parent_link (obj_at s' 0)) = [Some 1]"
    "map parent (parent_link (obj_at s' 1)) = [Some 0]" "map parent (parent_link (obj_at s' 2)) = [Some 1, Some 0]"
    "\<not> searching s'" "success_node s' = Some 2"
    using detour_end_value by auto
  obtain s where s: "AddSrcNodes (detour False) [0] (AStar 0) = Some s" "closed s = []"
    using detour_start_closed by auto
  have l: "Search_loop (detour False) (start_search s) = Some s'"
    using e s s'(4) unfolding detour_end_def by (intro Search_loop_run [where k = 3]) simp_all
  have "link_cycle s' {0, 1, 2}"
    using s'(1-3) by (auto simp: link_cycle_def map_eq_Cons_conv)
  then have "TracePlanFromNode s' (Some 2) = None"
    using TracePlan_loop_cycle [of s' "{0, 1, 2}" 2 "[]"] by (simp add: TracePlanFromNode_def)
  then have "Search (detour False) s = None"
    using l s(2) s'(5) by (simp add: Search_def start_search_def)
  with s l s' show ?thesis by (auto simp: start_search_def)
qed

end
