(* ===== verification/CInt.thy ===== *)
theory CInt
  imports Prelude "HOL-Library.Signed_Division"
begin

text \<open>
  C arithmetic on \<open>int\<close>. Division and remainder truncate towards zero (\<open>sdiv\<close>, \<open>smod\<close>).
  Where the width matters, \<open>int32\<close> reduces a value to the 32 bits of an \<open>int\<close> in two's
  complement. The macro \<open>MOD\<close> is that of \<open>base/extra_defs.h\<close>.
\<close>

definition int32 :: "int \<Rightarrow> int" where
  "int32 x = (x + 2 ^ 31) mod 2 ^ 32 - 2 ^ 31"

definition is_int32 :: "int \<Rightarrow> bool" where
  "is_int32 x \<longleftrightarrow> - (2 ^ 31) \<le> x \<and> x < 2 ^ 31"

lemma int32_id [simp]: "is_int32 x \<Longrightarrow> int32 x = x"
  by (simp add: int32_def is_int32_def)

lemma is_int32_int32 [simp]: "is_int32 (int32 x)"
  using pos_mod_bound [of "2 ^ 32" "x + 2 ^ 31"] pos_mod_sign [of "2 ^ 32" "x + 2 ^ 31"]
  by (simp add: int32_def is_int32_def)

text \<open>The conversion of a value to a (signed) \<open>char\<close>.\<close>

definition int8 :: "int \<Rightarrow> int" where
  "int8 x = (x + 128) mod 256 - 128"

lemma int8_id [simp]: "- 128 \<le> x \<Longrightarrow> x < 128 \<Longrightarrow> int8 x = x"
  by (simp add: int8_def)

lemma sdiv_nonneg [simp]: "0 \<le> a \<Longrightarrow> 0 < b \<Longrightarrow> (a :: int) sdiv b = a div b"
  by (cases "a = 0") (simp_all add: signed_divide_int_def)

lemma smod_nonneg [simp]: "0 \<le> a \<Longrightarrow> 0 < b \<Longrightarrow> (a :: int) smod b = a mod b"
  by (cases "a = 0") (simp_all add: signed_modulo_int_def)

lemma smod_eq_0_iff: "0 < b \<Longrightarrow> (a :: int) smod b = 0 \<longleftrightarrow> a mod b = 0"
  by (auto simp: signed_modulo_int_def sgn_if mod_eq_0_iff_dvd split: if_splits)

lemma sdiv_exact: "0 < b \<Longrightarrow> (a :: int) mod b = 0 \<Longrightarrow> a sdiv b = a div b"
  by (auto simp: signed_divide_int_def sgn_if abs_if mod_eq_0_iff_dvd dvd_neg_div)

definition MOD :: "int \<Rightarrow> int \<Rightarrow> int" where
  "MOD a b = (if 0 \<le> a then a smod b else (- ((- a) smod b) + b) smod b)"

text \<open>The macro computes the non-negative remainder its comment promises.\<close>

lemma MOD_mod: "0 < b \<Longrightarrow> MOD a b = a mod b"
proof (cases "0 \<le> a")
  case False
  assume b: "0 < b"
  have m: "0 \<le> (- a) mod b" "(- a) mod b < b" using b by simp_all
  have "(- a) smod b = (- a) mod b" using False b by (intro smod_nonneg) auto
  then have "MOD a b = (- ((- a) mod b) + b) smod b"
    using False by (simp only: MOD_def if_False)
  also have "\<dots> = (- ((- a) mod b) + b) mod b"
    using m b by (intro smod_nonneg) (auto intro: less_imp_le)
  also have "\<dots> = a mod b" by (simp add: mod_minus_eq)
  finally show ?thesis .
qed (simp add: MOD_def)

end
