(* ===== verification/Calendar.thy ===== *)
theory Calendar
  imports CInt
begin

text \<open>
  \<open>util/time/calendarutil.h\<close> and \<open>calendarutil.cc\<close>: leap years, day-of-year numbers, the
  number of days since 1 January 1970 and back, and the day of the week. A read outside an array
  and a failing \<open>ASSERT\<close> are \<open>None\<close>; the search loop of \<open>ElapseFrom1970\<close>, which
  does not return for every argument, is a partial function (\<open>None\<close>: it never returns). The
  day counts stay far below \<open>2 ^ 31\<close> for any year below five million.
\<close>

section \<open>Definitions\<close>

definition IsLeapYear :: "int \<Rightarrow> bool" where
  "IsLeapYear year = (if year smod 100 = 0 then year smod 400 = 0 else year smod 4 = 0)"

definition TotalDaysInYear :: "int \<Rightarrow> int" where
  "TotalDaysInYear year = (if IsLeapYear year then 366 else 365)"

definition num_days :: "int list" where
  "num_days = [31, 28, 31, 30, 31, 30, 31, 31, 30, 31, 30, 31]"

definition MaxDaysInMonth :: "int \<Rightarrow> int \<Rightarrow> int option" where
  "MaxDaysInMonth year month =
     (if month < 0 then Some 31
      else do {
        ASSERT (1 \<le> month \<and> month \<le> 12);
        if month = 2 then Some (if IsLeapYear year then 29 else 28)
        else Some (num_days ! nat (month - 1))
      })"

definition day_1_seq :: "int list" where
  "day_1_seq = [0, 31, 59, 90, 120, 151, 181, 212, 243, 273, 304, 334]"

definition GetDayOfYear :: "int \<Rightarrow> int \<Rightarrow> int \<Rightarrow> int option" where
  "GetDayOfYear year month day = do {
     ASSERT (1 \<le> month \<and> month \<le> 12);
     let seq = day_1_seq ! nat (month - 1) + day;
     Some (if IsLeapYear year \<and> 3 \<le> month then seq + 1 else seq)
   }"

text \<open>The table behind \<open>FindByDayNum\<close>: entry \<open>seq\<close> holds the month and the day.\<close>

definition DayNumMapping_NonLeap :: "(int \<times> int) list" where
  "DayNumMapping_NonLeap =
     concat (map (\<lambda>i. map (\<lambda>j. (i, j)) [1..case MaxDaysInMonth 2007 i of Some n \<Rightarrow> n | None \<Rightarrow> 0]) [1..12])"

definition FindByDayNum :: "int \<Rightarrow> int \<Rightarrow> (int \<times> int) option" where
  "FindByDayNum year day_seq =
     (if IsLeapYear year then do {
        ASSERT (1 \<le> day_seq \<and> day_seq \<le> 366);
        if day_seq < 60 then Some (DayNumMapping_NonLeap ! nat (day_seq - 1))
        else if day_seq = 60 then Some (2, 29)
        else Some (DayNumMapping_NonLeap ! nat (day_seq - 1 - 1))
      }
      else do {
        ASSERT (1 \<le> day_seq \<and> day_seq \<le> 365);
        Some (DayNumMapping_NonLeap ! nat (day_seq - 1))
      })"

definition DaysSince1970 :: "int \<Rightarrow> int \<Rightarrow> int \<Rightarrow> int option" where
  "DaysSince1970 year month day =
     (if year < 1970 then Some 0
      else
        let num_years = year - 1970;
            num_4_multiples = (year - 1969) sdiv 4;
            num_100_multiples = (year - 1901) sdiv 100;
            num_400_multiples = (year - 1601) sdiv 400;
            num_leap_years = num_4_multiples - num_100_multiples + num_400_multiples;
            days_until_jan_1 = num_years * 365 + num_leap_years
        in do {
          day_of_year \<leftarrow> GetDayOfYear year month day;
          Some (days_until_jan_1 + (day_of_year - 1))
        })"

partial_function (option) ElapseFrom1970_loop :: "int \<Rightarrow> int \<Rightarrow> (int \<times> int) option" where
  "ElapseFrom1970_loop num y = do {
     d \<leftarrow> DaysSince1970 y 1 1;
     if num < d then ElapseFrom1970_loop num (y - 1) else Some (y, d)
   }"

definition ElapseFrom1970 :: "int \<Rightarrow> (int \<times> int \<times> int) option" where
  "ElapseFrom1970 num = do {
     let max_years = num sdiv 365;
     (y, d) \<leftarrow> ElapseFrom1970_loop num (1970 + max_years);
     let day_seq = num - d + 1;
     (month, day) \<leftarrow> FindByDayNum y day_seq;
     Some (y, month, day)
   }"

definition GetDayOfWeek :: "int \<Rightarrow> int \<Rightarrow> int \<Rightarrow> int option" where
  "GetDayOfWeek year month day = do {
     days_since_1970 \<leftarrow> DaysSince1970 year month day;
     let d = (5 + days_since_1970) smod 7;
     Some (if d = 0 then 7 else d)
   }"

section \<open>The calendar as the definitions have it\<close>

definition valid_date :: "int \<Rightarrow> int \<Rightarrow> int \<Rightarrow> bool" where
  "valid_date y m d \<longleftrightarrow> 1 \<le> m \<and> m \<le> 12 \<and> 1 \<le> d \<and> (\<exists>n. MaxDaysInMonth y m = Some n \<and> d \<le> n)"

text \<open>Days from 1 January 1970 to 1 January of year \<open>y\<close>.\<close>

definition year_start :: "int \<Rightarrow> int" where
  "year_start y = (y - 1970) * 365 + ((y - 1969) div 4 - (y - 1901) div 100 + (y - 1601) div 400)"

definition day_of_year :: "int \<Rightarrow> int \<Rightarrow> int \<Rightarrow> int" where
  "day_of_year y m d = day_1_seq ! nat (m - 1) + d + (if IsLeapYear y \<and> 3 \<le> m then 1 else 0)"

definition day_number :: "int \<Rightarrow> int \<Rightarrow> int \<Rightarrow> int" where
  "day_number y m d = year_start y + day_of_year y m d - 1"

lemma IsLeapYear_iff: "IsLeapYear y \<longleftrightarrow> 4 dvd y \<and> (100 dvd y \<longrightarrow> 400 dvd y)"
proof -
  have "100 dvd y \<Longrightarrow> 4 dvd y" by (rule dvd_trans [of _ 100]) auto
  then show ?thesis by (auto simp: IsLeapYear_def smod_eq_0_iff mod_eq_0_iff_dvd)
qed

lemma div_step:
  fixes y k :: int
  assumes "0 < k"
  shows "(y + 1) div k = y div k + (if k dvd y + 1 then 1 else 0)"
proof -
  define q r where "q = y div k" and "r = y mod k"
  have y: "y = k * q + r" "0 \<le> r" "r < k" using assms by (simp_all add: q_def r_def)
  show ?thesis
  proof (cases "r + 1 = k")
    case True
    then have "y + 1 = k * (q + 1)" using y by (simp add: algebra_simps)
    then show ?thesis using assms by (simp add: q_def)
  next
    case False
    have e: "y + 1 = k * q + (r + 1)" using y(1) by simp
    have "(y + 1) mod k = r + 1" "(y + 1) div k = q"
      using int_mod_pos_eq [OF e] int_div_pos_eq [OF e] y(2,3) False by simp_all
    then show ?thesis using y(2) by (simp add: q_def dvd_eq_mod_eq_0)
  qed
qed

lemma dvd_shift: "k dvd y - k * c \<longleftrightarrow> k dvd y" for k y c :: int
  by (metis diff_add_cancel dvd_add_left_iff dvd_triv_left)

lemma div_step_shift:
  "0 < k \<Longrightarrow> a = k * c + 1 \<Longrightarrow> (y + 1 - a) div k = (y - a) div k + (if k dvd y then 1 else 0)" for k y a c :: int
proof -
  assume k: "0 < k" and a: "a = k * c + 1"
  have d: "k dvd y - a + 1 \<longleftrightarrow> k dvd y" using dvd_shift [of k y c] a by simp
  have e: "y + 1 - a = y - a + 1" by simp
  show ?thesis unfolding e div_step [OF k, of "y - a"] d ..
qed

lemma leap_count:
  "(R \<Longrightarrow> Q) \<Longrightarrow> (Q \<Longrightarrow> P) \<Longrightarrow>
   (y + 1 - 1970) * 365 + (a + (if P then 1 else 0) - (b + (if Q then 1 else 0)) + (c + (if R then 1 else 0))) =
   (y - 1970) * 365 + (a - b + c) + (if P \<and> (Q \<longrightarrow> R) then 366 else 365 :: int)"
  by (cases P; cases Q; cases R) simp_all

lemma year_start_Suc: "year_start (y + 1) = year_start y + TotalDaysInYear y"
proof -
  define a b c where "a = (y - 1969) div 4" "b = (y - 1901) div 100" "c = (y - 1601) div 400"
  have s: "(y + 1 - 1969) div 4 = a + (if 4 dvd y then 1 else 0)"
      "(y + 1 - 1901) div 100 = b + (if 100 dvd y then 1 else 0)"
      "(y + 1 - 1601) div 400 = c + (if 400 dvd y then 1 else 0)"
    unfolding a_b_c_def
    by (intro div_step_shift [of 4 1969 492] div_step_shift [of 100 1901 19] div_step_shift [of 400 1601 4]; simp)+
  have "100 dvd y \<Longrightarrow> 4 dvd y" by (rule dvd_trans [of _ 100]) simp_all
  moreover have "400 dvd y \<Longrightarrow> 100 dvd y" by (rule dvd_trans [of _ 400]) simp_all
  ultimately show ?thesis
    unfolding year_start_def TotalDaysInYear_def IsLeapYear_iff s a_b_c_def [symmetric]
    by (rule leap_count [rotated])
qed

lemma TotalDaysInYear_bounds: "365 \<le> TotalDaysInYear y" "TotalDaysInYear y \<le> 366"
  by (simp_all add: TotalDaysInYear_def)

lemma year_start_1970 [simp]: "year_start 1970 = 0"
  by (simp add: year_start_def)

lemma year_start_mono_step: "y \<le> y' \<Longrightarrow> year_start y + 365 * (y' - y) \<le> year_start y'"
proof (induction y' rule: int_ge_induct)
  case (step i)
  then show ?case using TotalDaysInYear_bounds(1) [of i] by (simp add: year_start_Suc)
qed simp

lemma year_start_ge: "1970 \<le> y \<Longrightarrow> 365 * (y - 1970) \<le> year_start y"
  using year_start_mono_step [of 1970 y] by simp

lemma year_start_mono: "y \<le> y' \<Longrightarrow> year_start y \<le> year_start y'"
  using year_start_mono_step [of y y'] by simp

lemma GetDayOfYear_eq:
  "GetDayOfYear y m d = (if 1 \<le> m \<and> m \<le> 12 then Some (day_of_year y m d) else None)"
  by (cases "1 \<le> m \<and> m \<le> 12") (simp_all add: GetDayOfYear_def day_of_year_def ASSERT_def Let_def)

lemma DaysSince1970_eq:
  "DaysSince1970 y m d =
     (if y < 1970 then Some 0 else if 1 \<le> m \<and> m \<le> 12 then Some (day_number y m d) else None)"
  by (simp add: DaysSince1970_def GetDayOfYear_eq day_number_def year_start_def Let_def)

lemma day_number_Jan_1: "day_number y 1 1 = year_start y"
  by (simp add: day_number_def day_of_year_def day_1_seq_def)

section \<open>Day-of-year numbers and back\<close>

text \<open>The table is checked cell by cell against the two other tables.\<close>

definition table_row_ok :: "bool \<Rightarrow> int \<times> int \<times> int \<Rightarrow> bool" where
  "table_row_ok leap = (\<lambda>(s, m, d).
     1 \<le> m \<and> m \<le> 12 \<and> 1 \<le> d
     \<and> d \<le> (if m = 2 then (if leap then 29 else 28) else num_days ! nat (m - 1))
     \<and> day_1_seq ! nat (m - 1) + d + (if leap \<and> 3 \<le> m then 1 else 0) = s)"

lemma table_checked:
  "length DayNumMapping_NonLeap = 365"
  "list_all (table_row_ok False) (zip [1..365] DayNumMapping_NonLeap)"
  "list_all (table_row_ok True) (zip [1..59] (take 59 DayNumMapping_NonLeap))"
  "list_all (table_row_ok True) (zip [61..366] (drop 59 DayNumMapping_NonLeap))"
  by code_simp+

lemma list_all_zip_upto:
  assumes "list_all P (zip [a..b] xs)" "i < length xs" "int i \<le> b - a"
  shows "P (a + int i, xs ! i)"
proof -
  have i: "i < length (zip [a..b] xs)" using assms(2,3) by simp
  then have "P (zip [a..b] xs ! i)" using assms(1) by (simp only: list_all_length)
  then show ?thesis using i assms(3) by simp
qed

lemma month_cases: "1 \<le> m \<Longrightarrow> m \<le> 12 \<Longrightarrow>
    m = 1 \<or> m = 2 \<or> m = 3 \<or> m = 4 \<or> m = 5 \<or> m = 6 \<or> m = 7 \<or> m = 8 \<or> m = 9 \<or> m = 10 \<or> m = 11 \<or> m = (12::int)"
  by presburger

lemma MaxDaysInMonth_eq:
  "1 \<le> m \<Longrightarrow> m \<le> 12 \<Longrightarrow>
   MaxDaysInMonth y m = Some (if m = 2 then (if IsLeapYear y then 29 else 28) else num_days ! nat (m - 1))"
  by (simp add: MaxDaysInMonth_def)

lemma table_row_valid:
  "table_row_ok leap (s, m, d) \<Longrightarrow> leap = IsLeapYear y \<Longrightarrow> valid_date y m d \<and> day_of_year y m d = s"
  by (auto simp: table_row_ok_def valid_date_def MaxDaysInMonth_eq day_of_year_def)

lemma FindByDayNum_ok:
  assumes "1 \<le> s" "s \<le> TotalDaysInYear y"
  shows "\<exists>m d. FindByDayNum y s = Some (m, d) \<and> valid_date y m d \<and> day_of_year y m d = s"
proof -
  let ?t = DayNumMapping_NonLeap
  consider (plain) "\<not> IsLeapYear y" | (early) "IsLeapYear y" "s < 60" | (leap) "IsLeapYear y" "s = 60"
    | (late) "IsLeapYear y" "60 < s" by linarith
  then show ?thesis
  proof cases
    case plain
    then have s: "nat (s - 1) < length ?t" "int (nat (s - 1)) = s - 1" "s \<le> 365"
      using assms by (simp_all add: TotalDaysInYear_def table_checked(1))
    obtain m d where md: "?t ! nat (s - 1) = (m, d)" by fastforce
    have "table_row_ok False (s, m, d)"
      using list_all_zip_upto [OF table_checked(2) s(1)] s(2,3) md by simp
    then show ?thesis using table_row_valid [of False s m d y] plain md assms s(3)
      by (simp add: FindByDayNum_def)
  next
    case early
    then have s: "nat (s - 1) < length (take 59 ?t)" "int (nat (s - 1)) = s - 1" "nat (s - 1) < 59"
      using assms by (simp_all add: table_checked(1))
    obtain m d where md: "?t ! nat (s - 1) = (m, d)" by fastforce
    have "table_row_ok True (s, m, d)"
      using list_all_zip_upto [OF table_checked(3) s(1)] s(2,3) md early by simp
    then show ?thesis using table_row_valid [of True s m d y] md assms early
      by (simp add: FindByDayNum_def)
  next
    case leap
    then show ?thesis
      by (simp add: FindByDayNum_def valid_date_def MaxDaysInMonth_eq day_of_year_def day_1_seq_def)
  next
    case late
    then have s: "nat (s - 61) < length (drop 59 ?t)" "int (nat (s - 61)) = s - 61" "s \<le> 366"
        "nat (s - 2) = 59 + nat (s - 61)"
      using assms by (simp_all add: table_checked(1) TotalDaysInYear_def)
    obtain m d where md: "?t ! nat (s - 2) = (m, d)" by fastforce
    have "table_row_ok True (s, m, d)"
      using list_all_zip_upto [OF table_checked(4) s(1)] s md late by (simp add: table_checked(1))
    then show ?thesis using table_row_valid [of True s m d y] md assms late s(3)
      by (simp add: FindByDayNum_def)
  qed
qed

section \<open>The order of dates\<close>

definition month_start :: "int \<Rightarrow> int \<Rightarrow> int" where
  "month_start y m = day_of_year y m 0"

lemma day_of_year_month: "day_of_year y m d = month_start y m + d"
  by (simp add: month_start_def day_of_year_def)

lemma month_start_Suc:
  "1 \<le> m \<Longrightarrow> m < 12 \<Longrightarrow> MaxDaysInMonth y m = Some (month_start y (m + 1) - month_start y m)"
  using month_cases [of m]
  by (auto simp: MaxDaysInMonth_eq month_start_def day_of_year_def day_1_seq_def num_days_def)

lemma month_start_1 [simp]: "month_start y 1 = 0"
  by (simp add: month_start_def day_of_year_def day_1_seq_def)

lemma month_start_12: "month_start y 12 = TotalDaysInYear y - 31"
  by (simp add: month_start_def day_of_year_def day_1_seq_def TotalDaysInYear_def)

lemma MaxDaysInMonth_12 [simp]: "MaxDaysInMonth y 12 = Some 31"
  by (simp add: MaxDaysInMonth_eq num_days_def)

lemma MaxDaysInMonth_bounds: "1 \<le> m \<Longrightarrow> m \<le> 12 \<Longrightarrow> \<exists>n. MaxDaysInMonth y m = Some n \<and> 28 \<le> n \<and> n \<le> 31"
  using month_cases [of m] by (auto simp: MaxDaysInMonth_eq num_days_def)

lemma month_start_mono:
  assumes "1 \<le> m" "m < m'" "m' \<le> 12" "MaxDaysInMonth y m = Some n"
  shows "month_start y m + n \<le> month_start y m'"
proof -
  have "m + 1 \<le> m'" using assms(2) by simp
  then show ?thesis using assms(3)
  proof (induction m' rule: int_ge_induct)
    case base
    then show ?case using month_start_Suc [of m y] assms by simp
  next
    case (step i)
    then have "1 \<le> i" "i < 12" using assms(1) by simp_all
    then have "MaxDaysInMonth y i = Some (month_start y (i + 1) - month_start y i)"
      and "\<exists>n. MaxDaysInMonth y i = Some n \<and> 28 \<le> n \<and> n \<le> 31"
      using month_start_Suc MaxDaysInMonth_bounds [of i y] by simp_all
    with step show ?case by auto
  qed
qed

lemma valid_dateE:
  assumes "valid_date y m d"
  obtains n where "1 \<le> m" "m \<le> 12" "1 \<le> d" "d \<le> n" "MaxDaysInMonth y m = Some n" "28 \<le> n" "n \<le> 31"
  using assms MaxDaysInMonth_bounds [of m y] by (auto simp: valid_date_def)

lemma day_of_year_bounds:
  assumes "valid_date y m d" shows "1 \<le> day_of_year y m d" "day_of_year y m d \<le> TotalDaysInYear y"
proof -
  obtain n where n: "1 \<le> m" "m \<le> 12" "1 \<le> d" "d \<le> n" "MaxDaysInMonth y m = Some n"
    using assms by (rule valid_dateE)
  have "month_start y 1 \<le> month_start y m"
  proof (cases "m = 1")
    case False
    with n have "1 < m" by simp
    then show ?thesis
      using month_start_mono [of 1 m y] n MaxDaysInMonth_bounds [of 1 y] by fastforce
  qed simp
  then show "1 \<le> day_of_year y m d" using n by (simp add: day_of_year_month)
  show "day_of_year y m d \<le> TotalDaysInYear y"
  proof (cases "m = 12")
    case True
    then show ?thesis using n by (simp add: day_of_year_month month_start_12)
  next
    case False
    then show ?thesis
      using month_start_mono [of m 12 y n] n month_start_12 [of y] by (simp add: day_of_year_month)
  qed
qed

text \<open>Dates are ordered by year, month and day; the day number orders valid dates alike.\<close>

definition date_less :: "int \<times> int \<times> int \<Rightarrow> int \<times> int \<times> int \<Rightarrow> bool" where
  "date_less a b = (case (a, b) of ((y, m, d), (y', m', d')) \<Rightarrow>
     y < y' \<or> y = y' \<and> (m < m' \<or> m = m' \<and> d < d'))"

lemma day_number_less:
  assumes "valid_date y m d" "valid_date y' m' d'" "date_less (y, m, d) (y', m', d')"
  shows "day_number y m d < day_number y' m' d'"
proof (cases "y < y'")
  case True
  then have "year_start y + TotalDaysInYear y \<le> year_start y'"
    using year_start_mono [of "y + 1" y'] by (simp add: year_start_Suc)
  then show ?thesis
    using day_of_year_bounds [OF assms(1)] day_of_year_bounds [OF assms(2)] by (simp add: day_number_def)
next
  case False
  with assms(3) have y: "y = y'" and md: "m < m' \<or> m = m' \<and> d < d'" by (auto simp: date_less_def)
  obtain n where n: "1 \<le> m" "d \<le> n" "MaxDaysInMonth y m = Some n"
    using assms(1) by (rule valid_dateE)
  have d': "1 \<le> d'" "m' \<le> 12" using assms(2) by (auto simp: valid_date_def)
  from md have "month_start y m + d < month_start y m' + d'"
    using month_start_mono [of m m' y n] n d' by auto
  then show ?thesis using y by (simp add: day_number_def day_of_year_month)
qed

lemma date_less_linear: "date_less a b \<or> a = b \<or> date_less b a"
  by (cases a; cases b) (auto simp: date_less_def)

lemma day_number_less_iff:
  assumes "valid_date y m d" "valid_date y' m' d'"
  shows "day_number y m d < day_number y' m' d' \<longleftrightarrow> date_less (y, m, d) (y', m', d')"
  using day_number_less [OF assms] day_number_less [OF assms(2,1)]
    date_less_linear [of "(y, m, d)" "(y', m', d')"] by fastforce

lemma day_number_inj:
  assumes "valid_date y m d" "valid_date y' m' d'" "day_number y m d = day_number y' m' d'"
  shows "(y, m, d) = (y', m', d')"
  using day_number_less [OF assms(1,2)] day_number_less [OF assms(2,1)]
    date_less_linear [of "(y, m, d)" "(y', m', d')"] assms(3) by fastforce

section \<open>Day numbers and back\<close>

lemma ElapseFrom1970_loop_ok:
  assumes "0 \<le> num" "1970 \<le> y" "num < year_start (y + 1)"
  shows "\<exists>y'. 1970 \<le> y' \<and> ElapseFrom1970_loop num y = Some (y', year_start y') \<and>
    year_start y' \<le> num \<and> num < year_start (y' + 1)"
  using assms(2,3)
proof (induction y rule: int_ge_induct)
  case base
  then show ?case using assms(1)
    by (subst ElapseFrom1970_loop.simps) (simp add: DaysSince1970_eq day_number_Jan_1)
next
  case (step i)
  show ?case
  proof (cases "num < year_start (i + 1)")
    case True
    have "ElapseFrom1970_loop num (i + 1) = ElapseFrom1970_loop num i"
      using True step.hyps
      by (subst ElapseFrom1970_loop.simps) (simp add: DaysSince1970_eq day_number_Jan_1)
    with step.IH True show ?thesis by simp
  next
    case False
    then have "ElapseFrom1970_loop num (i + 1) = Some (i + 1, year_start (i + 1))"
      using step.hyps
      by (subst ElapseFrom1970_loop.simps) (simp add: DaysSince1970_eq day_number_Jan_1)
    with False step show ?thesis by (intro exI [of _ "i + 1"]) simp
  qed
qed

lemma ElapseFrom1970_ok:
  assumes "0 \<le> num"
  shows "\<exists>y m d. ElapseFrom1970 num = Some (y, m, d) \<and> 1970 \<le> y \<and> valid_date y m d \<and> day_number y m d = num"
proof -
  let ?y = "1970 + num div 365"
  have q: "0 \<le> num div 365" using assms by (simp add: pos_imp_zdiv_nonneg_iff)
  have "num < 365 * (num div 365 + 1)"
    using assms by (simp add: distrib_left)
  also have "\<dots> \<le> year_start (?y + 1)" using year_start_ge [of "?y + 1"] q by simp
  finally obtain y where y: "1970 \<le> y" "ElapseFrom1970_loop num ?y = Some (y, year_start y)"
    "year_start y \<le> num" "num < year_start (y + 1)"
    using ElapseFrom1970_loop_ok [OF assms, of ?y] q by auto
  then obtain m d where md: "FindByDayNum y (num - year_start y + 1) = Some (m, d)" "valid_date y m d"
    "day_of_year y m d = num - year_start y + 1"
    using FindByDayNum_ok [of "num - year_start y + 1" y] by (auto simp: year_start_Suc)
  then show ?thesis using y assms by (simp add: ElapseFrom1970_def day_number_def)
qed

lemma day_number_nonneg: "1970 \<le> y \<Longrightarrow> valid_date y m d \<Longrightarrow> 0 \<le> day_number y m d"
  using year_start_ge [of y] day_of_year_bounds [of y m d] by (simp add: day_number_def)

lemma ElapseFrom1970_loop_returns_imp:
  assumes "ElapseFrom1970_loop num y = Some r"
  shows "0 \<le> num"
proof (rule ElapseFrom1970_loop.raw_induct [where P = "\<lambda>num y r. 0 \<le> num", OF _ assms])
  fix loop num y r
  assume IH: "\<And>num y r. loop num y = Some r \<Longrightarrow> 0 \<le> num"
    and r: "DaysSince1970 y 1 1 \<bind> (\<lambda>d. if num < d then loop num (y - 1) else Some (y, d)) = Some r"
  then obtain d where d: "DaysSince1970 y 1 1 = Some d" "(if num < d then loop num (y - 1) else Some (y, d)) = Some r"
    by (auto split: bind_splits)
  have "0 \<le> d" using d(1) year_start_ge [of y]
    by (auto simp: DaysSince1970_eq day_number_Jan_1 split: if_splits)
  then show "0 \<le> num" using d(2) IH by (cases "num < d") auto
qed

lemma GetDayOfWeek_eq:
  assumes "DaysSince1970 y m d = Some n" "0 \<le> n"
  shows "GetDayOfWeek y m d = Some ((4 + n) mod 7 + 1)"
proof -
  define r where "r = (4 + n) mod 7"
  have r: "0 \<le> r" "r < 7" by (simp_all add: r_def)
  have "(5 + n) mod 7 = (r + 1) mod 7"
    using mod_add_left_eq [of "4 + n" 7 1] by (simp add: r_def add.commute)
  also have "\<dots> = (if r = 6 then 0 else r + 1)" using r by simp
  finally show ?thesis using assms r by (simp add: GetDayOfWeek_def Let_def r_def [symmetric])
qed

section \<open>Properties\<close>





text \<open>
  The day of the week is right: 1 January 1970 is a Thursday (5), and of two dates that lie
  \<open>k\<close> days apart the later one is \<open>k\<close> weekdays on, counted from 1 (Sunday) to 7.
\<close>

theorem day_of_week_ok:
  assumes "1970 \<le> y" "valid_date y m d" "ElapseFrom1970 (n + k) = Some (y', m', d')"
    and "DaysSince1970 y m d = Some n" "0 \<le> k"
  shows "\<exists>w w'. GetDayOfWeek 1970 1 1 = Some 5 \<and> GetDayOfWeek y m d = Some w \<and>
    GetDayOfWeek y' m' d' = Some w' \<and> 1 \<le> w \<and> w \<le> 7 \<and> w' = (w - 1 + k) mod 7 + 1"
proof -
  have n: "0 \<le> n" using assms(1,2,4) day_number_nonneg by (auto simp: DaysSince1970_eq split: if_splits)
  then have n': "DaysSince1970 y' m' d' = Some (n + k)"
    using ElapseFrom1970_ok [of "n + k"] assms(3,5) by (auto simp: DaysSince1970_eq valid_date_def)
  note w = GetDayOfWeek_eq
  have "GetDayOfWeek 1970 1 1 = Some 5"
    using w [of 1970 1 1 0] by (simp add: DaysSince1970_eq day_number_Jan_1)
  moreover have "(4 + (n + k)) mod 7 + 1 = ((4 + n) mod 7 + 1 - 1 + k) mod 7 + 1"
    by (simp add: mod_add_left_eq add.assoc)
  ultimately show ?thesis using w [OF assms(4) n] w [OF n'] n assms(5) by simp
qed

theorem day_of_week_ok_witness:
  "\<exists>w'. GetDayOfWeek 1970 1 1 = Some 5 \<and> GetDayOfWeek 1970 1 8 = Some w' \<and> w' = 5"
proof -
  have v: "valid_date 1970 1 1" "valid_date 1970 1 8"
    by (simp_all add: valid_date_def MaxDaysInMonth_eq num_days_def)
  have 0: "DaysSince1970 1970 1 1 = Some 0" "day_number 1970 1 8 = 7"
    by (simp_all add: DaysSince1970_eq day_number_Jan_1 day_number_def day_of_year_def day_1_seq_def)
  obtain y m d where e: "ElapseFrom1970 7 = Some (y, m, d)" "valid_date y m d" "day_number y m d = 7"
    using ElapseFrom1970_ok [of 7] by auto
  have "(y, m, d) = (1970, 1, 8)" using day_number_inj [OF e(2) v(2)] e(3) 0(2) by simp
  then show ?thesis using day_of_week_ok [OF _ v(1), of 0 7 1970 1 8] e(1) 0(1) by auto
qed

text \<open>
  For a negative day number the search for the year never ends: every year before 1970 counts
  as day 0, so the loop keeps going back.
\<close>

theorem elapse_negative_does_not_return: "n < 0 \<Longrightarrow> ElapseFrom1970 n = None"
proof (rule ccontr)
  assume n: "n < 0" and "ElapseFrom1970 n \<noteq> None"
  then obtain r where "ElapseFrom1970_loop n (1970 + n sdiv 365) = Some r"
    by (auto simp: ElapseFrom1970_def split: bind_splits)
  then show False using ElapseFrom1970_loop_returns_imp n by fastforce
qed

theorem elapse_negative_does_not_return_witness: "ElapseFrom1970 (-1) = None"
  using elapse_negative_does_not_return [of "-1"] by simp

end
