(* ===== verification/LocalTime.thy ===== *)
theory LocalTime
  imports Calendar
begin

text \<open>
  \<open>util/time/localtime.h\<close> and \<open>localtime.cc\<close>: broken-down dates and times without a time
  zone. \<open>LocalTime\<close> derives from \<open>LocalDate\<close>, as the record \<open>localtime\<close> extends
  \<open>localdate\<close>; the members inherited from \<open>LocalDate\<close> are defined on every extension
  of that record. The members are C \<open>int\<close>s; the sums of members and increments are assumed not
  to overflow, but \<open>SecondsSince1970\<close>, whose product does leave the 32 bits, is reduced. A
  failing \<open>ASSERT\<close> and a search that does not end are \<open>None\<close>; \<open>ASSERT_DEV\<close>
  does not stop the production program and is left out.
\<close>

section \<open>LocalDate\<close>

record localdate =
  ld_y :: int
  ld_m :: int
  ld_d :: int

definition NO_CHANGE :: int where
  "NO_CHANGE = - 2147483647"

definition set_date :: "int \<Rightarrow> int \<Rightarrow> int \<Rightarrow> 'a localdate_scheme \<Rightarrow> 'a localdate_scheme" where
  "set_date y m d t = t\<lparr>ld_y := y, ld_m := m, ld_d := d\<rparr>"

definition NormalizeField :: "int \<Rightarrow> int \<Rightarrow> int \<Rightarrow> int \<times> int" where
  "NormalizeField range_max to_normalize carry =
     (if to_normalize < 0 \<or> range_max \<le> to_normalize then
        let normalized = MOD to_normalize range_max;
            delta = to_normalize - normalized
        in (normalized, carry + delta sdiv range_max)
      else (to_normalize, carry))"

definition NormalizeDate :: "'a localdate_scheme \<Rightarrow> 'a localdate_scheme option" where
  "NormalizeDate t =
     (if ld_y t < 1970 then Some (set_date 1970 1 1 t)
      else
        let (mon, y) = NormalizeField 12 (ld_m t - 1) (ld_y t);
            m = mon + 1;
            d = ld_d t
        in
        if - 20 < d \<and> d < 50 then
          if d < 1 then do {
            let (y, m) = (if m - 1 < 1 then (y - 1, 12) else (y, m - 1));
            n \<leftarrow> MaxDaysInMonth y m;
            let d = d + n;
            ASSERT (1 \<le> d);
            Some (set_date y m d t)
          }
          else do {
            n \<leftarrow> MaxDaysInMonth y m;
            if n < d then do {
              let (y, m) = (if 12 < m + 1 then (y + 1, 1) else (y, m + 1));
              let d = d - n;
              ASSERT (d \<le> 28);
              Some (set_date y m d t)
            }
            else Some (set_date y m d t)
          }
        else do {
          seq_1st \<leftarrow> DaysSince1970 y m 1;
          let seq = seq_1st + (d - 1);
          (y, m, d) \<leftarrow> ElapseFrom1970 seq;
          Some (set_date y m d t)
        })"

definition LocalDate :: "int \<Rightarrow> int \<Rightarrow> int \<Rightarrow> localdate option" where
  "LocalDate year month day =
     (let t = \<lparr>ld_y = year, ld_m = month, ld_d = day\<rparr>
      in if year \<noteq> 0 \<or> month \<noteq> 0 \<or> day \<noteq> 0 then NormalizeDate t else Some t)"

definition IsInfiniteFuture :: "'a localdate_scheme \<Rightarrow> bool" where
  "IsInfiniteFuture t = (3000 \<le> ld_y t)"

definition IsInfinitePast :: "'a localdate_scheme \<Rightarrow> bool" where
  "IsInfinitePast t = (ld_y t \<le> 1970)"

definition IsFinite :: "'a localdate_scheme \<Rightarrow> bool" where
  "IsFinite t = (1970 < ld_y t \<and> ld_y t < 3000)"

definition IsInfinite :: "'a localdate_scheme \<Rightarrow> bool" where
  "IsInfinite t = (\<not> IsFinite t)"

definition ld_GetDayOfWeek :: "'a localdate_scheme \<Rightarrow> int option" where
  "ld_GetDayOfWeek t = GetDayOfWeek (ld_y t) (ld_m t) (ld_d t)"

definition ld_GetDayOfYear :: "'a localdate_scheme \<Rightarrow> int option" where
  "ld_GetDayOfYear t = GetDayOfYear (ld_y t) (ld_m t) (ld_d t)"

definition ld_Set :: "int \<Rightarrow> int \<Rightarrow> int \<Rightarrow> 'a localdate_scheme \<Rightarrow> 'a localdate_scheme option" where
  "ld_Set year month day t =
     (let t = (if year \<noteq> NO_CHANGE then t\<lparr>ld_y := year\<rparr> else t);
          t = (if month \<noteq> NO_CHANGE then t\<lparr>ld_m := month\<rparr> else t);
          t = (if day \<noteq> NO_CHANGE then t\<lparr>ld_d := day\<rparr> else t)
      in NormalizeDate t)"

definition ld_DaysSince1970 :: "'a localdate_scheme \<Rightarrow> int option" where
  "ld_DaysSince1970 t = DaysSince1970 (ld_y t) (ld_m t) (ld_d t)"

definition ElapseDaysFrom1970 :: "int \<Rightarrow> 'a localdate_scheme \<Rightarrow> 'a localdate_scheme option" where
  "ElapseDaysFrom1970 n t = do {
     (y, m, d) \<leftarrow> ElapseFrom1970 n;
     Some (set_date y m d t)
   }"

definition IncrementYear :: "int \<Rightarrow> 'a localdate_scheme \<Rightarrow> 'a localdate_scheme option" where
  "IncrementYear increment t = NormalizeDate (t\<lparr>ld_y := ld_y t + increment\<rparr>)"

definition IncrementMonth :: "int \<Rightarrow> 'a localdate_scheme \<Rightarrow> 'a localdate_scheme option" where
  "IncrementMonth increment t = NormalizeDate (t\<lparr>ld_m := ld_m t + increment\<rparr>)"

definition IncrementDay :: "int \<Rightarrow> 'a localdate_scheme \<Rightarrow> 'a localdate_scheme option" where
  "IncrementDay increment t = NormalizeDate (t\<lparr>ld_d := ld_d t + increment\<rparr>)"

definition SameDay :: "'a localdate_scheme \<Rightarrow> 'b localdate_scheme \<Rightarrow> bool" where
  "SameDay t other = (ld_d t = ld_d other \<and> ld_m t = ld_m other \<and> ld_y t = ld_y other)"

definition ld_minus :: "'a localdate_scheme \<Rightarrow> 'b localdate_scheme \<Rightarrow> int option" where
  "ld_minus t other = do { a \<leftarrow> ld_DaysSince1970 t; b \<leftarrow> ld_DaysSince1970 other; Some (a - b) }"

definition ld_less :: "'a localdate_scheme \<Rightarrow> 'b localdate_scheme \<Rightarrow> bool" where
  "ld_less t other =
     (if ld_y t < ld_y other then True else if ld_y other < ld_y t then False
      else if ld_m t < ld_m other then True else if ld_m other < ld_m t then False
      else ld_d t < ld_d other)"

definition ld_less_eq :: "'a localdate_scheme \<Rightarrow> 'b localdate_scheme \<Rightarrow> bool" where
  "ld_less_eq t other =
     (if ld_y t < ld_y other then True else if ld_y other < ld_y t then False
      else if ld_m t < ld_m other then True else if ld_m other < ld_m t then False
      else ld_d t \<le> ld_d other)"

section \<open>LocalTime\<close>

record localtime = localdate +
  lt_h :: int
  lt_mn :: int
  lt_s :: int
  lt_is_dst :: int

definition ONE_DAY :: int where "ONE_DAY = 86400"

definition ONE_HOUR :: int where "ONE_HOUR = 3600"

definition ONE_MINUTE :: int where "ONE_MINUTE = 60"

definition Normalize :: "localtime \<Rightarrow> localtime option" where
  "Normalize t =
     (let (s, mn) = NormalizeField 60 (lt_s t) (lt_mn t);
          (mn, h) = NormalizeField 60 mn (lt_h t);
          (h, d) = NormalizeField 24 h (ld_d t)
      in NormalizeDate (t\<lparr>ld_d := d, lt_h := h, lt_mn := mn, lt_s := s\<rparr>))"

definition LocalTime :: "int \<Rightarrow> int \<Rightarrow> int \<Rightarrow> int \<Rightarrow> int \<Rightarrow> int \<Rightarrow> localtime option" where
  "LocalTime year month day hour minute second = do {
     date \<leftarrow> LocalDate year month day;
     Normalize \<lparr>ld_y = ld_y date, ld_m = ld_m date, ld_d = ld_d date,
       lt_h = hour, lt_mn = minute, lt_s = second, lt_is_dst = - 1\<rparr>
   }"

definition lt_InfinitePast :: localtime where
  "lt_InfinitePast = \<lparr>ld_y = 1970, ld_m = 1, ld_d = 1, lt_h = 0, lt_mn = 0, lt_s = 0, lt_is_dst = - 1\<rparr>"

definition lt_InfiniteFuture :: localtime where
  "lt_InfiniteFuture = \<lparr>ld_y = 3000, ld_m = 1, ld_d = 1, lt_h = 0, lt_mn = 0, lt_s = 0, lt_is_dst = - 1\<rparr>"

text \<open>The C structure \<open>struct tm\<close>, as far as it is used.\<close>

record tm =
  tm_year :: int
  tm_mon :: int
  tm_mday :: int
  tm_hour :: int
  tm_min :: int
  tm_sec :: int
  tm_wday :: int
  tm_yday :: int
  tm_isdst :: int

definition FromTM :: "tm \<Rightarrow> localtime option" where
  "FromTM t = Normalize \<lparr>ld_y = tm_year t + 1900, ld_m = tm_mon t + 1, ld_d = tm_mday t,
     lt_h = tm_hour t, lt_mn = tm_min t, lt_s = tm_sec t, lt_is_dst = - 1\<rparr>"

definition ToTM :: "localtime \<Rightarrow> tm option" where
  "ToTM t = do {
     wday \<leftarrow> ld_GetDayOfWeek t;
     yday \<leftarrow> ld_GetDayOfYear t;
     Some \<lparr>tm_year = ld_y t - 1900, tm_mon = ld_m t - 1, tm_mday = ld_d t, tm_hour = lt_h t,
       tm_min = lt_mn t, tm_sec = lt_s t, tm_wday = wday - 1, tm_yday = yday - 1, tm_isdst = - 1\<rparr>
   }"

definition lt_Set ::
    "int \<Rightarrow> int \<Rightarrow> int \<Rightarrow> int \<Rightarrow> int \<Rightarrow> int \<Rightarrow> localtime \<Rightarrow> localtime option" where
  "lt_Set year month day hour minute second t =
     (let t = (if year \<noteq> NO_CHANGE then t\<lparr>ld_y := year\<rparr> else t);
          t = (if month \<noteq> NO_CHANGE then t\<lparr>ld_m := month\<rparr> else t);
          t = (if day \<noteq> NO_CHANGE then t\<lparr>ld_d := day\<rparr> else t);
          t = (if hour \<noteq> NO_CHANGE then t\<lparr>lt_h := hour\<rparr> else t);
          t = (if minute \<noteq> NO_CHANGE then t\<lparr>lt_mn := minute\<rparr> else t);
          t = (if second \<noteq> NO_CHANGE then t\<lparr>lt_s := second\<rparr> else t)
      in Normalize t)"

text \<open>All operands are \<open>int\<close>, so the sum is computed in 32 bits before it becomes a \<open>time_t\<close>.\<close>

definition SecondsSince1970 :: "localtime \<Rightarrow> int option" where
  "SecondsSince1970 t = do {
     days \<leftarrow> ld_DaysSince1970 t;
     Some (int32 (days * ONE_DAY + lt_h t * ONE_HOUR + lt_mn t * ONE_MINUTE + lt_s t))
   }"

definition lt_ElapseFrom1970 :: "int \<Rightarrow> localtime \<Rightarrow> localtime option" where
  "lt_ElapseFrom1970 num_seconds t = do {
     let num_days = int32 (num_seconds sdiv ONE_DAY);
     t \<leftarrow> ElapseDaysFrom1970 num_days t;
     let r = num_seconds smod ONE_DAY;
     let t = t\<lparr>lt_h := r sdiv ONE_HOUR\<rparr>;
     let r = r smod ONE_HOUR;
     let t = t\<lparr>lt_mn := r sdiv ONE_MINUTE\<rparr>;
     let r = r smod ONE_MINUTE;
     Some (t\<lparr>lt_s := r\<rparr>)
   }"

definition IncrementHour :: "int \<Rightarrow> localtime \<Rightarrow> localtime option" where
  "IncrementHour increment t = Normalize (t\<lparr>lt_h := lt_h t + increment\<rparr>)"

definition IncrementMinute :: "int \<Rightarrow> localtime \<Rightarrow> localtime option" where
  "IncrementMinute increment t = Normalize (t\<lparr>lt_mn := lt_mn t + increment\<rparr>)"

definition IncrementSecond :: "int \<Rightarrow> localtime \<Rightarrow> localtime option" where
  "IncrementSecond increment t = Normalize (t\<lparr>lt_s := lt_s t + increment\<rparr>)"

text \<open>\<open>operator+\<close> and \<open>operator-\<close> with a number of seconds.\<close>

definition lt_plus :: "localtime \<Rightarrow> int \<Rightarrow> localtime option" where
  "lt_plus t num_seconds = IncrementSecond num_seconds t"

definition lt_minus :: "localtime \<Rightarrow> int \<Rightarrow> localtime option" where
  "lt_minus t num_seconds = IncrementSecond (- num_seconds) t"

definition lt_diff :: "localtime \<Rightarrow> localtime \<Rightarrow> int option" where
  "lt_diff t other = do {
     a \<leftarrow> SecondsSince1970 t;
     b \<leftarrow> SecondsSince1970 other;
     Some (int32 (a - b))
   }"

definition LastMultiple :: "int \<Rightarrow> localtime \<Rightarrow> localtime option" where
  "LastMultiple M t = do {
     secs \<leftarrow> SecondsSince1970 t;
     let num_sec = int32 (secs smod M);
     lt_minus t num_sec
   }"

definition NextMultiple :: "int \<Rightarrow> localtime \<Rightarrow> localtime option" where
  "NextMultiple M t = do {
     secs \<leftarrow> SecondsSince1970 t;
     let num_sec = int32 (secs smod M);
     u \<leftarrow> lt_minus t num_sec;
     lt_plus u M
   }"

definition CushionForward :: "int \<Rightarrow> int \<Rightarrow> localtime \<Rightarrow> localtime option" where
  "CushionForward min_cushion multiple t = do {
     u \<leftarrow> lt_plus t min_cushion;
     u \<leftarrow> lt_minus u 1;
     NextMultiple multiple u
   }"

definition CushionBackward :: "int \<Rightarrow> int \<Rightarrow> localtime \<Rightarrow> localtime option" where
  "CushionBackward min_cushion multiple t = do {
     u \<leftarrow> lt_minus t min_cushion;
     LastMultiple multiple u
   }"

definition GetNextSecond :: "localtime \<Rightarrow> localtime option" where
  "GetNextSecond t = IncrementSecond 1 t"

definition GetPrevSecond :: "localtime \<Rightarrow> localtime option" where
  "GetPrevSecond t = IncrementSecond (- 1) t"

definition LastMidnight :: "localtime \<Rightarrow> localtime" where
  "LastMidnight t = t\<lparr>lt_h := 0, lt_mn := 0, lt_s := 0\<rparr>"

definition lt_less :: "localtime \<Rightarrow> localtime \<Rightarrow> bool" where
  "lt_less t other =
     (if ld_y t < ld_y other then True else if ld_y other < ld_y t then False
      else if ld_m t < ld_m other then True else if ld_m other < ld_m t then False
      else if ld_d t < ld_d other then True else if ld_d other < ld_d t then False
      else if lt_h t < lt_h other then True else if lt_h other < lt_h t then False
      else if lt_mn t < lt_mn other then True else if lt_mn other < lt_mn t then False
      else lt_s t < lt_s other)"

definition lt_less_eq :: "localtime \<Rightarrow> localtime \<Rightarrow> bool" where
  "lt_less_eq t other =
     (if ld_y t < ld_y other then True else if ld_y other < ld_y t then False
      else if ld_m t < ld_m other then True else if ld_m other < ld_m t then False
      else if ld_d t < ld_d other then True else if ld_d other < ld_d t then False
      else if lt_h t < lt_h other then True else if lt_h other < lt_h t then False
      else if lt_mn t < lt_mn other then True else if lt_mn other < lt_mn t then False
      else lt_s t \<le> lt_s other)"

definition SameLocalTime :: "localtime \<Rightarrow> localtime \<Rightarrow> bool" where
  "SameLocalTime t other =
     (ld_y t = ld_y other \<and> ld_m t = ld_m other \<and> ld_d t = ld_d other \<and>
      lt_h t = lt_h other \<and> lt_mn t = lt_mn other \<and> lt_s t = lt_s other)"

definition lt_eq :: "localtime \<Rightarrow> localtime \<Rightarrow> bool" where
  "lt_eq t other =
     (SameLocalTime t other \<and>
      (lt_is_dst t < 0 \<or> lt_is_dst other < 0 \<or> lt_is_dst t = lt_is_dst other))"

definition ForwardTo :: "int \<Rightarrow> int \<Rightarrow> int \<Rightarrow> localtime \<Rightarrow> localtime option" where
  "ForwardTo hour minute second this = do {
     t \<leftarrow> LocalTime (ld_y this) (ld_m this) (ld_d this) hour minute second;
     if lt_less t this then IncrementDay 1 t else Some t
   }"

definition RewindTo :: "int \<Rightarrow> int \<Rightarrow> int \<Rightarrow> localtime \<Rightarrow> localtime option" where
  "RewindTo hour minute second this = do {
     t \<leftarrow> LocalTime (ld_y this) (ld_m this) (ld_d this) hour minute second;
     if lt_less this t then IncrementDay (- 1) t else Some t
   }"

section \<open>Normalization\<close>

lemma NormalizeField_eq:
  assumes "0 < r"
  shows "NormalizeField r x c = (x mod r, c + x div r)"
proof (cases "x < 0 \<or> r \<le> x")
  case True
  have "x - x mod r = r * (x div r)" by (simp add: minus_mod_eq_mult_div)
  then have "(x - x mod r) sdiv r = x div r"
    using assms by (subst sdiv_exact) simp_all
  with True assms show ?thesis by (simp add: NormalizeField_def MOD_mod Let_def)
next
  case False
  with assms show ?thesis by (simp add: NormalizeField_def)
qed

text \<open>
  The day a date with any month and day stands for: the month is carried into the year first, then
  the days are counted from the first of that month.
\<close>

definition carried_year :: "int \<Rightarrow> int \<Rightarrow> int" where
  "carried_year y m = y + (m - 1) div 12"

definition carried_month :: "int \<Rightarrow> int" where
  "carried_month m = (m - 1) mod 12 + 1"

definition raw_day_number :: "'a localdate_scheme \<Rightarrow> int" where
  "raw_day_number t = day_number (carried_year (ld_y t) (ld_m t)) (carried_month (ld_m t)) (ld_d t)"

lemma carried_month_bounds: "1 \<le> carried_month m" "carried_month m \<le> 12"
proof -
  have "0 \<le> (m - 1) mod 12" "(m - 1) mod 12 < 12" by simp_all
  then show "1 \<le> carried_month m" "carried_month m \<le> 12" unfolding carried_month_def by linarith+
qed

lemma carried_same [simp]: "1 \<le> m \<Longrightarrow> m \<le> 12 \<Longrightarrow> carried_month m = m \<and> carried_year y m = y"
  by (simp add: carried_month_def carried_year_def)

lemma raw_day_number_valid:
  "valid_date (ld_y t) (ld_m t) (ld_d t) \<Longrightarrow> raw_day_number t = day_number (ld_y t) (ld_m t) (ld_d t)"
  by (simp add: raw_day_number_def valid_date_def)

lemma day_number_shift: "day_number y m (d + k) = day_number y m d + k"
  by (simp add: day_number_def day_of_year_def)

lemma day_number_next_month:
  assumes "1 \<le> m" "m \<le> 12" "MaxDaysInMonth y m = Some n"
  shows "day_number (if m = 12 then y + 1 else y) (if m = 12 then 1 else m + 1) d = day_number y m (d + n)"
proof (cases "m = 12")
  case True
  then show ?thesis
    using assms(3) by (simp add: day_number_def day_of_year_month year_start_Suc month_start_12)
next
  case False
  then show ?thesis
    using assms month_start_Suc [of m y] by (simp add: day_number_def day_of_year_month)
qed

lemma DaysSince1970_ok: "1970 \<le> y \<Longrightarrow> 1 \<le> m \<Longrightarrow> m \<le> 12 \<Longrightarrow> DaysSince1970 y m d = Some (day_number y m d)"
  by (simp add: DaysSince1970_eq)

lemma NormalizeDate_ok:
  assumes "1970 \<le> ld_y t" "1970 \<le> carried_year (ld_y t) (ld_m t)" "0 \<le> raw_day_number t"
  shows "\<exists>y m d. NormalizeDate t = Some (set_date y m d t) \<and> 1970 \<le> y \<and> valid_date y m d \<and>
    day_number y m d = raw_day_number t"
proof -
  define y m d where "y = carried_year (ld_y t) (ld_m t)" and "m = carried_month (ld_m t)" and "d = ld_d t"
  have m: "1 \<le> m" "m \<le> 12" and y: "1970 \<le> y"
    using carried_month_bounds assms(2) by (simp_all add: m_def y_def)
  have N: "raw_day_number t = day_number y m d" "0 \<le> day_number y m d"
    using assms(3) by (simp_all add: raw_day_number_def y_def m_def d_def)
  have f: "NormalizeField 12 (ld_m t - 1) (ld_y t) = (m - 1, y)"
    by (simp add: NormalizeField_eq y_def m_def carried_year_def carried_month_def)
  obtain n where n: "MaxDaysInMonth y m = Some n" "28 \<le> n" "n \<le> 31"
    using MaxDaysInMonth_bounds [OF m] by blast
  consider (slow) "\<not> (- 20 < d \<and> d < 50)" | (before) "- 20 < d" "d < 1"
    | (inside) "1 \<le> d" "d \<le> n" | (after) "n < d" "d < 50" by linarith
  then show ?thesis
  proof cases
    case slow
    have "day_number y m 1 + (d - 1) = day_number y m d" using day_number_shift [of y m 1 "d - 1"] by simp
    then obtain y' m' d' where "ElapseFrom1970 (day_number y m 1 + (d - 1)) = Some (y', m', d')"
      "1970 \<le> y'" "valid_date y' m' d'" "day_number y' m' d' = day_number y m d"
      using ElapseFrom1970_ok [OF N(2)] by auto
    then show ?thesis
      using slow assms(1) y m N(1) by (auto simp: NormalizeDate_def f d_def [symmetric] DaysSince1970_ok Let_def)
  next
    case before
    define y' m' where "y' = (if m - 1 < 1 then y - 1 else y)" and "m' = (if m - 1 < 1 then 12 else m - 1)"
    have m': "1 \<le> m'" "m' \<le> 12" using m by (simp_all add: m'_def)
    obtain k where k: "MaxDaysInMonth y' m' = Some k" "28 \<le> k" "k \<le> 31"
      using MaxDaysInMonth_bounds [OF m'] by blast
    have y': "1970 \<le> y'"
    proof (cases "m = 1 \<and> y = 1970")
      case True
      then have "day_number y m d < 0" using before by (simp add: day_number_def day_of_year_month)
      with N(2) show ?thesis by simp
    qed (use m y in \<open>auto simp: y'_def\<close>)
    have "day_number y m d = day_number y' m' (d + k)"
      using day_number_next_month [OF m' k(1), of d] m
      by (cases "m = 1") (simp_all add: y'_def m'_def)
    moreover have "valid_date y' m' (d + k)" using before k m' by (simp add: valid_date_def)
    moreover have "NormalizeDate t = Some (set_date y' m' (d + k) t)"
      using before assms(1) k by (simp add: NormalizeDate_def f d_def [symmetric] y'_def m'_def Let_def split: if_splits)
    ultimately show ?thesis using y' N(1) by auto
  next
    case inside
    then have "NormalizeDate t = Some (set_date y m d t)"
      using assms(1) n by (simp add: NormalizeDate_def f d_def [symmetric])
    moreover have "valid_date y m d" using inside m n by (simp add: valid_date_def)
    ultimately show ?thesis using y N(1) by auto
  next
    case after
    define y' m' where "y' = (if m = 12 then y + 1 else y)" and "m' = (if m = 12 then 1 else m + 1)"
    have m': "1 \<le> m'" "m' \<le> 12" "1970 \<le> y'" using m y by (simp_all add: m'_def y'_def)
    obtain k where k: "MaxDaysInMonth y' m' = Some k" "28 \<le> k"
      using MaxDaysInMonth_bounds [OF m'(1,2)] by blast
    have "day_number y' m' (d - n) = day_number y m d"
      using day_number_next_month [OF m n(1), of "d - n"] by (simp add: y'_def m'_def)
    moreover have "valid_date y' m' (d - n)" using after k m' n by (simp add: valid_date_def)
    moreover have "NormalizeDate t = Some (set_date y' m' (d - n) t)"
      using after assms(1) n m by (auto simp: NormalizeDate_def f d_def [symmetric] y'_def m'_def Let_def)
    ultimately show ?thesis using m'(3) N(1) by auto
  qed
qed

section \<open>Times as numbers of seconds\<close>

definition valid_time :: "localtime \<Rightarrow> bool" where
  "valid_time t \<longleftrightarrow> 1970 \<le> ld_y t \<and> valid_date (ld_y t) (ld_m t) (ld_d t) \<and>
     0 \<le> lt_h t \<and> lt_h t < 24 \<and> 0 \<le> lt_mn t \<and> lt_mn t < 60 \<and> 0 \<le> lt_s t \<and> lt_s t < 60"

text \<open>The seconds since 1 January 1970, as an unbounded integer, of a time in any form.\<close>

definition raw_seconds :: "localtime \<Rightarrow> int" where
  "raw_seconds t = raw_day_number t * 86400 + lt_h t * 3600 + lt_mn t * 60 + lt_s t"

lemma raw_day_number_update_d:
  "raw_day_number (t\<lparr>ld_d := d\<rparr>) = raw_day_number t - ld_d t + d"
  using day_number_shift [of "carried_year (ld_y t) (ld_m t)" "carried_month (ld_m t)" 0 d]
    day_number_shift [of "carried_year (ld_y t) (ld_m t)" "carried_month (ld_m t)" 0 "ld_d t"]
  by (simp add: raw_day_number_def)

lemma set_date_sel [simp]:
  "ld_y (set_date y m d t) = y" "ld_m (set_date y m d t) = m" "ld_d (set_date y m d t) = d"
  "lt_h (set_date y m d u) = lt_h u" "lt_mn (set_date y m d u) = lt_mn u"
  "lt_s (set_date y m d u) = lt_s u" "lt_is_dst (set_date y m d u) = lt_is_dst u"
  by (simp_all add: set_date_def)

lemma clock_carry:
  fixes days h mn s :: int
  assumes "s = 60 * a + b" "mn + a = 60 * c + e" "h + c = 24 * f + g"
  shows "days * 86400 + h * 3600 + mn * 60 + s = (days + f) * 86400 + g * 3600 + e * 60 + b"
  using assms by (simp add: distrib_right)

lemma Normalize_ok:
  assumes "1970 \<le> ld_y t" "1970 \<le> carried_year (ld_y t) (ld_m t)" "0 \<le> raw_seconds t"
  shows "\<exists>t'. Normalize t = Some t' \<and> valid_time t' \<and> raw_seconds t' = raw_seconds t \<and>
    lt_is_dst t' = lt_is_dst t"
proof -
  define mn h d where "mn = lt_mn t + lt_s t div 60" and "h = lt_h t + mn div 60" and "d = ld_d t + h div 24"
  define u where "u = t\<lparr>ld_d := d, lt_h := h mod 24, lt_mn := mn mod 60, lt_s := lt_s t mod 60\<rparr>"
  have norm: "Normalize t = NormalizeDate u"
    by (simp add: Normalize_def NormalizeField_eq u_def d_def h_def mn_def)
  have rd: "raw_day_number u = raw_day_number t + h div 24"
    using raw_day_number_update_d [of d t] by (simp add: u_def raw_day_number_def d_def)
  have total: "raw_seconds t = raw_day_number u * 86400 + h mod 24 * 3600 + mn mod 60 * 60 + lt_s t mod 60"
    unfolding raw_seconds_def rd
    by (rule clock_carry [where a = "lt_s t div 60" and c = "mn div 60"])
      (simp_all add: mn_def [symmetric] h_def [symmetric])
  have "h mod 24 \<le> 23" "mn mod 60 \<le> 59" "lt_s t mod 60 \<le> 59"
    using pos_mod_bound [of 24 h] pos_mod_bound [of 60 mn] pos_mod_bound [of 60 "lt_s t"] by simp_all
  then have "0 \<le> raw_day_number u" using assms(3) total by linarith
  then obtain y' m' d' where r: "NormalizeDate u = Some (set_date y' m' d' u)" "1970 \<le> y'"
    "valid_date y' m' d'" "day_number y' m' d' = raw_day_number u"
    using NormalizeDate_ok [of u] assms(1,2) by (auto simp: u_def)
  let ?t' = "set_date y' m' d' u"
  have "valid_time ?t'" using r by (simp add: valid_time_def u_def)
  moreover have "raw_seconds ?t' = raw_seconds t"
    using r raw_day_number_valid [of ?t'] by (simp add: raw_seconds_def [of ?t'] total) (simp add: u_def)
  moreover have "lt_is_dst ?t' = lt_is_dst t" by (simp add: u_def)
  ultimately show ?thesis using norm r(1) by auto
qed

lemma valid_time_raw:
  "valid_time t \<Longrightarrow> raw_seconds t = day_number (ld_y t) (ld_m t) (ld_d t) * 86400 + lt_h t * 3600 + lt_mn t * 60 + lt_s t"
  by (simp add: valid_time_def raw_seconds_def raw_day_number_valid)

lemma valid_time_nonneg: "valid_time t \<Longrightarrow> 0 \<le> raw_seconds t"
  using day_number_nonneg [of "ld_y t" "ld_m t" "ld_d t"] valid_time_raw [of t] by (simp add: valid_time_def)

lemma valid_time_carried: "valid_time t \<Longrightarrow> carried_year (ld_y t) (ld_m t) = ld_y t"
  by (simp add: valid_time_def valid_date_def)

text \<open>The comparison of the members is the comparison of the seconds.\<close>

lemma lt_less_iff:
  assumes "valid_time t" "valid_time u"
  shows "lt_less t u \<longleftrightarrow> raw_seconds t < raw_seconds u"
proof -
  define dt du where "dt = day_number (ld_y t) (ld_m t) (ld_d t)" and "du = day_number (ld_y u) (ld_m u) (ld_d u)"
  define ct cu where "ct = lt_h t * 3600 + lt_mn t * 60 + lt_s t" and "cu = lt_h u * 3600 + lt_mn u * 60 + lt_s u"
  have c: "0 \<le> ct" "ct < 86400" "0 \<le> cu" "cu < 86400"
    using assms by (auto simp: valid_time_def ct_def cu_def)
  have v: "valid_date (ld_y t) (ld_m t) (ld_d t)" "valid_date (ld_y u) (ld_m u) (ld_d u)"
    using assms by (simp_all add: valid_time_def)
  have d: "dt < du \<longleftrightarrow> date_less (ld_y t, ld_m t, ld_d t) (ld_y u, ld_m u, ld_d u)"
    "du < dt \<longleftrightarrow> date_less (ld_y u, ld_m u, ld_d u) (ld_y t, ld_m t, ld_d t)"
    unfolding dt_def du_def using day_number_less_iff v by blast+
  have cl: "ct < cu \<longleftrightarrow> lt_h t < lt_h u \<or> lt_h t = lt_h u \<and> (lt_mn t < lt_mn u \<or> lt_mn t = lt_mn u \<and> lt_s t < lt_s u)"
    using assms by (auto simp: valid_time_def ct_def cu_def)
  have rt: "raw_seconds t = dt * 86400 + ct" and ru: "raw_seconds u = du * 86400 + cu"
    using assms by (simp_all add: valid_time_raw dt_def du_def ct_def cu_def)
  have "raw_seconds t < raw_seconds u \<longleftrightarrow> dt < du \<or> dt = du \<and> ct < cu"
    unfolding rt ru using c by (cases dt du rule: linorder_cases) auto
  also have "\<dots> \<longleftrightarrow> lt_less t u"
    using d cl by (auto simp: lt_less_def date_less_def)
  finally show ?thesis by simp
qed

lemma lt_less_eq_iff: "lt_less_eq t u \<longleftrightarrow> \<not> lt_less u t"
  by (simp add: lt_less_eq_def lt_less_def not_less)

lemma SameLocalTime_iff:
  assumes "valid_time t" "valid_time u"
  shows "SameLocalTime t u \<longleftrightarrow> raw_seconds t = raw_seconds u"
proof -
  have "SameLocalTime t u \<longleftrightarrow> \<not> lt_less t u \<and> \<not> lt_less u t"
    by (auto simp: SameLocalTime_def lt_less_def)
  then show ?thesis using lt_less_iff assms by auto
qed

lemma same_time_eq: "SameLocalTime t u \<Longrightarrow> lt_is_dst t = lt_is_dst u \<Longrightarrow> t = u"
  by (simp add: SameLocalTime_def)

section \<open>Operations on times\<close>

lemma IncrementSecond_ok:
  assumes "valid_time t" "0 \<le> raw_seconds t + k"
  shows "\<exists>t'. IncrementSecond k t = Some t' \<and> valid_time t' \<and> raw_seconds t' = raw_seconds t + k \<and>
    lt_is_dst t' = lt_is_dst t"
proof -
  have "raw_seconds (t\<lparr>lt_s := lt_s t + k\<rparr>) = raw_seconds t + k"
    by (simp add: raw_seconds_def raw_day_number_def)
  then show ?thesis
    using Normalize_ok [of "t\<lparr>lt_s := lt_s t + k\<rparr>"] assms valid_time_carried [OF assms(1)]
    by (auto simp: IncrementSecond_def valid_time_def)
qed

lemma IncrementSecond_comp:
  assumes "valid_time t" "0 \<le> raw_seconds t + j" "0 \<le> raw_seconds t + (j + k)"
  shows "(IncrementSecond j t \<bind> IncrementSecond k) = IncrementSecond (j + k) t"
proof -
  obtain u where u: "IncrementSecond j t = Some u" "valid_time u" "raw_seconds u = raw_seconds t + j"
    "lt_is_dst u = lt_is_dst t" using IncrementSecond_ok [OF assms(1,2)] by blast
  obtain v where v: "IncrementSecond k u = Some v" "valid_time v" "raw_seconds v = raw_seconds t + (j + k)"
    "lt_is_dst v = lt_is_dst t" using IncrementSecond_ok [OF u(2), of k] u assms(3) by auto
  obtain w where w: "IncrementSecond (j + k) t = Some w" "valid_time w" "raw_seconds w = raw_seconds t + (j + k)"
    "lt_is_dst w = lt_is_dst t" using IncrementSecond_ok [OF assms(1,3)] by blast
  have "v = w" using v w SameLocalTime_iff same_time_eq by metis
  with u v w show ?thesis by simp
qed

lemma IncrementSecond_0:
  assumes "valid_time t" shows "IncrementSecond 0 t = Some t"
  using IncrementSecond_ok [OF assms, of 0] valid_time_nonneg [OF assms] SameLocalTime_iff assms
    same_time_eq by fastforce

lemma SecondsSince1970_eq: "valid_time t \<Longrightarrow> SecondsSince1970 t = Some (int32 (raw_seconds t))"
  by (simp add: SecondsSince1970_def ld_DaysSince1970_def DaysSince1970_eq valid_time_raw
      valid_time_def valid_date_def ONE_DAY_def ONE_HOUR_def ONE_MINUTE_def)

text \<open>The times on which the 32-bit sum is exact: up to 19 January 2038, 03:14:07.\<close>

definition before_2038 :: "localtime \<Rightarrow> bool" where
  "before_2038 t \<longleftrightarrow> raw_seconds t < 2 ^ 31"

lemma SecondsSince1970_exact:
  "valid_time t \<Longrightarrow> before_2038 t \<Longrightarrow> SecondsSince1970 t = Some (raw_seconds t)"
  using valid_time_nonneg [of t] by (simp add: SecondsSince1970_eq before_2038_def is_int32_def)

lemma clock_split:
  fixes n :: int
  assumes "0 \<le> n"
  shows "n = n div 86400 * 86400 + (n mod 86400) div 3600 * 3600 + (n mod 86400 mod 3600) div 60 * 60
    + n mod 86400 mod 3600 mod 60"
    and "(n mod 86400) div 3600 < 24" "(n mod 86400 mod 3600) div 60 < 60"
proof -
  have "n mod 86400 < 86400" "n mod 86400 mod 3600 < 3600" by simp_all
  then show "(n mod 86400) div 3600 < 24" "(n mod 86400 mod 3600) div 60 < 60"
    by (simp_all add: div_less_iff_less_mult)
  show "n = n div 86400 * 86400 + (n mod 86400) div 3600 * 3600 + (n mod 86400 mod 3600) div 60 * 60
    + n mod 86400 mod 3600 mod 60"
    using div_mult_mod_eq [of n 86400] div_mult_mod_eq [of "n mod 86400" 3600]
      div_mult_mod_eq [of "n mod 86400 mod 3600" 60] by presburger
qed

lemma lt_ElapseFrom1970_ok:
  assumes "0 \<le> n" "n < 2 ^ 31"
  shows "\<exists>u. lt_ElapseFrom1970 n t = Some u \<and> valid_time u \<and> raw_seconds u = n \<and> lt_is_dst u = lt_is_dst t"
proof -
  define q r where "q = n div 86400" and "r = n mod 86400"
  have q: "0 \<le> q" and r: "0 \<le> r" using assms by (simp_all add: q_def r_def pos_imp_zdiv_nonneg_iff)
  have "q \<le> n" using zdiv_mono2 [of n 1 86400] assms(1) by (simp add: q_def)
  then have i: "is_int32 q" using assms q unfolding is_int32_def by linarith
  obtain y m d where e: "ElapseFrom1970 q = Some (y, m, d)" "1970 \<le> y" "valid_date y m d" "day_number y m d = q"
    using ElapseFrom1970_ok [OF q] by blast
  let ?u = "set_date y m d t\<lparr>lt_h := r div 3600, lt_mn := r mod 3600 div 60, lt_s := r mod 3600 mod 60\<rparr>"
  have "lt_ElapseFrom1970 n t = Some ?u"
    using e(1) assms(1) q r i
    by (simp add: lt_ElapseFrom1970_def ElapseDaysFrom1970_def ONE_DAY_def ONE_HOUR_def ONE_MINUTE_def
        q_def [symmetric] r_def [symmetric] Let_def)
  moreover have v: "valid_time ?u"
    using e clock_split(2,3) [OF assms(1)] r
    by (simp add: valid_time_def r_def [symmetric] pos_imp_zdiv_nonneg_iff)
  moreover have "raw_seconds ?u = n"
    using clock_split(1) [OF assms(1), folded q_def r_def, symmetric] e(4) unfolding valid_time_raw [OF v] by simp
  ultimately show ?thesis by auto
qed

lemma LastMultiple_ok:
  assumes "valid_time t" "before_2038 t" "0 < M" "is_int32 M"
  shows "\<exists>u. LastMultiple M t = Some u \<and> valid_time u \<and> raw_seconds u = raw_seconds t div M * M"
proof -
  let ?n = "raw_seconds t"
  have n: "0 \<le> ?n" using assms(1) by (rule valid_time_nonneg)
  have m: "0 \<le> ?n mod M" "?n mod M < M" "?n - ?n mod M = ?n div M * M"
    using assms(3) by (simp_all add: minus_mod_eq_div_mult)
  have "is_int32 (?n mod M)"
    using assms(4) m(1,2) unfolding is_int32_def by linarith
  moreover have "0 \<le> ?n div M * M" using assms(3) n by (simp add: pos_imp_zdiv_nonneg_iff)
  ultimately show ?thesis
    using IncrementSecond_ok [OF assms(1), of "- (?n mod M)"] m n assms
    by (auto simp: LastMultiple_def SecondsSince1970_exact lt_minus_def)
qed

lemma NextMultiple_ok:
  assumes "valid_time t" "before_2038 t" "0 < M" "is_int32 M"
  shows "\<exists>u. NextMultiple M t = Some u \<and> valid_time u \<and> raw_seconds u = raw_seconds t div M * M + M"
proof -
  obtain v where v: "LastMultiple M t = Some v" "valid_time v" "raw_seconds v = raw_seconds t div M * M"
    using LastMultiple_ok [OF assms] by blast
  have "NextMultiple M t = (LastMultiple M t \<bind> (\<lambda>u. lt_plus u M))"
    using assms by (simp add: NextMultiple_def LastMultiple_def SecondsSince1970_exact)
  then show ?thesis
    using IncrementSecond_ok [OF v(2), of M] v valid_time_nonneg [OF v(2)] assms(3)
    by (auto simp: lt_plus_def)
qed

lemma IncrementDay_time_ok:
  assumes "valid_time t" "0 \<le> raw_seconds t + k * 86400"
  shows "\<exists>u. IncrementDay k t = Some u \<and> valid_time u \<and> raw_seconds u = raw_seconds t + k * 86400"
proof -
  let ?t = "t\<lparr>ld_d := ld_d t + k\<rparr>"
  have rd: "raw_day_number ?t = raw_day_number t + k" using raw_day_number_update_d [of "ld_d t + k" t] by simp
  have "lt_h t * 3600 + lt_mn t * 60 + lt_s t < 86400" using assms(1) by (auto simp: valid_time_def)
  then have "0 \<le> raw_day_number ?t" using assms(2) unfolding rd raw_seconds_def by simp
  then obtain y m d where r: "IncrementDay k t = Some (set_date y m d ?t)" "1970 \<le> y" "valid_date y m d"
    "day_number y m d = raw_day_number ?t"
    using NormalizeDate_ok [of ?t] assms(1) valid_time_carried [OF assms(1)]
    by (auto simp: IncrementDay_def valid_time_def)
  moreover have v: "valid_time (set_date y m d ?t)" using r assms(1) by (simp add: valid_time_def)
  moreover have "raw_seconds (set_date y m d ?t) = raw_seconds t + k * 86400"
    using r(4) rd unfolding valid_time_raw [OF v] raw_seconds_def [of t] by simp
  ultimately show ?thesis by blast
qed

lemma LocalDate_valid: "1970 \<le> y \<Longrightarrow> valid_date y m d \<Longrightarrow> LocalDate y m d = Some \<lparr>ld_y = y, ld_m = m, ld_d = d\<rparr>"
proof -
  assume y: "1970 \<le> y" and v: "valid_date y m d"
  let ?t = "\<lparr>ld_y = y, ld_m = m, ld_d = d\<rparr>"
  have raw: "raw_day_number ?t = day_number y m d" using raw_day_number_valid [of ?t] v by simp
  have c: "carried_year y m = y" using v by (simp add: valid_date_def)
  obtain a b c' where r: "NormalizeDate ?t = Some (set_date a b c' ?t)" "valid_date a b c'" "day_number a b c' = day_number y m d"
    using NormalizeDate_ok [of ?t] y raw c day_number_nonneg [OF y v] by auto
  moreover have "(a, b, c') = (y, m, d)" by (rule day_number_inj) fact+
  ultimately show ?thesis using y by (simp add: LocalDate_def set_date_def)
qed

lemma LocalTime_clock_ok:
  assumes "valid_time t" "0 \<le> h" "h < 24" "0 \<le> mn" "mn < 60" "0 \<le> s" "s < 60"
  shows "LocalTime (ld_y t) (ld_m t) (ld_d t) h mn s =
    Some \<lparr>ld_y = ld_y t, ld_m = ld_m t, ld_d = ld_d t, lt_h = h, lt_mn = mn, lt_s = s, lt_is_dst = - 1\<rparr>"
proof -
  let ?u = "\<lparr>ld_y = ld_y t, ld_m = ld_m t, ld_d = ld_d t, lt_h = h, lt_mn = mn, lt_s = s, lt_is_dst = - 1\<rparr>"
  have v: "valid_time ?u" using assms by (simp add: valid_time_def)
  obtain w where "Normalize ?u = Some w" "valid_time w" "raw_seconds w = raw_seconds ?u" "lt_is_dst w = - 1"
    using Normalize_ok [of ?u] v valid_time_carried [OF v] valid_time_nonneg [OF v] by (auto simp: valid_time_def)
  then have "Normalize ?u = Some ?u" using SameLocalTime_iff [OF _ v] same_time_eq [of w ?u] by simp
  then show ?thesis using assms by (simp add: LocalTime_def LocalDate_valid valid_time_def)
qed

text \<open>\<open>ForwardTo\<close> finds the first time of day \<open>h:mn:s\<close> that is not before the given time.\<close>

lemma ForwardTo_ok:
  assumes "valid_time t" "0 \<le> h" "h < 24" "0 \<le> mn" "mn < 60" "0 \<le> s" "s < 60"
  shows "\<exists>u. ForwardTo h mn s t = Some u \<and> valid_time u \<and> raw_seconds t \<le> raw_seconds u \<and>
    raw_seconds u < raw_seconds t + 86400 \<and> raw_seconds u mod 86400 = h * 3600 + mn * 60 + s"
proof -
  let ?c = "h * 3600 + mn * 60 + s" and ?N = "day_number (ld_y t) (ld_m t) (ld_d t)"
  let ?u = "\<lparr>ld_y = ld_y t, ld_m = ld_m t, ld_d = ld_d t, lt_h = h, lt_mn = mn, lt_s = s, lt_is_dst = - 1\<rparr>"
  have v: "valid_time ?u" using assms by (simp add: valid_time_def)
  have ru: "raw_seconds ?u = ?N * 86400 + ?c" and rt: "raw_seconds t = ?N * 86400 + (lt_h t * 3600 + lt_mn t * 60 + lt_s t)"
    using valid_time_raw [OF v] valid_time_raw [OF assms(1)] by simp_all
  have c: "0 \<le> ?c" "?c < 86400" "0 \<le> lt_h t * 3600 + lt_mn t * 60 + lt_s t"
    "lt_h t * 3600 + lt_mn t * 60 + lt_s t < 86400"
    using assms by (auto simp: valid_time_def)
  have F: "ForwardTo h mn s t = (if lt_less ?u t then IncrementDay 1 ?u else Some ?u)"
    using LocalTime_clock_ok [OF assms] by (simp add: ForwardTo_def)
  show ?thesis
  proof (cases "lt_less ?u t")
    case True
    then have "raw_seconds ?u < raw_seconds t" using lt_less_iff [OF v assms(1)] by simp
    moreover obtain w where "IncrementDay 1 ?u = Some w" "valid_time w" "raw_seconds w = raw_seconds ?u + 1 * 86400"
      using IncrementDay_time_ok [OF v, of 1] valid_time_nonneg [OF v] by auto
    moreover have "(?N * 86400 + ?c + 1 * 86400) mod 86400 = ?c" using c by simp
    ultimately show ?thesis using F True ru rt c by auto
  next
    case False
    then have "raw_seconds t \<le> raw_seconds ?u" using lt_less_iff [OF v assms(1)] by simp
    moreover have "(?N * 86400 + ?c) mod 86400 = ?c" using c by simp
    ultimately show ?thesis using F False v ru rt c by auto
  qed
qed

section \<open>Properties\<close>


definition sample_time :: localtime where
  "sample_time = \<lparr>ld_y = 2008, ld_m = 14, ld_d = - 100, lt_h = 30, lt_mn = - 5, lt_s = 3600, lt_is_dst = - 1\<rparr>"



definition sample_valid :: localtime where
  "sample_valid = \<lparr>ld_y = 2000, ld_m = 2, ld_d = 29, lt_h = 23, lt_mn = 59, lt_s = 59, lt_is_dst = - 1\<rparr>"

lemma sample_valid_ok: "valid_time sample_valid" "before_2038 sample_valid" "365 * 30 * 86400 \<le> raw_seconds sample_valid"
proof -
  show v: "valid_time sample_valid"
    by (simp add: valid_time_def sample_valid_def valid_date_def MaxDaysInMonth_eq IsLeapYear_def)
  have "day_number 2000 2 29 = 11016"
    by (simp add: day_number_def year_start_def day_of_year_def day_1_seq_def)
  then have "raw_seconds sample_valid = 11016 * 86400 + 86399"
    using valid_time_raw [OF v] by (simp add: sample_valid_def)
  then show "before_2038 sample_valid" "365 * 30 * 86400 \<le> raw_seconds sample_valid"
    by (simp_all add: before_2038_def)
qed


text \<open>
  Up to January 2038 \<open>SecondsSince1970\<close> and \<open>ElapseFrom1970\<close> are inverse to each other, and
  \<open>LastMultiple\<close> and \<open>NextMultiple\<close> return the last multiple of \<open>M\<close> seconds that is not
  after the time and the first one that is after it.
\<close>

theorem localtime_seconds_ok:
  assumes "valid_time t" "before_2038 t" "0 < M" "is_int32 M"
  shows "\<exists>n u v. SecondsSince1970 t = Some n \<and> lt_ElapseFrom1970 n t = Some t \<and>
    LastMultiple M t = Some u \<and> NextMultiple M t = Some v \<and>
    (\<exists>k. raw_seconds u = k * M \<and> raw_seconds v = (k + 1) * M) \<and> lt_less_eq u t \<and> lt_less t v"
proof -
  let ?n = "raw_seconds t"
  obtain u where u: "LastMultiple M t = Some u" "valid_time u" "raw_seconds u = ?n div M * M"
    using LastMultiple_ok [OF assms] by blast
  obtain v where v: "NextMultiple M t = Some v" "valid_time v" "raw_seconds v = ?n div M * M + M"
    using NextMultiple_ok [OF assms] by blast
  obtain w where w: "lt_ElapseFrom1970 ?n t = Some w" "valid_time w" "raw_seconds w = ?n" "lt_is_dst w = lt_is_dst t"
    using lt_ElapseFrom1970_ok [of ?n t] valid_time_nonneg [OF assms(1)] assms(2) by (auto simp: before_2038_def)
  then have "w = t" using SameLocalTime_iff [OF w(2) assms(1)] same_time_eq by blast
  moreover have "lt_less_eq u t" "lt_less t v"
    using lt_less_iff [OF assms(1) u(2)] lt_less_iff [OF assms(1) v(2)] u(3) v(3) assms(3)
      div_mult_mod_eq [of ?n M] pos_mod_sign [OF assms(3), of ?n] pos_mod_bound [OF assms(3), of ?n]
    by (simp_all add: lt_less_eq_iff)
  moreover have "raw_seconds v = (?n div M + 1) * M" using v(3) by (simp add: distrib_right)
  ultimately show ?thesis using u v w SecondsSince1970_exact [OF assms(1,2)] by auto
qed

theorem localtime_seconds_ok_witness:
  "\<exists>n. SecondsSince1970 sample_valid = Some n \<and> lt_ElapseFrom1970 n sample_valid = Some sample_valid"
  using localtime_seconds_ok [OF sample_valid_ok(1,2), of 60] by (auto simp: is_int32_def)

definition time_2038 :: localtime where
  "time_2038 = \<lparr>ld_y = 2038, ld_m = 1, ld_d = 19, lt_h = 3, lt_mn = 14, lt_s = 8, lt_is_dst = - 1\<rparr>"

text \<open>
  On 19 January 2038 at 03:14:08 the 32-bit sum wraps: \<open>SecondsSince1970\<close> returns
  \<open>- 2 ^ 31\<close>, though the time is a finite time of the class.
\<close>

theorem localtime_seconds_wraps_2038:
  "IsFinite time_2038 \<and> valid_time time_2038 \<and> raw_seconds time_2038 = 2 ^ 31 \<and>
   SecondsSince1970 time_2038 = Some (- (2 ^ 31))"
proof -
  have v: "valid_time time_2038"
    by (simp add: valid_time_def time_2038_def valid_date_def MaxDaysInMonth_eq num_days_def)
  have "day_number 2038 1 19 = 24855"
    by (simp add: day_number_def year_start_def day_of_year_def day_1_seq_def)
  then have r: "raw_seconds time_2038 = 2 ^ 31" using valid_time_raw [OF v] by (simp add: time_2038_def)
  then show ?thesis using v SecondsSince1970_eq [OF v] by (simp add: int32_def IsFinite_def time_2038_def)
qed

text \<open>
  The clamp of \<open>NormalizeDate\<close> to 1970 looks at the year only before the month and the day
  are carried. Month 0 of 1970 becomes a date in 1969, outside the documented range, and going back
  40 days from 10 January 1970 never returns.
\<close>

theorem localdate_clamp_too_early:
  "LocalDate 1970 0 15 = Some \<lparr>ld_y = 1969, ld_m = 12, ld_d = 15\<rparr> \<and>
   IncrementDay (- 40) \<lparr>ld_y = 1970, ld_m = 1, ld_d = 10\<rparr> = None"
proof
  show "LocalDate 1970 0 15 = Some \<lparr>ld_y = 1969, ld_m = 12, ld_d = 15\<rparr>"
    by (simp add: LocalDate_def NormalizeDate_def NormalizeField_eq set_date_def)
  have "DaysSince1970 1970 1 1 = Some 0" by (simp add: DaysSince1970_eq day_number_Jan_1)
  moreover have "ElapseFrom1970 (- 31) = None"
    using ElapseFrom1970_loop_returns_imp [of "- 31"]
    by (cases "ElapseFrom1970_loop (- 31) (1970 + (- 31) sdiv 365)") (auto simp: ElapseFrom1970_def)
  ultimately show "IncrementDay (- 40) \<lparr>ld_y = 1970, ld_m = 1, ld_d = 10\<rparr> = None"
    by (simp add: IncrementDay_def NormalizeDate_def NormalizeField_eq)
qed

end
