(* ===== verification/CStr.thy ===== *)
theory CStr
  imports CInt
begin

text \<open>
  Bytes and C strings. A byte is a \<open>char\<close>; \<open>byte c\<close> is its value as an
  \<open>unsigned char\<close>. A \<open>char\<close> of the code is signed on the platforms the program is built
  for, so a byte from 128 on compares as a negative number: \<open>spacelike\<close> is the test
  \<open>c <= ' '\<close>. A pointer into a C string is the list of the bytes in front of the terminating
  zero byte; \<open>at_ptr\<close> reads through it (the empty list points at the terminator).
  \<open>c_str\<close> is what a reader of a C string sees of a \<open>std::string\<close>. The character
  classes are the macros of \<open>util/string/strutil.h\<close>; \<open>toupper\<close>, \<open>tolower\<close>,
  \<open>strtol\<close>, \<open>atoi\<close> and the decimal output of streams are those of the C and C++
  libraries in the "C" locale.
\<close>

section \<open>Bytes\<close>

abbreviation byte :: "char \<Rightarrow> nat" where
  "byte c \<equiv> of_char c"

abbreviation NUL :: char where
  "NUL \<equiv> CHR 0x00"

lemma byte_less [simp]: "byte c < 256"
  by (rule nat_of_char_less_256)

lemma byte_inj [simp]: "byte c = byte d \<longleftrightarrow> c = d"
  by (simp add: of_char_eq_iff)

lemma byte_char_of [simp]: "n < 256 \<Longrightarrow> byte (char_of n) = n"
  by (simp add: of_char_of)

lemma char_of_eq_iff: "n < 256 \<Longrightarrow> char_of n = c \<longleftrightarrow> n = byte c"
  by (metis byte_char_of char_of_char)

definition IS_DIGIT :: "char \<Rightarrow> bool" where
  "IS_DIGIT c \<longleftrightarrow> 48 \<le> byte c \<and> byte c \<le> 57"

definition IS_LETTER :: "char \<Rightarrow> bool" where
  "IS_LETTER c \<longleftrightarrow> (65 \<le> byte c \<and> byte c \<le> 90) \<or> (97 \<le> byte c \<and> byte c \<le> 122)"

definition IS_HEXDIGIT :: "char \<Rightarrow> bool" where
  "IS_HEXDIGIT c \<longleftrightarrow> (48 \<le> byte c \<and> byte c \<le> 57) \<or> (65 \<le> byte c \<and> byte c \<le> 70) \<or>
     (97 \<le> byte c \<and> byte c \<le> 102)"

definition IS_ALPHANUMERIC :: "char \<Rightarrow> bool" where
  "IS_ALPHANUMERIC c \<longleftrightarrow> IS_DIGIT c \<or> IS_LETTER c"

definition IS_ALPHANUMERIC_INTL :: "char \<Rightarrow> bool" where
  "IS_ALPHANUMERIC_INTL c \<longleftrightarrow> IS_DIGIT c \<or> IS_LETTER c \<or> 128 \<le> byte c"

definition spacelike :: "char \<Rightarrow> bool" where
  "spacelike c \<longleftrightarrow> byte c \<le> 32 \<or> 128 \<le> byte c"

definition toupper :: "char \<Rightarrow> char" where
  "toupper c = (if 97 \<le> byte c \<and> byte c \<le> 122 then char_of (byte c - 32) else c)"

definition tolower :: "char \<Rightarrow> char" where
  "tolower c = (if 65 \<le> byte c \<and> byte c \<le> 90 then char_of (byte c + 32) else c)"

lemma toupper_NUL [simp]: "toupper c = NUL \<longleftrightarrow> c = NUL"
  by (auto simp: toupper_def char_of_eq_iff)

lemma toupper_of_NUL [simp]: "toupper NUL = NUL" "NUL = toupper c \<longleftrightarrow> c = NUL"
  using toupper_NUL by (auto simp: toupper_def [of NUL] dest: sym)

lemma toupper_toupper [simp]: "toupper (toupper c) = toupper c"
  by (auto simp: toupper_def)

section \<open>C strings\<close>

definition c_str :: "string \<Rightarrow> string" where
  "c_str s = takeWhile (\<lambda>c. c \<noteq> NUL) s"

fun at_ptr :: "string \<Rightarrow> char" where
  "at_ptr [] = NUL"
| "at_ptr (c # _) = c"

lemma c_str_id [simp]: "NUL \<notin> set s \<Longrightarrow> c_str s = s"
  by (auto simp: c_str_def takeWhile_eq_all_conv)

lemma c_str_no_NUL [simp]: "NUL \<notin> set (c_str s)"
  by (auto simp: c_str_def dest: set_takeWhileD)

text \<open>\<open>strncmp(s, t, n) == 0\<close> on two C strings.\<close>

definition strncmp_eq :: "string \<Rightarrow> string \<Rightarrow> nat \<Rightarrow> bool" where
  "strncmp_eq s t n \<longleftrightarrow> take n s = take n t"

section \<open>Decimal numbers\<close>

definition digit_char :: "nat \<Rightarrow> char" where
  "digit_char d = char_of (48 + d)"

definition digit_val :: "char \<Rightarrow> int" where
  "digit_val c = int (byte c) - 48"

fun print_nat :: "nat \<Rightarrow> string" where
  "print_nat n = (if n < 10 then [digit_char n] else print_nat (n div 10) @ [digit_char (n mod 10)])"

declare print_nat.simps [simp del]

definition print_int :: "int \<Rightarrow> string" where
  "print_int i = (if i < 0 then CHR ''-'' # print_nat (nat (- i)) else print_nat (nat i))"

text \<open>\<open>setw(w) << setfill('0')\<close> in front of a number.\<close>

definition setw0 :: "nat \<Rightarrow> string \<Rightarrow> string" where
  "setw0 w s = replicate (w - length s) (CHR ''0'') @ s"

definition isspace :: "char \<Rightarrow> bool" where
  "isspace c \<longleftrightarrow> byte c = 32 \<or> 9 \<le> byte c \<and> byte c \<le> 13"

definition digits_value :: "string \<Rightarrow> int" where
  "digits_value ds = foldl (\<lambda>v c. v * 10 + digit_val c) 0 ds"

text \<open>
  \<open>strtol(s, &end, 10)\<close>: the value, clamped to a 64-bit \<open>long\<close>, and the rest of the
  string; without a digit the value is 0 and \<open>end\<close> is \<open>s\<close>.
\<close>

definition strtol :: "string \<Rightarrow> int \<times> string" where
  "strtol s =
     (let s1 = dropWhile isspace s;
          neg = (at_ptr s1 = CHR ''-'');
          s2 = (if at_ptr s1 = CHR ''-'' \<or> at_ptr s1 = CHR ''+'' then tl s1 else s1);
          ds = takeWhile IS_DIGIT s2;
          v = (if neg then - digits_value ds else digits_value ds)
      in if ds = [] then (0, s)
         else (max (- (2 ^ 63)) (min (2 ^ 63 - 1) v), dropWhile IS_DIGIT s2))"

definition atoi :: "string \<Rightarrow> int" where
  "atoi s = int32 (fst (strtol s))"

lemma byte_digit_char [simp]: "d < 10 \<Longrightarrow> byte (digit_char d) = 48 + d"
  by (simp add: digit_char_def)

lemma IS_DIGIT_digit_char [simp]: "d < 10 \<Longrightarrow> IS_DIGIT (digit_char d)"
  by (simp add: IS_DIGIT_def)

lemma digit_val_digit_char [simp]: "d < 10 \<Longrightarrow> digit_val (digit_char d) = int d"
  by (simp add: digit_val_def)

lemma digits_value_append [simp]: "digits_value (ds @ [c]) = digits_value ds * 10 + digit_val c"
  by (simp add: digits_value_def)

lemma digits_value_Nil [simp]: "digits_value [] = 0"
  by (simp add: digits_value_def)

lemma digits_value_zeros [simp]: "digits_value (replicate k (CHR ''0'') @ ds) = digits_value ds"
proof -
  have "foldl (\<lambda>v c. v * 10 + digit_val c) 0 (replicate k (CHR ''0'')) = 0"
    by (induction k) (simp_all add: digit_val_def)
  then show ?thesis by (simp add: digits_value_def)
qed

lemma print_nat_digits: "\<forall>c \<in> set (print_nat n). IS_DIGIT c"
  by (induction n rule: print_nat.induct) (subst print_nat.simps, auto)

lemma print_nat_value [simp]: "digits_value (print_nat n) = int n"
proof (induction n rule: print_nat.induct)
  case (1 n)
  show ?case
  proof (cases "n < 10")
    case True
    then show ?thesis by (simp add: print_nat.simps [of n] digits_value_def)
  next
    case False
    then have "digits_value (print_nat n) = int (n div 10) * 10 + int (n mod 10)"
      using 1 by (simp add: print_nat.simps [of n])
    then show ?thesis by (metis div_mult_mod_eq of_nat_add of_nat_mult of_nat_numeral)
  qed
qed

lemma print_nat_not_Nil [simp]: "print_nat n \<noteq> []"
  by (subst print_nat.simps) simp

lemma print_nat_length: "n < 10 ^ k \<Longrightarrow> 0 < k \<Longrightarrow> length (print_nat n) \<le> k"
proof (induction k arbitrary: n)
  case (Suc k)
  show ?case
  proof (cases "n < 10")
    case False
    then have "k \<noteq> 0" using Suc.prems by (cases k) auto
    moreover have "n div 10 < 10 ^ k" using Suc.prems by (simp add: div_less_iff_less_mult mult.commute)
    ultimately show ?thesis using Suc.IH [of "n div 10"] False by (subst print_nat.simps) simp
  qed (subst print_nat.simps, simp)
qed simp

lemma setw0_length: "length s \<le> w \<Longrightarrow> length (setw0 w s) = w"
  by (simp add: setw0_def)

lemma setw0_value [simp]: "digits_value (setw0 w s) = digits_value s"
  by (simp add: setw0_def)

lemma setw0_digits: "(\<forall>c \<in> set s. IS_DIGIT c) \<Longrightarrow> \<forall>c \<in> set (setw0 w s). IS_DIGIT c"
  by (auto simp: setw0_def IS_DIGIT_def)

lemma digit_not_special: "IS_DIGIT c \<Longrightarrow> \<not> isspace c \<and> c \<noteq> CHR ''-'' \<and> c \<noteq> CHR ''+'' \<and> c \<noteq> NUL"
  by (auto simp: IS_DIGIT_def isspace_def)

lemma strtol_digits:
  assumes "\<forall>c \<in> set ds. IS_DIGIT c" "ds \<noteq> []" "\<not> IS_DIGIT (at_ptr r)" "0 \<le> digits_value ds" "digits_value ds < 2 ^ 63"
  shows "strtol (ds @ r) = (digits_value ds, r)"
proof -
  obtain d ds' where ds: "ds = d # ds'" using assms(2) by (cases ds) auto
  have d: "\<not> isspace d" "d \<noteq> CHR ''-''" "d \<noteq> CHR ''+''" using assms(1) ds digit_not_special by auto
  have "takeWhile IS_DIGIT r = []" "dropWhile IS_DIGIT r = r" using assms(3) by (cases r; simp)+
  then have "takeWhile IS_DIGIT (ds @ r) = ds" "dropWhile IS_DIGIT (ds @ r) = r"
    using assms(1) by (simp_all add: takeWhile_append dropWhile_append)
  then show ?thesis using d ds assms(4,5) by (simp add: strtol_def Let_def)
qed

lemma strtol_print_nat:
  "int n < 2 ^ 63 \<Longrightarrow> \<not> IS_DIGIT (at_ptr r) \<Longrightarrow> strtol (print_nat n @ r) = (int n, r)"
  using strtol_digits [OF print_nat_digits, of n r] by simp

end
