(* ===== verification/StrEscape.thy ===== *)
theory StrEscape
  imports CStr
begin

text \<open>
  The escape and unescape functions and the base64 codec of \<open>util/string/strutil.cc\<close> and
  \<open>strutil.h\<close>. An unescape function that reads through a \<open>const char *\<close> walks over the
  suffixes of a C string; where the code steps over the terminating zero byte and reads on, the
  result is \<open>None\<close>. Shifts and masks of unsigned numbers are written as \<open>div\<close> and
  \<open>mod\<close> by powers of two.
\<close>

definition SkipSpaces :: "string \<Rightarrow> string" where
  "SkipSpaces s = dropWhile (\<lambda>c. spacelike c \<and> c \<noteq> NUL) s"

definition SkipNonSpaces :: "string \<Rightarrow> string" where
  "SkipNonSpaces s = dropWhile (\<lambda>c. \<not> spacelike c) s"

section \<open>Hexadecimal output\<close>

definition hex_digit :: "nat \<Rightarrow> char" where
  "hex_digit h = char_of (if h < 10 then 48 + h else h - 10 + 65)"

definition TwoDigitHex :: "nat \<Rightarrow> string" where
  "TwoDigitHex c = [hex_digit (c div 16), hex_digit (c mod 16)]"

definition FourDigitHex :: "nat \<Rightarrow> string" where
  "FourDigitHex c = TwoDigitHex (c div 256) @ TwoDigitHex (c mod 256)"

text \<open>The argument is an \<open>unsigned short\<close>.\<close>

definition UnicodeEscaped :: "nat \<Rightarrow> string" where
  "UnicodeEscaped n =
     (let c = n mod 65536;
          c = (if 145 \<le> c \<and> c \<le> 148 then
                 if c = 145 then 96 else if c = 146 then 39 else 34
               else c)
      in CHR 0x5C # CHR ''u'' # FourDigitHex c)"

definition JsonEncode8Bit :: "string \<Rightarrow> string" where
  "JsonEncode8Bit s = concat (map (\<lambda>c. UnicodeEscaped (byte c)) s)"

section \<open>C and JSON style\<close>

record esc_state =
  es_out :: string
  es_unencoded :: string
  es_buf :: nat
  es_more :: nat

definition flush_unencoded :: "esc_state \<Rightarrow> esc_state" where
  "flush_unencoded e = e\<lparr>es_more := 0, es_out := es_out e @ JsonEncode8Bit (es_unencoded e), es_unencoded := []\<rparr>"

text \<open>One byte from 128 on in JSON style, taken as a part of a UTF-8 sequence.\<close>

definition escape_multibyte :: "char \<Rightarrow> esc_state \<Rightarrow> esc_state" where
  "escape_multibyte c e =
     (let e = e\<lparr>es_unencoded := es_unencoded e @ [c]\<rparr>;
          b = byte c in
      if 254 \<le> b then flush_unencoded e
      else if 252 \<le> b then e\<lparr>es_buf := b mod 2, es_more := 5\<rparr>
      else if 248 \<le> b then e\<lparr>es_buf := b mod 4, es_more := 4\<rparr>
      else if 240 \<le> b then e\<lparr>es_buf := b mod 8, es_more := 3\<rparr>
      else if 224 \<le> b then e\<lparr>es_buf := b mod 16, es_more := 2\<rparr>
      else if 192 \<le> b then e\<lparr>es_buf := b mod 32, es_more := 1\<rparr>
      else if 0 < es_more e then
        let e = e\<lparr>es_buf := es_buf e * 64 + b mod 64, es_more := es_more e - 1\<rparr> in
        if es_more e = 0 then
          let out = (if es_buf e \<le> 65535 then UnicodeEscaped (es_buf e)
                     else UnicodeEscaped (es_buf e div 65536) @ UnicodeEscaped (es_buf e mod 65536))
          in e\<lparr>es_out := es_out e @ out, es_unencoded := []\<rparr>
        else e
      else flush_unencoded e)"

definition escape_octal :: "nat \<Rightarrow> string" where
  "escape_octal c = [CHR 0x5C, char_of (48 + c div 64), char_of (48 + (c mod 64) div 8), char_of (48 + c mod 8)]"

definition escape_plain :: "bool \<Rightarrow> char \<Rightarrow> string" where
  "escape_plain json_style c =
     (if byte c < 32 then
        if c = CHR 0x0A then [CHR 0x5C, CHR ''n'']
        else if c = CHR 0x09 then [CHR 0x5C, CHR ''t'']
        else if c = CHR 0x0D then [CHR 0x5C, CHR ''r'']
        else if c = CHR 0x08 then [CHR 0x5C, CHR ''b'']
        else if c = CHR 0x0C then [CHR 0x5C, CHR ''f'']
        else if json_style then UnicodeEscaped (byte c)
        else escape_octal (byte c)
      else if c = CHR 0x22 \<or> c = CHR 0x5C then [CHR 0x5C, c]
      else [c])"

definition escape_char :: "bool \<Rightarrow> char \<Rightarrow> esc_state \<Rightarrow> esc_state" where
  "escape_char json_style c e =
     (if json_style \<and> 128 \<le> byte c then escape_multibyte c e
      else
        let e = (if 0 < es_more e then flush_unencoded e else e)
        in e\<lparr>es_out := es_out e @ escape_plain json_style c\<rparr>)"

definition EscapeString_C_or_JSON :: "string \<Rightarrow> bool \<Rightarrow> string" where
  "EscapeString_C_or_JSON input json_style =
     es_out (fold (escape_char json_style) input
       \<lparr>es_out = [CHR 0x22], es_unencoded = [], es_buf = 0, es_more = 0\<rparr>) @ [CHR 0x22]"

definition EscapeString_C :: "string \<Rightarrow> string" where
  "EscapeString_C input = EscapeString_C_or_JSON input False"

definition EscapeString_JSON :: "string \<Rightarrow> string" where
  "EscapeString_JSON input = EscapeString_C_or_JSON input True"

definition hex_val :: "char \<Rightarrow> nat" where
  "hex_val c = (if IS_DIGIT c then byte c - 48 else byte (toupper c) - 65 + 10)"

definition push :: "char \<Rightarrow> string \<times> string \<Rightarrow> string \<times> string" where
  "push c r = (c # fst r, snd r)"

text \<open>The loop of \<open>UnescapeString_C\<close>: the decoded bytes and the rest of the input.\<close>

function UnescapeString_C_loop :: "string \<Rightarrow> (string \<times> string) option" where
  "UnescapeString_C_loop [] = Some ([], [])"
| "UnescapeString_C_loop (c # s) =
     (if c = CHR 0x22 then Some ([], s)
      else if c = CHR 0x5C then
        (case s of [] \<Rightarrow> None
         | e # s \<Rightarrow>
           if e = CHR ''n'' then map_option (push (CHR 0x0A)) (UnescapeString_C_loop s)
           else if e = CHR ''t'' then map_option (push (CHR 0x09)) (UnescapeString_C_loop s)
           else if e = CHR ''r'' then map_option (push (CHR 0x0D)) (UnescapeString_C_loop s)
           else if e = CHR ''b'' then map_option (push (CHR 0x08)) (UnescapeString_C_loop s)
           else if e = CHR ''f'' then map_option (push (CHR 0x0C)) (UnescapeString_C_loop s)
           else if e = CHR 0x22 \<or> e = CHR ''/'' \<or> e = CHR 0x5C then map_option (push e) (UnescapeString_C_loop s)
           else if e = CHR ''u'' then
             if 4 \<le> length s \<and> list_all IS_HEXDIGIT (take 4 s) then
               let d = foldl (\<lambda>v h. v * 16 + hex_val h) 0 (take 4 s) in
               if 256 \<le> d then UnescapeString_C_loop (drop 4 s)
               else map_option (push (char_of d)) (UnescapeString_C_loop (drop 4 s))
             else UnescapeString_C_loop s
           else if IS_DIGIT e \<and> IS_DIGIT (at_ptr s) \<and> IS_DIGIT (at_ptr (drop 1 s)) then
             map_option (push (char_of ((byte e - 48) * 64 + (byte (at_ptr s) - 48) * 8 + (byte (at_ptr (drop 1 s)) - 48))))
               (UnescapeString_C_loop (drop 2 s))
           else UnescapeString_C_loop s)
      else map_option (push c) (UnescapeString_C_loop s))"
  by pat_completeness auto
termination
  by (relation "measure length") auto

declare UnescapeString_C_loop.simps(2) [simp del]

definition UnescapeString_C :: "string \<Rightarrow> (nat \<times> string) option" where
  "UnescapeString_C input =
     (case SkipSpaces input of
        [] \<Rightarrow> Some (0, [])
      | c # s \<Rightarrow>
          if c \<noteq> CHR 0x22 then Some (0, [])
          else do {
            (res, rest) \<leftarrow> UnescapeString_C_loop s;
            Some (length input - length rest, res)
          })"

section \<open>CSV style\<close>

fun UnescapeString_CSV_loop :: "string \<Rightarrow> string \<times> string" where
  "UnescapeString_CSV_loop [] = ([], [])"
| "UnescapeString_CSV_loop (c # s) =
     (if c = CHR 0x22 then
        (case s of
           [] \<Rightarrow> ([], [])
         | d # s' \<Rightarrow> if d \<noteq> CHR 0x22 then ([], s) else push d (UnescapeString_CSV_loop s'))
      else push c (UnescapeString_CSV_loop s))"

definition UnescapeString_CSV :: "string \<Rightarrow> nat \<times> string" where
  "UnescapeString_CSV input =
     (case SkipSpaces input of
        [] \<Rightarrow> (0, [])
      | c # s \<Rightarrow>
          if c \<noteq> CHR 0x22 then (0, [])
          else let (res, rest) = UnescapeString_CSV_loop s in (length input - length rest, res))"

section \<open>CGI style\<close>

definition EscapeString_CGI :: "string \<Rightarrow> bool \<Rightarrow> string" where
  "EscapeString_CGI input space_to_plus =
     concat (map (\<lambda>c.
       if IS_DIGIT c \<or> IS_LETTER c then [c]
       else if c = CHR '' '' \<and> space_to_plus then [CHR ''+'']
       else
         let c1 = byte c div 16; c2 = byte c mod 16
         in [CHR ''%'', char_of (if 9 < c1 then 65 + c1 - 10 else 48 + c1),
             char_of (if 9 < c2 then 65 + c2 - 10 else 48 + c2)]) input)"

function UnescapeString_CGI_loop :: "string \<Rightarrow> string" where
  "UnescapeString_CGI_loop [] = []"
| "UnescapeString_CGI_loop (c # s) =
     (if c = CHR ''%'' then
        if IS_HEXDIGIT (at_ptr s) \<and> IS_HEXDIGIT (at_ptr (drop 1 s)) then
          char_of (hex_val (at_ptr s) * 16 + hex_val (at_ptr (drop 1 s))) # UnescapeString_CGI_loop (drop 2 s)
        else UnescapeString_CGI_loop s
      else if c = CHR ''+'' then CHR '' '' # UnescapeString_CGI_loop s
      else c # UnescapeString_CGI_loop s)"
  by pat_completeness auto
termination
  by (relation "measure length") auto

definition UnescapeString_CGI :: "string \<Rightarrow> string" where
  "UnescapeString_CGI input = UnescapeString_CGI_loop (c_str input)"

section \<open>HTML style\<close>

definition EscapeString_HTML :: "string \<Rightarrow> string" where
  "EscapeString_HTML input =
     concat (map (\<lambda>c.
       if c = CHR ''<'' then ''&lt;''
       else if c = CHR ''>'' then ''&gt;''
       else if c = CHR ''&'' then ''&amp;''
       else [c]) input)"

definition ReplaceEscape :: "string \<Rightarrow> string \<Rightarrow> string \<times> string \<Rightarrow> string \<times> string" where
  "ReplaceEscape original to_replace p =
     (case p of (begin, res) \<Rightarrow>
        if strncmp_eq begin original (length original)
        then (drop (length original - 1) begin, res @ to_replace)
        else (begin, res))"

definition html_escapes :: "(string \<times> string) list" where
  "html_escapes = [(''&lt;'', ''<''), (''&gt;'', ''>''), (''&amp;'', ''&''), (''&nbsp;'', '' ''),
     (''&quot;'', [CHR 0x22]), (''&apos;'', [CHR 0x27]), (''&reg;'', ''(R)''), (''&Eacute;'', ''E''),
     (''&eacute;'', ''e''), (''&lsquo;'', [CHR 0x60]), (''&rsquo;'', [CHR 0x27]), (''&acirc;'', ''a''),
     (''&uuml;'', ''u''), (''&ndash;'', ''-''), (''&euro;'', ''euro '')]"

definition replace_escapes :: "string \<Rightarrow> string \<times> string" where
  "replace_escapes s = fold (\<lambda>(original, to_replace). ReplaceEscape original to_replace) html_escapes (s, [])"

text \<open>An entity that is not in the table: the position of its end, or \<open>begin\<close> and a literal ampersand.\<close>

definition unknown_escape :: "string \<Rightarrow> string \<times> string" where
  "unknown_escape s =
     (let s1 = drop 1 s;
          s1 = (if IS_ALPHANUMERIC (at_ptr s1) \<or> at_ptr s1 = CHR ''#'' then dropWhile IS_ALPHANUMERIC (drop 1 s1) else s1)
      in if at_ptr s1 = CHR '';'' then (s1, []) else (s, [CHR ''&'']))"

lemma length_ReplaceEscape: "length (fst (ReplaceEscape a b p)) \<le> length (fst p)"
  by (cases p) (simp add: ReplaceEscape_def)

lemma length_fold_ReplaceEscape:
  "length (fst (fold (\<lambda>(a, b). ReplaceEscape a b) ts p)) \<le> length (fst p)"
proof (induction ts arbitrary: p)
  case (Cons t ts)
  show ?case
    using le_trans [OF Cons [of "ReplaceEscape (fst t) (snd t) p"] length_ReplaceEscape [of "fst t" "snd t" p]]
    by (cases t) simp
qed simp

lemma length_unknown_escape: "length (fst (unknown_escape s)) \<le> length s"
proof -
  have "length (dropWhile IS_ALPHANUMERIC (drop 1 (drop 1 s))) \<le> length s"
    using length_dropWhile_le [of IS_ALPHANUMERIC "drop 1 (drop 1 s)"] by simp
  then show ?thesis by (simp add: unknown_escape_def Let_def)
qed

definition html_step :: "string \<Rightarrow> string \<times> string" where
  "html_step s =
     (let (s', res) = replace_escapes s
      in if length s' = length s then unknown_escape s else (s', res))"

lemma length_html_step: "length (fst (html_step s)) \<le> length s"
  using length_fold_ReplaceEscape [of html_escapes "(s, [])"] length_unknown_escape [of s]
  by (cases "fold (\<lambda>(a, b). ReplaceEscape a b) html_escapes (s, [])")
    (simp add: html_step_def replace_escapes_def Let_def)

function UnescapeString_HTML :: "string \<Rightarrow> string" where
  "UnescapeString_HTML [] = []"
| "UnescapeString_HTML (c # s) =
     (if c = CHR ''&'' then
        let (s', res) = html_step (c # s) in res @ UnescapeString_HTML (drop 1 s')
      else c # UnescapeString_HTML s)"
  by pat_completeness auto
termination
proof (relation "measure length")
  fix c s x s' res
  assume "c = CHR ''&''" "x = html_step (c # s)" "(s', res) = x"
  then have "length s' \<le> Suc (length s)" using length_html_step [of "c # s"] by (metis fst_conv length_Cons)
  then show "(drop 1 s', c # s) \<in> measure length" by simp
qed auto

section \<open>Base64\<close>

definition base64chars :: string where
  "base64chars = ''ABCDEFGHIJKLMNOPQRSTUVWXYZabcdefghijklmnopqrstuvwxyz0123456789+/''"

definition encode_group :: "nat \<Rightarrow> nat \<Rightarrow> string" where
  "encode_group n num_fillers =
     [base64chars ! (n div 262144 mod 64), base64chars ! (n div 4096 mod 64),
      if num_fillers = 2 then CHR ''='' else base64chars ! (n div 64 mod 64),
      if 1 \<le> num_fillers then CHR ''='' else base64chars ! (n mod 64)]"

definition line_break :: "bool \<Rightarrow> nat \<Rightarrow> string" where
  "line_break split_line num_output_chars =
     (if split_line \<and> 0 < num_output_chars \<and> num_output_chars mod 76 = 0 then [CHR 0x0A] else [])"

fun EncodeString_Base64_loop :: "bool \<Rightarrow> nat \<Rightarrow> string \<Rightarrow> string" where
  "EncodeString_Base64_loop split_line k [] = []"
| "EncodeString_Base64_loop split_line k [c1] =
     line_break split_line k @ encode_group (byte c1 * 65536) 2"
| "EncodeString_Base64_loop split_line k [c1, c2] =
     line_break split_line k @ encode_group (byte c1 * 65536 + byte c2 * 256) 1"
| "EncodeString_Base64_loop split_line k (c1 # c2 # c3 # s) =
     line_break split_line k @ encode_group (byte c1 * 65536 + byte c2 * 256 + byte c3) 0 @
     EncodeString_Base64_loop split_line (k + 4) s"

definition EncodeString_Base64 :: "string \<Rightarrow> bool \<Rightarrow> string" where
  "EncodeString_Base64 input split_line = EncodeString_Base64_loop split_line 0 input"

text \<open>The value of a base64 character (64 is the filler), or \<open>None\<close> for any other byte.\<close>

definition base64_val :: "char \<Rightarrow> nat option" where
  "base64_val c =
     (if 65 \<le> byte c \<and> byte c \<le> 90 then Some (byte c - 65)
      else if 97 \<le> byte c \<and> byte c \<le> 122 then Some (byte c - 97 + 26)
      else if 48 \<le> byte c \<and> byte c \<le> 57 then Some (byte c - 48 + 52)
      else if c = CHR ''+'' then Some 62
      else if c = CHR ''/'' then Some 63
      else None)"

text \<open>The inner loop over four characters: the 24-bit number and the number of fillers.\<close>

fun decode_group :: "nat \<Rightarrow> string \<Rightarrow> nat \<times> nat \<Rightarrow> (nat \<times> nat) option" where
  "decode_group 0 s p = Some p"
| "decode_group (Suc i) s (n, num_fillers) =
     (case base64_val (at_ptr s) of
        Some c \<Rightarrow> decode_group i (drop 1 s) (n * 64 + c, num_fillers)
      | None \<Rightarrow>
          if at_ptr s = CHR ''='' then decode_group i (drop 1 s) (n * 64, num_fillers + 1)
          else None)"

definition group_bytes :: "nat \<Rightarrow> nat \<Rightarrow> string" where
  "group_bytes n num_fillers =
     char_of (n div 65536) #
     (if num_fillers \<le> 1 then [char_of (n div 256 mod 256)] else []) @
     (if num_fillers = 0 then [char_of (n mod 256)] else [])"

function DecodeString_Base64_loop :: "string \<Rightarrow> string option" where
  "DecodeString_Base64_loop [] = Some []"
| "DecodeString_Base64_loop (c # s) =
     (case decode_group 4 (c # s) (0, 0) of
        None \<Rightarrow> None
      | Some (n, num_fillers) \<Rightarrow>
          let s' = SkipSpaces (drop 4 (c # s)) in
          if 0 < num_fillers \<and> (s' \<noteq> [] \<or> 2 < num_fillers) then None
          else map_option (\<lambda>r. group_bytes n num_fillers @ r) (DecodeString_Base64_loop s'))"
  by pat_completeness auto
termination
proof (relation "measure length")
  fix c s x2 n f s'
  assume "s' = SkipSpaces (drop 4 (c # s))"
  then have "length s' \<le> length (drop 4 (c # s))"
    using length_dropWhile_le [of _ "drop 4 (c # s)"] by (simp add: SkipSpaces_def)
  then show "(s', c # s) \<in> measure length" by simp
qed auto

declare DecodeString_Base64_loop.simps(2) [simp del]

text \<open>An error returns the empty string.\<close>

definition DecodeString_Base64 :: "string \<Rightarrow> string" where
  "DecodeString_Base64 input =
     (case DecodeString_Base64_loop (SkipSpaces (c_str input)) of Some r \<Rightarrow> r | None \<Rightarrow> [])"

section \<open>Decoding what was encoded\<close>

lemma byte_literals [simp]:
  "byte (CHR 0x22) = 34" "byte (CHR 0x5C) = 92" "byte (CHR ''='') = 61" "byte (CHR ''%'') = 37" "byte (CHR ''+'') = 43"
  by simp_all

subsection \<open>CGI\<close>

definition cgi_hex :: "nat \<Rightarrow> char" where
  "cgi_hex h = char_of (if 9 < h then 65 + h - 10 else 48 + h)"

lemma cgi_hex_byte: "h < 16 \<Longrightarrow> byte (cgi_hex h) = (if 9 < h then 55 + h else 48 + h)"
  by (simp add: cgi_hex_def)

lemma cgi_hex_ok: "h < 16 \<Longrightarrow> IS_HEXDIGIT (cgi_hex h) \<and> hex_val (cgi_hex h) = h \<and> cgi_hex h \<noteq> NUL"
  using cgi_hex_byte [of h]
  by (auto simp: IS_HEXDIGIT_def hex_val_def IS_DIGIT_def toupper_def split: if_splits)

definition cgi_char :: "bool \<Rightarrow> char \<Rightarrow> string" where
  "cgi_char sp c =
     (if IS_DIGIT c \<or> IS_LETTER c then [c]
      else if c = CHR '' '' \<and> sp then [CHR ''+'']
      else [CHR ''%'', cgi_hex (byte c div 16), cgi_hex (byte c mod 16)])"

lemma EscapeString_CGI_eq: "EscapeString_CGI s sp = concat (map (cgi_char sp) s)"
  unfolding EscapeString_CGI_def cgi_char_def [abs_def] cgi_hex_def Let_def ..

lemma cgi_char_NUL: "NUL \<notin> set (cgi_char sp c)"
  using cgi_hex_ok [of "byte c div 16"] cgi_hex_ok [of "byte c mod 16"]
  by (auto simp: cgi_char_def IS_DIGIT_def IS_LETTER_def div_less_iff_less_mult)

lemma unescape_cgi_char: "UnescapeString_CGI_loop (cgi_char sp c @ r) = c # UnescapeString_CGI_loop r"
proof -
  consider (plain) "IS_DIGIT c \<or> IS_LETTER c" | (plus) "\<not> (IS_DIGIT c \<or> IS_LETTER c)" "c = CHR '' ''" sp
    | (hex) "\<not> (IS_DIGIT c \<or> IS_LETTER c)" "\<not> (c = CHR '' '' \<and> sp)" by blast
  then show ?thesis
  proof cases
    case plain
    then have "c \<noteq> CHR ''%''" "c \<noteq> CHR ''+''" by (auto simp: IS_DIGIT_def IS_LETTER_def)
    with plain show ?thesis by (simp add: cgi_char_def)
  next
    case plus
    then show ?thesis by (simp add: cgi_char_def)
  next
    case hex
    have h: "byte c div 16 < 16" "byte c mod 16 < 16" by (simp_all add: div_less_iff_less_mult)
    have e: "byte c div 16 * 16 + byte c mod 16 = byte c" by simp
    have "cgi_char sp c = [CHR ''%'', cgi_hex (byte c div 16), cgi_hex (byte c mod 16)]"
      using hex by (simp only: cgi_char_def if_False)
    then show ?thesis
      using cgi_hex_ok [OF h(1)] cgi_hex_ok [OF h(2)] by (simp only: append_Cons append_Nil UnescapeString_CGI_loop.simps
          if_True at_ptr.simps drop_Suc_Cons One_nat_def numeral_2_eq_2 drop_0 e char_of_char simp_thms)
  qed
qed

lemma unescape_escape_CGI: "UnescapeString_CGI (EscapeString_CGI s sp) = s"
proof -
  have "NUL \<notin> set (concat (map (cgi_char sp) s))" using cgi_char_NUL by auto
  moreover have "UnescapeString_CGI_loop (concat (map (cgi_char sp) s)) = s"
    by (induction s) (simp_all add: unescape_cgi_char)
  ultimately show ?thesis by (simp add: UnescapeString_CGI_def EscapeString_CGI_eq)
qed

subsection \<open>HTML\<close>

lemma html_step_known:
  "html_step (''&lt;'' @ r) = (CHR '';'' # r, ''<'')"
  "html_step (''&gt;'' @ r) = (CHR '';'' # r, ''>'')"
  "html_step (''&amp;'' @ r) = (CHR '';'' # r, ''&'')"
  by (simp_all add: html_step_def replace_escapes_def html_escapes_def ReplaceEscape_def strncmp_eq_def)

definition html_char :: "char \<Rightarrow> string" where
  "html_char c = (if c = CHR ''<'' then ''&lt;'' else if c = CHR ''>'' then ''&gt;''
     else if c = CHR ''&'' then ''&amp;'' else [c])"

lemma unescape_html_char: "UnescapeString_HTML (html_char c @ r) = c # UnescapeString_HTML r"
  using html_step_known [of r] by (simp add: html_char_def)

lemma unescape_escape_HTML: "UnescapeString_HTML (EscapeString_HTML s) = s"
proof -
  have e: "EscapeString_HTML s = concat (map html_char s)"
    unfolding EscapeString_HTML_def html_char_def [abs_def] ..
  show ?thesis unfolding e by (induction s) (simp_all add: unescape_html_char)
qed

subsection \<open>C\<close>

lemma escape_C_eq: "EscapeString_C s = CHR 0x22 # concat (map (escape_plain False) s) @ [CHR 0x22]"
proof -
  have "fold (escape_char False) s e = e\<lparr>es_out := es_out e @ concat (map (escape_plain False) s)\<rparr>"
    if "es_more e = 0" for e
    using that by (induction s arbitrary: e) (simp_all add: escape_char_def)
  then show ?thesis by (simp add: EscapeString_C_def EscapeString_C_or_JSON_def)
qed

lemma octal_digits:
  fixes b :: nat
  assumes "b < 256"
  shows "b div 64 * 64 + (b mod 64) div 8 * 8 + b mod 8 = b"
proof -
  have "b mod 64 mod 8 = b mod 8" by (simp add: mod_mod_cancel)
  then show ?thesis
    using div_mult_mod_eq [of b 64] div_mult_mod_eq [of "b mod 64" 8] by linarith
qed

lemma unescape_octal:
  assumes "b < 32"
  shows "UnescapeString_C_loop (escape_octal b @ r) = map_option (push (char_of b)) (UnescapeString_C_loop r)"
proof -
  have d: "b div 64 = 0" "b mod 64 div 8 < 8" "b mod 8 < 8" using assms by (simp_all add: div_less_iff_less_mult)
  then have c: "IS_DIGIT (char_of (48 + b div 64))" "IS_DIGIT (char_of (48 + b mod 64 div 8))"
    "IS_DIGIT (char_of (48 + b mod 8))" by (simp_all add: IS_DIGIT_def)
  have v: "(48 + b div 64 - 48) * 64 + (48 + b mod 64 div 8 - 48) * 8 + (48 + b mod 8 - 48) = b"
    using octal_digits [of b] assms by simp
  have e: "char_of (48 + b div 64) = (CHR ''0'' :: char)" using d(1) by (simp add: char_of_eq_iff)
  have "byte (char_of (48 + b mod 64 div 8)) = 48 + b mod 64 div 8" "byte (char_of (48 + b mod 8)) = 48 + b mod 8"
    using d by (intro byte_char_of; linarith)+
  then show ?thesis
    using c v d unfolding escape_octal_def e
    by (simp add: UnescapeString_C_loop.simps(2) IS_DIGIT_def [of "CHR ''0''"] numeral_2_eq_2)
qed

lemma unescape_plain:
  "UnescapeString_C_loop (escape_plain False c @ r) = map_option (push c) (UnescapeString_C_loop r)"
proof (cases "byte c < 32 \<and> c \<notin> {CHR 0x0A, CHR 0x09, CHR 0x0D, CHR 0x08, CHR 0x0C}")
  case True
  then show ?thesis using unescape_octal [of "byte c" r] by (simp add: escape_plain_def)
next
  case False
  then show ?thesis by (auto simp: escape_plain_def UnescapeString_C_loop.simps(2))
qed

lemma unescape_escape_C: "UnescapeString_C (EscapeString_C s) = Some (length (EscapeString_C s), s)"
proof -
  have "UnescapeString_C_loop (concat (map (escape_plain False) s) @ [CHR 0x22]) = Some (s, [])"
    by (induction s) (simp_all add: unescape_plain push_def UnescapeString_C_loop.simps(2))
  moreover have "SkipSpaces (CHR 0x22 # x) = CHR 0x22 # x" for x
    by (simp add: SkipSpaces_def spacelike_def)
  ultimately show ?thesis by (simp add: UnescapeString_C_def escape_C_eq)
qed

subsection \<open>Base64\<close>

lemma base64_table:
  "list_all (\<lambda>i. base64_val (base64chars ! i) = Some i \<and> \<not> spacelike (base64chars ! i)) [0..<64]"
  by code_simp

lemma base64_char_ok: "i < 64 \<Longrightarrow> base64_val (base64chars ! i) = Some i \<and> \<not> spacelike (base64chars ! i)"
  using base64_table by (simp add: list_all_iff)

lemma base64_filler [simp]: "base64_val (CHR ''='') = None"
  by (simp add: base64_val_def)

lemma sextets:
  fixes n :: nat
  assumes "n < 16777216"
  shows "n div 262144 mod 64 * 64 + n div 4096 mod 64 = n div 4096"
    and "n div 4096 * 64 + n div 64 mod 64 = n div 64"
    and "n div 64 * 64 + n mod 64 = n"
proof -
  have "n div 262144 < 64" using assms by (simp add: div_less_iff_less_mult)
  moreover have "n div 262144 = n div 4096 div 64" "n div 4096 = n div 64 div 64"
    by (simp_all add: div_mult2_eq [symmetric])
  ultimately show "n div 262144 mod 64 * 64 + n div 4096 mod 64 = n div 4096"
    "n div 4096 * 64 + n div 64 mod 64 = n div 64"
    using div_mult_mod_eq [of "n div 4096" 64] div_mult_mod_eq [of "n div 64" 64] by simp_all
qed simp

lemma decode_encode_group:
  assumes "n < 16777216" "f \<le> 2" "f = 2 \<Longrightarrow> 4096 dvd n" "f = 1 \<Longrightarrow> 64 dvd n"
  shows "decode_group 4 (encode_group n f @ r) (0, 0) = Some (n, f)"
proof -
  have v: "base64_val (base64chars ! (m mod 64)) = Some (m mod 64)" for m using base64_char_ok [of "m mod 64"] by simp
  note s = sextets [OF assms(1)]
  have 4: "decode_group 4 = decode_group (Suc (Suc (Suc (Suc 0))))" by (simp add: eval_nat_numeral)
  consider "f = 0" | "f = 1" | "f = 2" using assms(2) by linarith
  then show ?thesis
  proof cases
    case 1
    then show ?thesis unfolding 4 using s v by (simp add: encode_group_def)
  next
    case 2
    then have "n div 64 * 64 = n" using assms(4) by simp
    then show ?thesis unfolding 4 using 2 s v by (simp add: encode_group_def)
  next
    case 3
    then have "n div 4096 * 64 * 64 = n" using assms(3) by (simp add: mult.assoc)
    then show ?thesis unfolding 4 using 3 s v by (simp add: encode_group_def)
  qed
qed

lemma encode_group_Cons:
  "\<exists>c r. encode_group n f = c # r \<and> \<not> spacelike c"
  using base64_char_ok [of "n div 262144 mod 64"] by (simp add: encode_group_def)

lemma length_encode_group [simp]: "length (encode_group n f) = 4"
  by (simp add: encode_group_def)

lemma SkipSpaces_break:
  "SkipSpaces (line_break b k @ encode_group n f @ r) = encode_group n f @ r"
  using encode_group_Cons [of n f] by (auto simp: line_break_def SkipSpaces_def spacelike_def)

lemma decode_one_group:
  assumes "n < 16777216" "f \<le> 2" "f = 2 \<Longrightarrow> 4096 dvd n" "f = 1 \<Longrightarrow> 64 dvd n" "0 < f \<Longrightarrow> r = []"
  shows "DecodeString_Base64_loop (encode_group n f @ r) =
    map_option ((@) (group_bytes n f)) (DecodeString_Base64_loop (SkipSpaces r))"
proof -
  obtain c g where g: "encode_group n f = c # g" using encode_group_Cons by blast
  have "drop 4 (encode_group n f @ r) = r" by simp
  then show ?thesis
    using decode_encode_group [OF assms(1-4), of r] assms(2,5) unfolding g append_Cons
    by (simp only: DecodeString_Base64_loop.simps) (auto simp: SkipSpaces_def)
qed

lemma decode_encode_loop:
  "DecodeString_Base64_loop (SkipSpaces (EncodeString_Base64_loop b k s)) = Some s"
proof (induction b k s rule: EncodeString_Base64_loop.induct)
  case (1 b k)
  then show ?case by (simp add: SkipSpaces_def)
next
  case (2 b k c1)
  have "byte c1 * 65536 < 16777216" "4096 dvd byte c1 * 65536"
    using byte_less [of c1] by (simp_all add: dvd_mult)
  then show ?case
    using decode_one_group [of "byte c1 * 65536" 2 "[]"] SkipSpaces_break [of b k _ _ "[]"]
    by (simp add: group_bytes_def SkipSpaces_def)
next
  case (3 b k c1 c2)
  let ?n = "byte c1 * 65536 + byte c2 * 256"
  have "?n < 16777216" using byte_less [of c1] byte_less [of c2] by linarith
  moreover have "64 dvd ?n" by simp
  moreover have "?n div 65536 = byte c1" "?n div 256 mod 256 = byte c2"
    using byte_less [of c2] div_mult2_eq [of ?n 256 256] by simp_all
  ultimately show ?case
    using decode_one_group [of ?n 1 "[]"] SkipSpaces_break [of b k ?n 1 "[]"]
    by (simp add: group_bytes_def SkipSpaces_def)
next
  case (4 b k c1 c2 c3 s)
  let ?n = "byte c1 * 65536 + byte c2 * 256 + byte c3"
  have "?n < 16777216" using byte_less [of c1] byte_less [of c2] byte_less [of c3] by linarith
  moreover have e: "?n = (byte c1 * 256 + byte c2) * 256 + byte c3" by (simp add: distrib_right)
  have q: "(q * 256 + byte c3) div 256 = q" "(q * 256 + byte c3) mod 256 = byte c3" for q
    using byte_less [of c3] by simp_all
  have "?n div 256 = byte c1 * 256 + byte c2" "?n mod 256 = byte c3" unfolding e by (rule q)+
  moreover have "?n div 65536 = ?n div 256 div 256" using div_mult2_eq [of ?n 256 256] by simp
  ultimately show ?case
    using decode_one_group [of ?n 0 "EncodeString_Base64_loop b (k + 4) s"] SkipSpaces_break [of b k ?n 0] 4
    by (simp add: group_bytes_def)
qed

lemma encode_group_no_NUL: "NUL \<notin> set (encode_group n f)"
proof -
  have "base64chars ! (m mod 64) \<noteq> NUL" for m
    using base64_char_ok [of "m mod 64"] by (auto simp: spacelike_def)
  then show ?thesis by (auto simp: encode_group_def dest: sym)
qed

lemma base64_no_NUL: "NUL \<notin> set (EncodeString_Base64_loop b k s)"
  by (induction b k s rule: EncodeString_Base64_loop.induct)
    (auto simp: line_break_def encode_group_no_NUL)

lemma decode_encode_Base64: "DecodeString_Base64 (EncodeString_Base64 s b) = s"
  using decode_encode_loop [of b 0 s] base64_no_NUL [of b 0 s]
  by (simp add: DecodeString_Base64_def EncodeString_Base64_def)

subsection \<open>JSON, for 7-bit input\<close>

lemma hex_digit_ok: "h < 16 \<Longrightarrow> IS_HEXDIGIT (hex_digit h) \<and> hex_val (hex_digit h) = h"
  by (auto simp: hex_digit_def IS_HEXDIGIT_def hex_val_def IS_DIGIT_def toupper_def)

lemma unescape_unicode:
  assumes "b < 128"
  shows "UnescapeString_C_loop (UnicodeEscaped b @ r) = map_option (push (char_of b)) (UnescapeString_C_loop r)"
proof -
  let ?h = "[hex_digit 0, hex_digit 0, hex_digit (b div 16), hex_digit (b mod 16)]"
  have e: "UnicodeEscaped b @ r = CHR 0x5C # CHR ''u'' # ?h @ r"
    using assms by (simp add: UnicodeEscaped_def FourDigitHex_def TwoDigitHex_def)
  have h: "b div 16 < 16" "b mod 16 < 16" using assms by (simp_all add: div_less_iff_less_mult)
  have t: "take 4 (?h @ r) = ?h" "drop 4 (?h @ r) = r" "4 \<le> length (?h @ r)" by simp_all
  have "list_all IS_HEXDIGIT ?h" using hex_digit_ok h by simp
  moreover have "foldl (\<lambda>v h. v * 16 + hex_val h) 0 ?h = b" using hex_digit_ok h hex_digit_ok [of 0] by simp
  moreover have "\<not> 256 \<le> b" using assms by simp
  ultimately show ?thesis
    unfolding e by (simp only: UnescapeString_C_loop.simps list.case t Let_def if_True if_False simp_thms char.inject)
qed

lemma unescape_plain_JSON:
  assumes "byte c < 128"
  shows "UnescapeString_C_loop (escape_plain True c @ r) = map_option (push c) (UnescapeString_C_loop r)"
proof (cases "byte c < 32 \<and> c \<notin> {CHR 0x0A, CHR 0x09, CHR 0x0D, CHR 0x08, CHR 0x0C}")
  case True
  then show ?thesis using unescape_unicode [of "byte c" r] assms by (simp add: escape_plain_def)
next
  case False
  then show ?thesis by (auto simp: escape_plain_def UnescapeString_C_loop.simps(2))
qed

lemma unescape_escape_JSON:
  assumes "\<forall>c \<in> set s. byte c < 128"
  shows "UnescapeString_C (EscapeString_JSON s) = Some (length (EscapeString_JSON s), s)"
proof -
  have "fold (escape_char True) s e = e\<lparr>es_out := es_out e @ concat (map (escape_plain True) s)\<rparr>"
    if "es_more e = 0" for e
    using that assms by (induction s arbitrary: e) (simp_all add: escape_char_def)
  then have "EscapeString_JSON s = CHR 0x22 # concat (map (escape_plain True) s) @ [CHR 0x22]"
    by (simp add: EscapeString_JSON_def EscapeString_C_or_JSON_def)
  moreover have "UnescapeString_C_loop (concat (map (escape_plain True) s) @ [CHR 0x22]) = Some (s, [])"
    using assms by (induction s) (simp_all add: unescape_plain_JSON push_def UnescapeString_C_loop.simps(2))
  moreover have "SkipSpaces (CHR 0x22 # x) = CHR 0x22 # x" for x
    by (simp add: SkipSpaces_def spacelike_def)
  ultimately show ?thesis by (simp add: UnescapeString_C_def)
qed

section \<open>Properties\<close>


text \<open>
  C24. \<open>UnescapeString_C\<close> restores every byte string from its C-style escaped form and every 7-bit
  string from its JSON form, and reports that it has parsed exactly the escaped text.
\<close>

theorem c_and_json_escape_roundtrip:
  "UnescapeString_C (EscapeString_C s) = Some (length (EscapeString_C s), s) \<and>
   ((\<forall>c \<in> set s. byte c < 128) \<longrightarrow>
    UnescapeString_C (EscapeString_JSON s) = Some (length (EscapeString_JSON s), s))"
  using unescape_escape_C unescape_escape_JSON by blast

theorem c_and_json_escape_roundtrip_witness:
  "UnescapeString_C (EscapeString_C [CHR 0xE9]) = Some (length (EscapeString_C [CHR 0xE9]), [CHR 0xE9]) \<and>
   UnescapeString_C (EscapeString_JSON [CHR 0x01, CHR 0x22]) =
     Some (length (EscapeString_JSON [CHR 0x01, CHR 0x22]), [CHR 0x01, CHR 0x22])"
  using c_and_json_escape_roundtrip [of "[CHR 0xE9]"] c_and_json_escape_roundtrip [of "[CHR 0x01, CHR 0x22]"]
  by simp

text \<open>
  C22. Base64: decoding an encoded byte string gives it back, with the line breaks of the MIME form
  or without them, for every length.
\<close>

theorem base64_roundtrip: "DecodeString_Base64 (EncodeString_Base64 s split_line) = s"
  by (rule decode_encode_Base64)

text \<open>
  The JSON form of a character outside the basic plane is not a surrogate pair: U+1F600 comes
  out as U+0001 followed by U+F600. A UTF-8 sequence cut off at the end of the input is dropped.
\<close>

theorem json_escape_loses_characters:
  "EscapeString_JSON [CHR 0xF0, CHR 0x9F, CHR 0x98, CHR 0x80] =
     [CHR 0x22, CHR 0x5C, CHR ''u'', CHR ''0'', CHR ''0'', CHR ''0'', CHR ''1'',
      CHR 0x5C, CHR ''u'', CHR ''F'', CHR ''6'', CHR ''0'', CHR ''0'', CHR 0x22] \<and>
   EscapeString_JSON [CHR 0xC3] = [CHR 0x22, CHR 0x22]"
  by (simp add: EscapeString_JSON_def EscapeString_C_or_JSON_def escape_char_def escape_multibyte_def
      UnicodeEscaped_def FourDigitHex_def TwoDigitHex_def hex_digit_def char_of_eq_iff)

text \<open>
  A backslash in front of the end of the text makes \<open>UnescapeString_C\<close> step over the
  terminating zero byte and read on behind the string.
\<close>

theorem unescape_c_reads_past_end:
  assumes "\<forall>c \<in> set s. c \<noteq> CHR 0x22 \<and> c \<noteq> CHR 0x5C"
  shows "UnescapeString_C (CHR 0x22 # s @ [CHR 0x5C]) = None"
proof -
  have "UnescapeString_C_loop (s @ [CHR 0x5C]) = None"
    using assms by (induction s) (simp_all add: UnescapeString_C_loop.simps(2))
  then show ?thesis by (simp add: UnescapeString_C_def SkipSpaces_def spacelike_def)
qed

theorem unescape_c_reads_past_end_witness:
  "UnescapeString_C [CHR 0x22, CHR ''a'', CHR ''b'', CHR 0x5C] = None"
  using unescape_c_reads_past_end [of "''ab''"] by simp

end
