(* ===== verification/PointParse.thy ===== *)
theory PointParse
  imports LocalTime StrEscape
begin

text \<open>
  What the parsers of the time-domain classes share (\<open>util/time/sharppoint.h\<close>,
  \<open>timeduration.h\<close>, \<open>timepoint.h\<close>, \<open>timedomain.h\<close>). A parser takes a pointer into
  a C string and gives the object it has filled, the pointer to the first character it has not read
  (\<open>endptr\<close>) and the error message, empty when there is none; it returns \<open>true\<close> exactly when
  the message is empty. \<open>None\<close> is a failing \<open>ASSERT\<close>.
\<close>

type_synonym 'a parsed = "'a \<times> string \<times> string"

text \<open>\<open>if (!error_msg->empty()) return false;\<close> between two steps of a parser.\<close>

definition and_then ::
    "'a parsed option \<Rightarrow> ('a \<Rightarrow> string \<Rightarrow> 'a parsed option) \<Rightarrow> 'a parsed option" where
  "and_then r f = do {
     (obj, endptr, error_msg) \<leftarrow> r;
     if error_msg \<noteq> [] then Some (obj, endptr, error_msg) else f obj endptr
   }"

definition parse_ok :: "'a parsed \<Rightarrow> bool" where
  "parse_ok r = (case r of (obj, endptr, error_msg) \<Rightarrow> error_msg = [])"

definition ErrorMsg :: "string \<Rightarrow> int \<Rightarrow> string" where
  "ErrorMsg message offset = ''Error at char '' @ print_int offset @ '': '' @ message"

text \<open>
  The overloads of \<open>Init\<close> that take a \<open>std::string\<close>: parse all of it but trailing blanks.
  \<open>end - input.c_str() + 1\<close> is the number of characters read plus one.
\<close>

definition Init_string :: "(string \<Rightarrow> 'a parsed option) \<Rightarrow> string \<Rightarrow> ('a \<times> string) option" where
  "Init_string init input = do {
     (obj, end_ptr, err) \<leftarrow> init (c_str input);
     let offset = int (length (c_str input) - length end_ptr) + 1;
     if err = [] then
       if at_ptr (SkipSpaces end_ptr) \<noteq> NUL
       then Some (obj, ErrorMsg ''extra characters at the end'' offset)
       else Some (obj, [])
     else Some (obj, ErrorMsg err offset)
   }"

text \<open>
  \<open>SharpPoint::ParseNext\<close>: a symbol and a number in a range. \<open>cast\<close> is the conversion of
  the \<open>long\<close> to the type of the member, which happens before the range is checked. The result is
  the pointer, the member and the message.
\<close>

definition ParseNext ::
    "(int \<Rightarrow> int) \<Rightarrow> string \<Rightarrow> char \<Rightarrow> int \<Rightarrow> int \<Rightarrow> int \<Rightarrow> string \<times> int \<times> string" where
  "ParseNext cast current symbol range_begin range_end result =
     (if at_ptr current \<noteq> symbol then (current, result, [])
      else
        let current = tl current in
        if \<not> IS_DIGIT (at_ptr current) then (current, result, ''number expected'')
        else
          let (n, parse_end) = strtol current;
              result = cast n
          in if range_begin \<le> result \<and> result \<le> range_end then (parse_end, result, [])
             else (current, result, ''number out of range''))"

section \<open>Printed fields\<close>

text \<open>A field as the \<open>PrintShort\<close> functions write it.\<close>

definition print_field :: "char \<Rightarrow> bool \<Rightarrow> int \<Rightarrow> string" where
  "print_field symbol defined v = (if defined then symbol # print_int v else [])"

lemma at_ptr_print_field [simp]:
  "at_ptr (print_field symbol defined v @ r) = (if defined then symbol else at_ptr r)"
  by (simp add: print_field_def)

lemma print_field_undefined [simp]: "print_field symbol False v = []"
  by (simp add: print_field_def)

lemma at_ptr_print_nat [simp]: "IS_DIGIT (at_ptr (print_nat n @ r))"
  using print_nat_digits [of n] by (cases "print_nat n") simp_all

lemma at_ptr_print_int: "0 \<le> v \<Longrightarrow> IS_DIGIT (at_ptr (print_int v @ r))"
  by (simp add: print_int_def)

lemma strtol_print_int: "0 \<le> v \<Longrightarrow> v < 2 ^ 63 \<Longrightarrow> \<not> IS_DIGIT (at_ptr r) \<Longrightarrow> strtol (print_int v @ r) = (v, r)"
  using strtol_print_nat [of "nat v" r] by (simp add: print_int_def)

text \<open>The next field is read back, or left alone when it was not written.\<close>

lemma ParseNext_print_field:
  assumes "defined \<Longrightarrow> 0 \<le> v \<and> v < 2 ^ 63 \<and> lo \<le> v \<and> v \<le> hi \<and> cast v = v"
    and "\<not> IS_DIGIT (at_ptr r)" "\<not> defined \<Longrightarrow> at_ptr r \<noteq> symbol"
  shows "ParseNext cast (print_field symbol defined v @ r) symbol lo hi old =
    (r, if defined then v else old, [])"
  using assms strtol_print_int [of v r] at_ptr_print_int [of v r]
  by (cases defined) (simp_all add: ParseNext_def print_field_def)

lemma ParseNext_other: "at_ptr r \<noteq> symbol \<Longrightarrow> ParseNext cast r symbol lo hi old = (r, old, [])"
  by (simp add: ParseNext_def)

lemma ParseNext_cases:
  assumes "ParseNext cast s symbol lo hi old = (r, v, [])"
  shows "v = old \<or> lo \<le> v \<and> v \<le> hi"
  using assms by (auto simp: ParseNext_def Let_def split: if_splits prod.splits)


lemma print_int_no_NUL [simp]: "NUL \<notin> set (print_int v)"
  using print_nat_digits [of "nat v"] print_nat_digits [of "nat (- v)"] digit_not_special
  by (auto simp: print_int_def)

lemma print_field_no_NUL [simp]: "c \<noteq> NUL \<Longrightarrow> NUL \<notin> set (print_field c b v)"
  by (simp add: print_field_def)

end
