(* ===== verification/SharpPoint.thy ===== *)
theory SharpPoint
  imports PointParse
begin

text \<open>
  \<open>util/time/sharppoint.h\<close> and \<open>sharppoint.cc\<close>: a recurring point in time such as "the
  first Monday of January". The members other than the year are \<open>char\<close>s; \<open>int8\<close> is the
  conversion to one. The text forms are here, with the search for the next and the previous time that
  matches; what the search finds is shown in \<open>SharpPoint_Search\<close>.
\<close>

section \<open>The class\<close>

record sharppoint =
  sp_year :: int
  sp_month :: int
  sp_week_in_year :: int
  sp_week_in_month :: int
  sp_day_in_week :: int
  sp_day_in_month :: int
  sp_hour :: int
  sp_minute :: int
  sp_second :: int

definition UNDEFINED :: int where
  "UNDEFINED = - 100"

definition INFINITY_INT :: int where
  "INFINITY_INT = 2147483647"

definition sp_Clear :: sharppoint where
  "sp_Clear = \<lparr>sp_year = UNDEFINED, sp_month = UNDEFINED, sp_week_in_year = UNDEFINED,
     sp_week_in_month = UNDEFINED, sp_day_in_week = UNDEFINED, sp_day_in_month = UNDEFINED,
     sp_hour = UNDEFINED, sp_minute = UNDEFINED, sp_second = UNDEFINED\<rparr>"

definition AllEmpty :: "sharppoint \<Rightarrow> bool" where
  "AllEmpty sp \<longleftrightarrow>
     sp_year sp = UNDEFINED \<and> sp_month sp = UNDEFINED \<and> sp_week_in_year sp = UNDEFINED \<and>
     sp_week_in_month sp = UNDEFINED \<and> sp_day_in_week sp = UNDEFINED \<and>
     sp_day_in_month sp = UNDEFINED \<and> sp_hour sp = UNDEFINED \<and> sp_minute sp = UNDEFINED \<and>
     sp_second sp = UNDEFINED"

section \<open>Parsing\<close>

text \<open>One step of the parser: \<open>ParseNext\<close> on a member given by its update function.\<close>

definition parse_member ::
    "((int \<Rightarrow> int) \<Rightarrow> sharppoint \<Rightarrow> sharppoint) \<Rightarrow> string \<times> int \<times> string \<Rightarrow> sharppoint \<Rightarrow> sharppoint parsed option" where
  "parse_member upd r sp = (case r of (p, v, msg) \<Rightarrow> Some (upd (\<lambda>_. v) sp, p, msg))"

definition ParseWeekDaySpec :: "string \<Rightarrow> sharppoint \<Rightarrow> sharppoint parsed" where
  "ParseWeekDaySpec current sp =
     (if IS_DIGIT (at_ptr (tl current)) \<and> IS_DIGIT (at_ptr (tl (tl current))) then
        let current = tl current;
            sp = sp\<lparr>sp_week_in_month := digit_val (at_ptr current)\<rparr>
        in if sp_week_in_month sp < 1 \<or> 5 < sp_week_in_month sp then (sp, current, ''number out of range'')
           else
             let current = tl current;
                 sp = sp\<lparr>sp_day_in_week := digit_val (at_ptr current)\<rparr>
             in if sp_day_in_week sp < 1 \<or> 7 < sp_day_in_week sp then (sp, current, ''number out of range'')
                else (sp, tl current, [])
      else (sp, current, ''syntax error''))"

definition ParseDay :: "string \<Rightarrow> sharppoint \<Rightarrow> sharppoint parsed option" where
  "ParseDay current sp =
     (if at_ptr current = CHR ''d'' then do {
        max_days \<leftarrow> MaxDaysInMonth (sp_year sp) (sp_month sp);
        parse_member sp_day_in_month_update
          (ParseNext int8 current (CHR ''d'') 1 max_days (sp_day_in_month sp)) sp
      }
      else if at_ptr current = CHR ''f'' then Some (ParseWeekDaySpec current sp)
      else if at_ptr current = CHR ''l'' then
        (case ParseWeekDaySpec current sp of
           (sp, ret, msg) \<Rightarrow> Some (sp\<lparr>sp_week_in_month := int8 (- sp_week_in_month sp)\<rparr>, ret, msg))
      else if at_ptr current = CHR ''t'' then
        parse_member sp_day_in_week_update
          (ParseNext int8 current (CHR ''t'') 1 7 (sp_day_in_week sp)) sp
      else Some (sp, current, []))"

definition InitFromSpec :: "string \<Rightarrow> sharppoint \<Rightarrow> sharppoint parsed option" where
  "InitFromSpec start sp =
     and_then (and_then (and_then (and_then (and_then
       (parse_member sp_year_update (ParseNext int32 start (CHR ''y'') 1970 INFINITY_INT (sp_year sp)) sp)
     (\<lambda>sp e. parse_member sp_month_update (ParseNext int8 e (CHR ''M'') 1 12 (sp_month sp)) sp))
     (\<lambda>sp e.
        if sp_month sp \<noteq> UNDEFINED then ParseDay e sp
        else and_then
          (parse_member sp_week_in_year_update (ParseNext int8 e (CHR ''w'') 1 53 (sp_week_in_year sp)) sp)
          (\<lambda>sp e.
             if sp_week_in_year sp \<noteq> UNDEFINED then
               parse_member sp_day_in_week_update (ParseNext int8 e (CHR ''t'') 1 7 (sp_day_in_week sp)) sp
             else ParseDay e sp)))
     (\<lambda>sp e. parse_member sp_hour_update (ParseNext int8 e (CHR ''h'') 0 23 (sp_hour sp)) sp))
     (\<lambda>sp e. parse_member sp_minute_update (ParseNext int8 e (CHR ''m'') 0 59 (sp_minute sp)) sp))
     (\<lambda>sp e. parse_member sp_second_update (ParseNext int8 e (CHR ''s'') 0 59 (sp_second sp)) sp)"

definition SetDefaultValues :: "sharppoint \<Rightarrow> sharppoint option" where
  "SetDefaultValues sp =
     (if AllEmpty sp then Some sp
      else if sp_second sp = UNDEFINED then
        let sp = sp\<lparr>sp_second := 0\<rparr> in
        if sp_minute sp = UNDEFINED then
          let sp = sp\<lparr>sp_minute := 0\<rparr> in
          if sp_hour sp = UNDEFINED then
            let sp = sp\<lparr>sp_hour := 0\<rparr> in
            if sp_day_in_month sp = UNDEFINED \<and> sp_day_in_week sp = UNDEFINED \<and>
               sp_week_in_month sp = UNDEFINED then
              let sp = (if sp_week_in_year sp \<noteq> UNDEFINED then sp\<lparr>sp_day_in_week := 1\<rparr>
                        else sp\<lparr>sp_day_in_month := 1\<rparr>) in
              if sp_week_in_year sp = UNDEFINED \<and> sp_month sp = UNDEFINED then do {
                let sp = sp\<lparr>sp_month := 1\<rparr>;
                ASSERT (sp_year sp \<noteq> UNDEFINED);
                Some sp
              }
              else Some sp
            else Some sp
          else Some sp
        else Some sp
      else Some sp)"

definition sp_Init :: "string \<Rightarrow> sharppoint \<Rightarrow> sharppoint parsed option" where
  "sp_Init start sp = do {
     (sp, endptr, error_msg) \<leftarrow> InitFromSpec (SkipSpaces start) sp;
     if error_msg = [] then do {
       sp \<leftarrow> SetDefaultValues sp;
       Some (sp, endptr, [])
     }
     else Some (sp, endptr, error_msg)
   }"

section \<open>Printing\<close>

definition count_txt :: "string list" where
  "count_txt = [''5th-to-last'', ''4th-to-last'', ''3rd-to-last'', ''2nd-to-last'', ''last'', ''**'',
     ''1st'', ''2nd'', ''3rd'', ''4th'', ''5th'']"

definition wday_name :: "string list" where
  "wday_name = [''Sunday'', ''Monday'', ''Tuesday'', ''Wednesday'', ''Thursday'', ''Friday'', ''Saturday'']"

definition print_clock :: "int \<Rightarrow> string" where
  "print_clock v = (if v \<noteq> UNDEFINED then setw0 2 (print_int v) else ''**'')"

definition sp_Print :: "sharppoint \<Rightarrow> string option" where
  "sp_Print sp = do {
     let year = (if sp_year sp = UNDEFINED then ''any year, '' else ''year '' @ print_int (sp_year sp) @ '', '');
     month \<leftarrow>
       (if sp_month sp \<noteq> UNDEFINED then do {
          ASSERT (sp_week_in_year sp = UNDEFINED);
          Some (''month '' @ print_int (sp_month sp) @ '', '')
        }
        else if sp_week_in_year sp \<noteq> UNDEFINED then do {
          ASSERT (sp_week_in_month sp = UNDEFINED);
          ASSERT (sp_day_in_month sp = UNDEFINED);
          Some (''week '' @ print_int (sp_week_in_year sp) @ '', '')
        }
        else Some ''any month, '');
     nth_week \<leftarrow>
       (if sp_week_in_month sp \<noteq> UNDEFINED then do {
          ASSERT (- 5 \<le> sp_week_in_month sp \<and> sp_week_in_month sp \<le> 5 \<and> sp_week_in_month sp \<noteq> 0);
          ASSERT (sp_day_in_week sp \<noteq> UNDEFINED);
          Some (count_txt ! nat (sp_week_in_month sp + 5) @ '' '')
        }
        else Some []);
     weekday \<leftarrow>
       (if sp_day_in_week sp \<noteq> UNDEFINED then do {
          ASSERT (1 \<le> sp_day_in_week sp \<and> sp_day_in_week sp \<le> 7);
          Some (wday_name ! nat (sp_day_in_week sp - 1) @ '', '')
        }
        else Some []);
     day \<leftarrow>
       (if sp_day_in_month sp \<noteq> UNDEFINED then do {
          ASSERT (sp_week_in_month sp = UNDEFINED);
          ASSERT (sp_week_in_year sp = UNDEFINED);
          Some (''day '' @ print_int (sp_day_in_month sp) @ '', '')
        }
        else Some []);
     Some (year @ month @ nth_week @ weekday @ day @ print_clock (sp_hour sp) @ '':'' @
       print_clock (sp_minute sp) @ '':'' @ print_clock (sp_second sp))
   }"

definition sp_PrintShort :: "sharppoint \<Rightarrow> string option" where
  "sp_PrintShort sp = do {
     let year = print_field (CHR ''y'') (sp_year sp \<noteq> UNDEFINED) (sp_year sp);
     month \<leftarrow>
       (if sp_month sp \<noteq> UNDEFINED then do {
          ASSERT (sp_week_in_year sp = UNDEFINED);
          Some (CHR ''M'' # print_int (sp_month sp))
        }
        else if sp_week_in_year sp \<noteq> UNDEFINED then do {
          ASSERT (sp_week_in_month sp = UNDEFINED);
          ASSERT (sp_day_in_month sp = UNDEFINED);
          Some (CHR ''w'' # print_int (sp_week_in_year sp))
        }
        else Some []);
     day \<leftarrow>
       (if sp_week_in_month sp \<noteq> UNDEFINED then do {
          ASSERT (- 5 \<le> sp_week_in_month sp \<and> sp_week_in_month sp \<le> 5 \<and> sp_week_in_month sp \<noteq> 0);
          ASSERT (sp_day_in_week sp \<noteq> UNDEFINED);
          Some (if 0 < sp_week_in_month sp
            then CHR ''f'' # print_int (sp_week_in_month sp) @ print_int (sp_day_in_week sp)
            else CHR ''l'' # print_int (- sp_week_in_month sp) @ print_int (sp_day_in_week sp))
        }
        else if sp_day_in_week sp \<noteq> UNDEFINED then do {
          ASSERT (1 \<le> sp_day_in_week sp \<and> sp_day_in_week sp \<le> 7);
          Some (CHR ''t'' # print_int (sp_day_in_week sp))
        }
        else if sp_day_in_month sp \<noteq> UNDEFINED then do {
          ASSERT (sp_week_in_month sp = UNDEFINED);
          ASSERT (sp_week_in_year sp = UNDEFINED);
          Some (CHR ''d'' # print_int (sp_day_in_month sp))
        }
        else Some []);
     Some (year @ month @ day @
       print_field (CHR ''h'') (sp_hour sp \<noteq> UNDEFINED) (sp_hour sp) @
       print_field (CHR ''m'') (sp_minute sp \<noteq> UNDEFINED) (sp_minute sp) @
       print_field (CHR ''s'') (sp_second sp \<noteq> UNDEFINED) (sp_second sp))
   }"

section \<open>Searching\<close>

definition LocateByWeekAndDay :: "sharppoint \<Rightarrow> int \<Rightarrow> int \<Rightarrow> int \<Rightarrow> int \<Rightarrow> int option" where
  "LocateByWeekAndDay sp year month week_in_month day_in_week = do {
     last_day \<leftarrow> MaxDaysInMonth year month;
     if 0 < week_in_month then do {
       ASSERT (1 \<le> week_in_month \<and> week_in_month \<le> 5);
       day_of_week_on_1st \<leftarrow> GetDayOfWeek year month 1;
       let first_appearance = 1 + (if day_of_week_on_1st \<le> day_in_week
             then day_in_week - day_of_week_on_1st else day_in_week + 7 - day_of_week_on_1st);
       let candidate = first_appearance + 7 * (sp_week_in_month sp - 1);
       if last_day < candidate then do {
         ASSERT (week_in_month = 5);
         Some last_day
       }
       else Some candidate
     }
     else do {
       ASSERT (week_in_month \<le> - 1 \<and> - 5 \<le> week_in_month);
       day_of_week_on_last \<leftarrow> GetDayOfWeek year month last_day;
       let last_appearance = last_day - (if day_in_week \<le> day_of_week_on_last
             then day_of_week_on_last - day_in_week else day_of_week_on_last + 7 - day_in_week);
       let candidate = last_appearance - 7 * (- week_in_month - 1);
       if candidate < 1 then do {
         ASSERT (week_in_month = - 5);
         Some 1
       }
       else Some candidate
     }
   }"

text \<open>
  A pass of the loop of \<open>ModifyTime\<close>: each paragraph either leaves the time alone, sets a new
  time and starts the next pass (\<open>continue\<close>), or gives up (\<open>break\<close>).
\<close>

datatype adjusted = Unchanged | Changed localtime | Impossible

definition otherwise :: "adjusted option \<Rightarrow> adjusted option \<Rightarrow> adjusted option" where
  "otherwise a b = (if a = Some Unchanged then b else a)"

definition adjust_1970 :: "sharppoint \<Rightarrow> bool \<Rightarrow> localtime \<Rightarrow> adjusted option" where
  "adjust_1970 sp get_next t = Some (if ld_y t \<le> 1970 then Impossible else Unchanged)"

definition adjust_year :: "sharppoint \<Rightarrow> bool \<Rightarrow> localtime \<Rightarrow> adjusted option" where
  "adjust_year sp get_next t =
     (if sp_year sp \<noteq> UNDEFINED \<and> sp_year sp \<noteq> ld_y t then
        if ld_y t < sp_year sp then
          if \<not> get_next then Some Impossible
          else map_option Changed (lt_Set (sp_year sp) 1 1 0 0 0 t)
        else
          if get_next then Some Impossible
          else map_option Changed (lt_Set (sp_year sp) 12 31 23 59 59 t)
      else Some Unchanged)"

definition adjust_month :: "sharppoint \<Rightarrow> bool \<Rightarrow> localtime \<Rightarrow> adjusted option" where
  "adjust_month sp get_next t =
     (if sp_month sp \<noteq> UNDEFINED \<and> sp_month sp \<noteq> ld_m t then
        let target_year = ld_y t;
            target_year = (if \<not> get_next \<and> ld_m t < sp_month sp then target_year - 1 else target_year);
            target_year = (if get_next \<and> sp_month sp < ld_m t then target_year + 1 else target_year)
        in
        if \<not> get_next then do {
          n \<leftarrow> MaxDaysInMonth target_year (sp_month sp);
          map_option Changed (lt_Set target_year (sp_month sp) n 23 59 59 t)
        }
        else map_option Changed (lt_Set target_year (sp_month sp) 1 0 0 0 t)
      else Some Unchanged)"

definition adjust_week :: "sharppoint \<Rightarrow> bool \<Rightarrow> localtime \<Rightarrow> adjusted option" where
  "adjust_week sp get_next t =
     (if sp_week_in_year sp \<noteq> UNDEFINED then do {
        ASSERT (sp_month sp = UNDEFINED);
        day_of_year \<leftarrow> GetDayOfYear (ld_y t) (ld_m t) (ld_d t);
        let current_week = (day_of_year - 1) sdiv 7 + 1;
        if sp_week_in_year sp \<noteq> current_week then do {
          ASSERT (1 \<le> sp_week_in_year sp \<and> sp_week_in_year sp \<le> 53);
          let target_year = ld_y t;
          let target_year = (if \<not> get_next \<and> current_week < sp_week_in_year sp then target_year - 1 else target_year);
          let target_year = (if get_next \<and> sp_week_in_year sp < current_week then target_year + 1 else target_year);
          if \<not> get_next then do {
            let n = sp_week_in_year sp * 7;
            let n = (if TotalDaysInYear target_year < n then TotalDaysInYear target_year else n);
            (new_month, new_day) \<leftarrow> FindByDayNum target_year n;
            map_option Changed (lt_Set target_year new_month new_day 23 59 59 t)
          }
          else do {
            let n = sp_week_in_year sp * 7 - 6;
            (new_month, new_day) \<leftarrow> FindByDayNum target_year n;
            map_option Changed (lt_Set target_year new_month new_day 0 0 0 t)
          }
        }
        else Some Unchanged
      }
      else Some Unchanged)"

text \<open>Moving to a day of this month, or to the neighbouring month when it has passed.\<close>

definition adjust_to_day :: "int \<Rightarrow> bool \<Rightarrow> localtime \<Rightarrow> adjusted option" where
  "adjust_to_day day get_next t =
     (if day \<noteq> ld_d t then
        if \<not> get_next then
          if day < ld_d t then map_option Changed (lt_Set NO_CHANGE NO_CHANGE day 23 59 59 t)
          else map_option Changed (lt_Set NO_CHANGE NO_CHANGE 0 23 59 59 t)
        else
          if ld_d t < day then map_option Changed (lt_Set NO_CHANGE NO_CHANGE day 0 0 0 t)
          else map_option Changed (lt_Set NO_CHANGE (ld_m t + 1) 1 0 0 0 t)
      else Some Unchanged)"

definition adjust_day :: "sharppoint \<Rightarrow> bool \<Rightarrow> localtime \<Rightarrow> adjusted option" where
  "adjust_day sp get_next t =
     (if sp_week_in_month sp \<noteq> UNDEFINED then do {
        ASSERT (sp_week_in_year sp = UNDEFINED);
        ASSERT (sp_day_in_week sp \<noteq> UNDEFINED);
        candidate_this_month \<leftarrow>
          LocateByWeekAndDay sp (ld_y t) (ld_m t) (sp_week_in_month sp) (sp_day_in_week sp);
        adjust_to_day candidate_this_month get_next t
      }
      else if sp_day_in_month sp \<noteq> UNDEFINED then do {
        ASSERT (sp_day_in_week sp = UNDEFINED);
        adjust_to_day (sp_day_in_month sp) get_next t
      }
      else if sp_day_in_week sp \<noteq> UNDEFINED then do {
        ASSERT (sp_day_in_month sp = UNDEFINED);
        d \<leftarrow> GetDayOfWeek (ld_y t) (ld_m t) (ld_d t);
        if sp_day_in_week sp \<noteq> d then
          if \<not> get_next then do {
            let delta = (if sp_day_in_week sp < d then d - sp_day_in_week sp else d + 7 - sp_day_in_week sp);
            map_option Changed (lt_Set NO_CHANGE NO_CHANGE (ld_d t - delta) 23 59 59 t)
          }
          else do {
            let delta = (if d < sp_day_in_week sp then sp_day_in_week sp - d else sp_day_in_week sp + 7 - d);
            map_option Changed (lt_Set NO_CHANGE NO_CHANGE (ld_d t + delta) 0 0 0 t)
          }
        else Some Unchanged
      }
      else Some Unchanged)"

definition adjust_hour :: "sharppoint \<Rightarrow> bool \<Rightarrow> localtime \<Rightarrow> adjusted option" where
  "adjust_hour sp get_next t =
     (if sp_hour sp \<noteq> UNDEFINED \<and> sp_hour sp \<noteq> lt_h t then
        let target_day = ld_d t;
            target_day = (if \<not> get_next \<and> lt_h t < sp_hour sp then target_day - 1 else target_day);
            target_day = (if get_next \<and> sp_hour sp < lt_h t then target_day + 1 else target_day)
        in
        if \<not> get_next then map_option Changed (lt_Set NO_CHANGE NO_CHANGE target_day (sp_hour sp) 59 59 t)
        else map_option Changed (lt_Set NO_CHANGE NO_CHANGE target_day (sp_hour sp) 0 0 t)
      else Some Unchanged)"

definition adjust_minute :: "sharppoint \<Rightarrow> bool \<Rightarrow> localtime \<Rightarrow> adjusted option" where
  "adjust_minute sp get_next t =
     (if sp_minute sp \<noteq> UNDEFINED \<and> sp_minute sp \<noteq> lt_mn t then
        let target_hour = lt_h t;
            target_hour = (if \<not> get_next \<and> lt_mn t < sp_minute sp then target_hour - 1 else target_hour);
            target_hour = (if get_next \<and> sp_minute sp < lt_mn t then target_hour + 1 else target_hour)
        in
        if \<not> get_next
        then map_option Changed (lt_Set NO_CHANGE NO_CHANGE NO_CHANGE target_hour (sp_minute sp) 59 t)
        else map_option Changed (lt_Set NO_CHANGE NO_CHANGE NO_CHANGE target_hour (sp_minute sp) 0 t)
      else Some Unchanged)"

definition adjust_second :: "sharppoint \<Rightarrow> bool \<Rightarrow> localtime \<Rightarrow> adjusted option" where
  "adjust_second sp get_next t =
     (if sp_second sp \<noteq> UNDEFINED \<and> sp_second sp \<noteq> lt_s t then
        let target_minute = lt_mn t;
            target_minute = (if \<not> get_next \<and> lt_s t < sp_second sp then target_minute - 1 else target_minute);
            target_minute = (if get_next \<and> sp_second sp < lt_s t then target_minute + 1 else target_minute)
        in map_option Changed (lt_Set NO_CHANGE NO_CHANGE NO_CHANGE NO_CHANGE target_minute (sp_second sp) t)
      else Some Unchanged)"

definition ModifyTime_pass :: "sharppoint \<Rightarrow> bool \<Rightarrow> localtime \<Rightarrow> adjusted option" where
  "ModifyTime_pass sp get_next t =
     otherwise (adjust_1970 sp get_next t)
     (otherwise (adjust_year sp get_next t)
     (otherwise (adjust_month sp get_next t)
     (otherwise (adjust_week sp get_next t)
     (otherwise (adjust_day sp get_next t)
     (otherwise (adjust_hour sp get_next t)
     (otherwise (adjust_minute sp get_next t)
     (adjust_second sp get_next t)))))))"

partial_function (option) ModifyTime_loop ::
    "sharppoint \<Rightarrow> bool \<Rightarrow> localtime \<Rightarrow> (bool \<times> localtime) option" where
  "ModifyTime_loop sp get_next newtime = do {
     a \<leftarrow> ModifyTime_pass sp get_next newtime;
     case a of
       Unchanged \<Rightarrow> Some (True, newtime)
     | Changed newtime' \<Rightarrow> ModifyTime_loop sp get_next newtime'
     | Impossible \<Rightarrow> Some (False, newtime)
   }"

definition ModifyTime :: "sharppoint \<Rightarrow> localtime \<Rightarrow> bool \<Rightarrow> (bool \<times> localtime) option" where
  "ModifyTime sp current get_next = do {
     ASSERT (IsFinite current);
     (found, newtime) \<leftarrow> ModifyTime_loop sp get_next current;
     Some (found, if \<not> found then (if get_next then lt_InfiniteFuture else lt_InfinitePast) else newtime)
   }"

definition sp_GetNext :: "sharppoint \<Rightarrow> localtime \<Rightarrow> (bool \<times> localtime) option" where
  "sp_GetNext sp current = ModifyTime sp current True"

definition sp_GetPrevious :: "sharppoint \<Rightarrow> localtime \<Rightarrow> (bool \<times> localtime) option" where
  "sp_GetPrevious sp current = ModifyTime sp current False"


section \<open>What the parser produces\<close>

text \<open>The members a parsed object can have: each in its range, and one way of giving the day.\<close>

definition opt_range :: "int \<Rightarrow> int \<Rightarrow> int \<Rightarrow> bool" where
  "opt_range lo hi v \<longleftrightarrow> v = UNDEFINED \<or> lo \<le> v \<and> v \<le> hi"

definition day_fits_month :: "int \<Rightarrow> int \<Rightarrow> int \<Rightarrow> bool" where
  "day_fits_month y m d \<longleftrightarrow>
     d = UNDEFINED \<or> 1 \<le> d \<and> (case MaxDaysInMonth y m of None \<Rightarrow> False | Some n \<Rightarrow> d \<le> n)"

definition sp_ok :: "sharppoint \<Rightarrow> bool" where
  "sp_ok sp \<longleftrightarrow>
     opt_range 1970 INFINITY_INT (sp_year sp) \<and> opt_range 1 12 (sp_month sp) \<and>
     opt_range 1 53 (sp_week_in_year sp) \<and> opt_range (- 5) 5 (sp_week_in_month sp) \<and>
     sp_week_in_month sp \<noteq> 0 \<and> opt_range 1 7 (sp_day_in_week sp) \<and>
     day_fits_month (sp_year sp) (sp_month sp) (sp_day_in_month sp) \<and>
     opt_range 0 23 (sp_hour sp) \<and> opt_range 0 59 (sp_minute sp) \<and> opt_range 0 59 (sp_second sp) \<and>
     (sp_week_in_year sp \<noteq> UNDEFINED \<longrightarrow> sp_month sp = UNDEFINED \<and> sp_week_in_month sp = UNDEFINED) \<and>
     (sp_week_in_month sp \<noteq> UNDEFINED \<longrightarrow> sp_day_in_week sp \<noteq> UNDEFINED) \<and>
     (sp_day_in_month sp \<noteq> UNDEFINED \<longrightarrow> sp_week_in_year sp = UNDEFINED \<and> sp_day_in_week sp = UNDEFINED)"

lemma opt_range_UNDEFINED [simp]: "opt_range lo hi UNDEFINED"
  by (simp add: opt_range_def)

lemma opt_rangeI [intro]: "lo \<le> v \<Longrightarrow> v \<le> hi \<Longrightarrow> opt_range lo hi v"
  by (simp add: opt_range_def)

lemma day_fits_month_UNDEFINED [simp]: "day_fits_month y m UNDEFINED"
  by (simp add: day_fits_month_def)

lemma and_then_SomeD:
  assumes "and_then r f = Some (x, e, [])"
  obtains x' e' where "r = Some (x', e', [])" "f x' e' = Some (x, e, [])"
  using assms by (auto simp: and_then_def split: bind_splits if_splits)

lemma and_then_Some [simp]: "and_then (Some (x, e, [])) f = f x e"
  by (simp add: and_then_def)

lemma parse_member_SomeD:
  assumes "parse_member upd (ParseNext cast p symbol lo hi old) sp = Some (sp', e, [])"
  obtains v where "sp' = upd (\<lambda>_. v) sp" "v = old \<or> lo \<le> v \<and> v \<le> hi"
    "opt_range lo hi old \<longrightarrow> opt_range lo hi v"
  using assms ParseNext_cases [of cast p symbol lo hi old]
  by (auto simp: parse_member_def opt_range_def split: prod.splits)

text \<open>A day specification, in front of which no day has been given.\<close>

definition no_day :: "sharppoint \<Rightarrow> bool" where
  "no_day sp \<longleftrightarrow> sp_week_in_month sp = UNDEFINED \<and> sp_day_in_week sp = UNDEFINED \<and> sp_day_in_month sp = UNDEFINED"

lemma digit_val_bounds: "IS_DIGIT c \<Longrightarrow> 0 \<le> digit_val c \<and> digit_val c \<le> 9"
  by (auto simp: IS_DIGIT_def digit_val_def)

lemma ParseWeekDaySpec_ok:
  assumes "ParseWeekDaySpec p sp = (sp', e, [])" "sp_ok sp" "no_day sp" "sp_week_in_year sp = UNDEFINED"
  shows "sp_ok sp'" and "sp_ok (sp'\<lparr>sp_week_in_month := int8 (- sp_week_in_month sp')\<rparr>)"
proof -
  obtain w d where w: "1 \<le> w" "w \<le> 5" "1 \<le> d" "d \<le> 7" and
    sp': "sp' = sp\<lparr>sp_week_in_month := w, sp_day_in_week := d\<rparr>"
    by (rule that [of "digit_val (at_ptr (tl p))" "digit_val (at_ptr (tl (tl p)))"])
      (use assms(1) in \<open>auto simp: ParseWeekDaySpec_def Let_def split: if_splits\<close>)
  have u: "int8 (- w) = - w" "d \<noteq> UNDEFINED" using w by (simp_all add: UNDEFINED_def)
  show "sp_ok sp'" "sp_ok (sp'\<lparr>sp_week_in_month := int8 (- sp_week_in_month sp')\<rparr>)"
    using assms(2-4) w u unfolding sp' by (simp_all add: sp_ok_def no_day_def opt_range_def)
qed

lemma ParseDay_ok:
  assumes "ParseDay p sp = Some (sp', e, [])" "sp_ok sp" "no_day sp" "sp_week_in_year sp = UNDEFINED"
  shows "sp_ok sp'"
proof -
  consider (d) "at_ptr p = CHR ''d''" | (f) "at_ptr p = CHR ''f''" | (l) "at_ptr p = CHR ''l''"
    | (t) "at_ptr p = CHR ''t''" | (other) "at_ptr p \<notin> set ''dflt''" by auto
  then show ?thesis
  proof cases
    case d
    then obtain n where n: "MaxDaysInMonth (sp_year sp) (sp_month sp) = Some n"
      and "parse_member sp_day_in_month_update (ParseNext int8 p (CHR ''d'') 1 n (sp_day_in_month sp)) sp = Some (sp', e, [])"
      using assms(1) by (auto simp: ParseDay_def split: bind_splits)
    from this(2) obtain v where "sp' = sp_day_in_month_update (\<lambda>_. v) sp" "v = sp_day_in_month sp \<or> 1 \<le> v \<and> v \<le> n"
      by (rule parse_member_SomeD)
    then have "sp' = sp\<lparr>sp_day_in_month := v\<rparr>" "day_fits_month (sp_year sp) (sp_month sp) v"
      using assms(3) n by (auto simp: day_fits_month_def no_day_def)
    then show ?thesis using assms(2-4) by (simp add: sp_ok_def no_day_def)
  next
    case f
    then show ?thesis using assms ParseWeekDaySpec_ok(1) by (simp add: ParseDay_def)
  next
    case l
    obtain sp1 e1 m1 where w: "ParseWeekDaySpec p sp = (sp1, e1, m1)" by (cases "ParseWeekDaySpec p sp")
    then show ?thesis using assms l ParseWeekDaySpec_ok(2) [of p sp sp1 e1] by (simp add: ParseDay_def)
  next
    case t
    then have "parse_member sp_day_in_week_update (ParseNext int8 p (CHR ''t'') 1 7 (sp_day_in_week sp)) sp = Some (sp', e, [])"
      using assms(1) by (simp add: ParseDay_def)
    then obtain v where "sp' = sp_day_in_week_update (\<lambda>_. v) sp" "opt_range 1 7 (sp_day_in_week sp) \<longrightarrow> opt_range 1 7 v"
      by (rule parse_member_SomeD)
    then show ?thesis using assms(2-4) by (simp add: sp_ok_def no_day_def)
  next
    case other
    then show ?thesis using assms by (auto simp: ParseDay_def)
  qed
qed

lemma sp_ok_clock:
  "sp_ok sp \<Longrightarrow> opt_range 0 23 v \<Longrightarrow> sp_ok (sp\<lparr>sp_hour := v\<rparr>)"
  "sp_ok sp \<Longrightarrow> opt_range 0 59 v \<Longrightarrow> sp_ok (sp\<lparr>sp_minute := v\<rparr>)"
  "sp_ok sp \<Longrightarrow> opt_range 0 59 v \<Longrightarrow> sp_ok (sp\<lparr>sp_second := v\<rparr>)"
  by (simp_all add: sp_ok_def)

lemma sp_ok_hms:
  "sp_ok sp \<Longrightarrow> opt_range 0 23 (sp_hour sp) \<and> opt_range 0 59 (sp_minute sp) \<and> opt_range 0 59 (sp_second sp)"
  by (simp add: sp_ok_def)

lemma InitFromSpec_ok:
  assumes "InitFromSpec p sp_Clear = Some (sp', e, [])"
  shows "sp_ok sp'"
proof -
  let ?ok = "\<lambda>sp. sp_ok sp \<and> no_day sp \<and> sp_week_in_year sp = UNDEFINED"
  from assms obtain sp1 e1 sp2 e2 sp3 e3 sp4 e4 sp5 e5
    where r: "parse_member sp_year_update (ParseNext int32 p (CHR ''y'') 1970 INFINITY_INT (sp_year sp_Clear)) sp_Clear = Some (sp1, e1, [])"
      "parse_member sp_month_update (ParseNext int8 e1 (CHR ''M'') 1 12 (sp_month sp1)) sp1 = Some (sp2, e2, [])"
      "(if sp_month sp2 \<noteq> UNDEFINED then ParseDay e2 sp2
        else and_then
          (parse_member sp_week_in_year_update (ParseNext int8 e2 (CHR ''w'') 1 53 (sp_week_in_year sp2)) sp2)
          (\<lambda>sp e.
             if sp_week_in_year sp \<noteq> UNDEFINED then
               parse_member sp_day_in_week_update (ParseNext int8 e (CHR ''t'') 1 7 (sp_day_in_week sp)) sp
             else ParseDay e sp)) = Some (sp3, e3, [])"
      "parse_member sp_hour_update (ParseNext int8 e3 (CHR ''h'') 0 23 (sp_hour sp3)) sp3 = Some (sp4, e4, [])"
      "parse_member sp_minute_update (ParseNext int8 e4 (CHR ''m'') 0 59 (sp_minute sp4)) sp4 = Some (sp5, e5, [])"
      "parse_member sp_second_update (ParseNext int8 e5 (CHR ''s'') 0 59 (sp_second sp5)) sp5 = Some (sp', e, [])"
    unfolding InitFromSpec_def by (elim and_then_SomeD) blast
  obtain y where "sp1 = sp_Clear\<lparr>sp_year := y\<rparr>"
    "opt_range 1970 INFINITY_INT (sp_year sp_Clear) \<longrightarrow> opt_range 1970 INFINITY_INT y"
    by (rule parse_member_SomeD [OF r(1)])
  then have s1: "?ok sp1" "sp_month sp1 = UNDEFINED" "sp_day_in_month sp1 = UNDEFINED"
    by (simp_all add: sp_ok_def sp_Clear_def no_day_def) (simp add: UNDEFINED_def)
  obtain m where "sp2 = sp1\<lparr>sp_month := m\<rparr>" "opt_range 1 12 (sp_month sp1) \<longrightarrow> opt_range 1 12 m"
    by (rule parse_member_SomeD [OF r(2)])
  then have s2: "?ok sp2" using s1 by (simp add: sp_ok_def no_day_def)
  have "sp_ok sp3"
  proof (cases "sp_month sp2 = UNDEFINED")
    case False
    then show ?thesis using r(3) s2 ParseDay_ok [of e2 sp2 sp3 e3] by simp
  next
    case True
    with r(3) obtain spw ew where
      w: "parse_member sp_week_in_year_update (ParseNext int8 e2 (CHR ''w'') 1 53 (sp_week_in_year sp2)) sp2 = Some (spw, ew, [])"
      and d: "(if sp_week_in_year spw \<noteq> UNDEFINED then
               parse_member sp_day_in_week_update (ParseNext int8 ew (CHR ''t'') 1 7 (sp_day_in_week spw)) spw
             else ParseDay ew spw) = Some (sp3, e3, [])"
      by (auto elim!: and_then_SomeD)
    obtain v where v: "spw = sp2\<lparr>sp_week_in_year := v\<rparr>" "opt_range 1 53 (sp_week_in_year sp2) \<longrightarrow> opt_range 1 53 v"
      by (rule parse_member_SomeD [OF w])
    then have okw: "sp_ok spw" "no_day spw" using s2 True by (simp_all add: sp_ok_def no_day_def)
    show ?thesis
    proof (cases "sp_week_in_year spw = UNDEFINED")
      case True
      then show ?thesis using d okw ParseDay_ok [of ew spw sp3 e3] by simp
    next
      case False
      then obtain u where "sp3 = spw\<lparr>sp_day_in_week := u\<rparr>" "opt_range 1 7 (sp_day_in_week spw) \<longrightarrow> opt_range 1 7 u"
        using d by (auto elim: parse_member_SomeD)
      then show ?thesis using okw by (simp add: sp_ok_def no_day_def)
    qed
  qed
  moreover obtain h where "sp4 = sp3\<lparr>sp_hour := h\<rparr>" "opt_range 0 23 (sp_hour sp3) \<longrightarrow> opt_range 0 23 h"
    by (rule parse_member_SomeD [OF r(4)])
  ultimately have "sp_ok sp4" using sp_ok_clock(1) sp_ok_hms by simp
  moreover obtain n where "sp5 = sp4\<lparr>sp_minute := n\<rparr>" "opt_range 0 59 (sp_minute sp4) \<longrightarrow> opt_range 0 59 n"
    by (rule parse_member_SomeD [OF r(5)])
  ultimately have "sp_ok sp5" using sp_ok_clock(2) sp_ok_hms by simp
  moreover obtain s where "sp' = sp5\<lparr>sp_second := s\<rparr>" "opt_range 0 59 (sp_second sp5) \<longrightarrow> opt_range 0 59 s"
    by (rule parse_member_SomeD [OF r(6)])
  ultimately show ?thesis using sp_ok_clock(3) sp_ok_hms by simp
qed

text \<open>Filling in the defaults keeps the ranges, never meets the assertion and happens once.\<close>

lemma sp_ok_default_day:
  assumes "sp_ok sp" "no_day sp"
  shows "sp_week_in_year sp \<noteq> UNDEFINED \<Longrightarrow> sp_ok (sp\<lparr>sp_day_in_week := 1\<rparr>)"
    and "sp_week_in_year sp = UNDEFINED \<Longrightarrow> sp_month sp \<noteq> UNDEFINED \<Longrightarrow> sp_ok (sp\<lparr>sp_day_in_month := 1\<rparr>)"
    and "sp_week_in_year sp = UNDEFINED \<Longrightarrow> sp_ok (sp\<lparr>sp_day_in_month := 1, sp_month := 1\<rparr>)"
proof -
  have d: "day_fits_month y m 1" if "m \<noteq> UNDEFINED" "opt_range 1 12 m" for y m
    using that MaxDaysInMonth_bounds [of m y] by (auto simp: day_fits_month_def opt_range_def)
  have u: "(1::int) \<noteq> UNDEFINED" by (simp add: UNDEFINED_def)
  show "sp_week_in_year sp \<noteq> UNDEFINED \<Longrightarrow> sp_ok (sp\<lparr>sp_day_in_week := 1\<rparr>)"
    and "sp_week_in_year sp = UNDEFINED \<Longrightarrow> sp_month sp \<noteq> UNDEFINED \<Longrightarrow> sp_ok (sp\<lparr>sp_day_in_month := 1\<rparr>)"
    and "sp_week_in_year sp = UNDEFINED \<Longrightarrow> sp_ok (sp\<lparr>sp_day_in_month := 1, sp_month := 1\<rparr>)"
    using assms d u by (simp_all add: sp_ok_def no_day_def opt_rangeI)
qed

lemma zero_defined [simp]: "(0::int) \<noteq> UNDEFINED" "UNDEFINED \<noteq> 0" "(1::int) \<noteq> UNDEFINED"
  by (simp_all add: UNDEFINED_def)

lemma SetDefaultValues_ok:
  assumes "sp_ok sp"
  shows "\<exists>sp'. SetDefaultValues sp = Some sp' \<and> sp_ok sp' \<and> SetDefaultValues sp' = Some sp'"
proof -
  let ?s = "sp\<lparr>sp_second := 0\<rparr>" and ?m = "sp\<lparr>sp_second := 0, sp_minute := 0\<rparr>"
    and ?h = "sp\<lparr>sp_second := 0, sp_minute := 0, sp_hour := 0\<rparr>"
  have day_given: "\<not> no_day sp \<Longrightarrow> \<not> (sp_day_in_month sp = UNDEFINED \<and> sp_day_in_week sp = UNDEFINED \<and>
      sp_week_in_month sp = UNDEFINED)" by (auto simp: no_day_def)
  have ok: "sp_ok ?s" "sp_ok ?m" "sp_ok ?h" using assms by (simp_all add: sp_ok_def opt_rangeI)
  show ?thesis
  proof (cases "AllEmpty sp \<or> sp_second sp \<noteq> UNDEFINED \<or> sp_minute sp \<noteq> UNDEFINED \<or> sp_hour sp \<noteq> UNDEFINED
      \<or> \<not> no_day sp")
    case True
    then show ?thesis using assms ok
      by (cases "AllEmpty sp"; cases "sp_second sp = UNDEFINED"; cases "sp_minute sp = UNDEFINED";
          cases "sp_hour sp = UNDEFINED"; cases "no_day sp")
        (simp_all add: SetDefaultValues_def AllEmpty_def Let_def no_day_def [symmetric] day_given)
  next
    case False
    then have n: "no_day ?h" by (simp add: no_day_def)
    show ?thesis
      using False sp_ok_default_day [OF ok(3) n]
      by (cases "sp_week_in_year sp = UNDEFINED"; cases "sp_month sp = UNDEFINED")
        (simp_all add: SetDefaultValues_def AllEmpty_def Let_def no_day_def)
  qed
qed


section \<open>Reading back what PrintShort writes\<close>

definition sp_day_text :: "sharppoint \<Rightarrow> string" where
  "sp_day_text sp =
     (if sp_week_in_month sp \<noteq> UNDEFINED then
        if 0 < sp_week_in_month sp
        then CHR ''f'' # print_int (sp_week_in_month sp) @ print_int (sp_day_in_week sp)
        else CHR ''l'' # print_int (- sp_week_in_month sp) @ print_int (sp_day_in_week sp)
      else print_field (CHR ''t'') (sp_day_in_week sp \<noteq> UNDEFINED) (sp_day_in_week sp) @
        print_field (CHR ''d'') (sp_day_in_month sp \<noteq> UNDEFINED) (sp_day_in_month sp))"

definition sp_clock_text :: "sharppoint \<Rightarrow> string" where
  "sp_clock_text sp =
     print_field (CHR ''h'') (sp_hour sp \<noteq> UNDEFINED) (sp_hour sp) @
     print_field (CHR ''m'') (sp_minute sp \<noteq> UNDEFINED) (sp_minute sp) @
     print_field (CHR ''s'') (sp_second sp \<noteq> UNDEFINED) (sp_second sp)"

lemma opt_rangeD: "opt_range lo hi v \<Longrightarrow> v \<noteq> UNDEFINED \<Longrightarrow> lo \<le> v \<and> v \<le> hi"
  by (simp add: opt_range_def)

lemma sp_PrintShort_eq:
  assumes "sp_ok sp"
  shows "sp_PrintShort sp = Some (print_field (CHR ''y'') (sp_year sp \<noteq> UNDEFINED) (sp_year sp) @
    print_field (CHR ''M'') (sp_month sp \<noteq> UNDEFINED) (sp_month sp) @
    print_field (CHR ''w'') (sp_week_in_year sp \<noteq> UNDEFINED) (sp_week_in_year sp) @
    sp_day_text sp @ sp_clock_text sp)"
proof -
  have w: "sp_week_in_month sp \<noteq> UNDEFINED \<Longrightarrow>
      - 5 \<le> sp_week_in_month sp \<and> sp_week_in_month sp \<le> 5 \<and> sp_week_in_month sp \<noteq> 0 \<and> sp_day_in_week sp \<noteq> UNDEFINED"
    and d: "sp_day_in_week sp \<noteq> UNDEFINED \<Longrightarrow> 1 \<le> sp_day_in_week sp \<and> sp_day_in_week sp \<le> 7"
    and x: "sp_week_in_year sp \<noteq> UNDEFINED \<Longrightarrow> sp_month sp = UNDEFINED \<and> sp_week_in_month sp = UNDEFINED"
      "sp_day_in_month sp \<noteq> UNDEFINED \<Longrightarrow> sp_week_in_year sp = UNDEFINED \<and> sp_day_in_week sp = UNDEFINED"
    using assms opt_rangeD [of "- 5" 5 "sp_week_in_month sp"] opt_rangeD [of 1 7 "sp_day_in_week sp"]
    by (simp_all add: sp_ok_def)
  show ?thesis
    by (cases "sp_month sp = UNDEFINED"; cases "sp_week_in_year sp = UNDEFINED";
        cases "sp_week_in_month sp = UNDEFINED"; cases "sp_day_in_week sp = UNDEFINED";
        cases "sp_day_in_month sp = UNDEFINED")
      (use w d x in \<open>simp_all add: sp_PrintShort_def sp_day_text_def sp_clock_text_def print_field_def\<close>)
qed

text \<open>A text that cannot be taken for another field of the point in front of it.\<close>

definition stops_point :: "string \<Rightarrow> bool" where
  "stops_point r \<longleftrightarrow> \<not> IS_DIGIT (at_ptr r) \<and> at_ptr r \<notin> set ''yMwtdflhms''"

lemma field_not_digit [simp]:
  "\<not> IS_DIGIT (CHR ''y'')" "\<not> IS_DIGIT (CHR ''M'')" "\<not> IS_DIGIT (CHR ''w'')" "\<not> IS_DIGIT (CHR ''t'')"
  "\<not> IS_DIGIT (CHR ''d'')" "\<not> IS_DIGIT (CHR ''f'')" "\<not> IS_DIGIT (CHR ''l'')" "\<not> IS_DIGIT (CHR ''h'')"
  "\<not> IS_DIGIT (CHR ''m'')" "\<not> IS_DIGIT (CHR ''s'')"
  by (simp_all add: IS_DIGIT_def)

lemma parse_print_member:
  assumes "opt_range lo hi v" "0 \<le> lo" "hi < 128 \<and> cast = int8 \<or> hi < 2 ^ 31 \<and> cast = int32"
    and "\<not> IS_DIGIT (at_ptr r)" "v = UNDEFINED \<Longrightarrow> at_ptr r \<noteq> symbol" "v = UNDEFINED \<Longrightarrow> old = UNDEFINED"
  shows "parse_member upd (ParseNext cast (print_field symbol (v \<noteq> UNDEFINED) v @ r) symbol lo hi old) sp =
    Some (upd (\<lambda>_. v) sp, r, [])"
proof -
  have "ParseNext cast (print_field symbol (v \<noteq> UNDEFINED) v @ r) symbol lo hi old = (r, if v \<noteq> UNDEFINED then v else old, [])"
    using assms opt_rangeD [OF assms(1)] by (intro ParseNext_print_field) (auto simp: is_int32_def)
  then show ?thesis using assms(6) by (auto simp: parse_member_def)
qed

lemma parse_no_member:
  "at_ptr r \<noteq> symbol \<Longrightarrow> parse_member upd (ParseNext cast r symbol lo hi old) sp = Some (upd (\<lambda>_. old) sp, r, [])"
  by (simp add: parse_member_def ParseNext_other)

lemma print_int_digit: "0 \<le> v \<Longrightarrow> v \<le> 9 \<Longrightarrow> print_int v = [digit_char (nat v)]"
  by (subst print_int_def, subst print_nat.simps) simp

lemma ParseWeekDaySpec_text:
  assumes "1 \<le> w" "w \<le> 5" "1 \<le> d" "d \<le> 7"
  shows "ParseWeekDaySpec (c # print_int w @ print_int d @ r) sp =
    (sp\<lparr>sp_week_in_month := w, sp_day_in_week := d\<rparr>, r, [])"
  using assms by (simp add: ParseWeekDaySpec_def print_int_digit)

lemma ParseDay_text:
  assumes "sp_ok sp" "sp_week_in_year sp = UNDEFINED" "no_day sp0" "sp_year sp0 = sp_year sp" "sp_month sp0 = sp_month sp"
    and r: "\<not> IS_DIGIT (at_ptr r)" "at_ptr r \<notin> set ''dflt''"
  shows "ParseDay (sp_day_text sp @ r) sp0 = Some (sp0\<lparr>sp_week_in_month := sp_week_in_month sp,
    sp_day_in_week := sp_day_in_week sp, sp_day_in_month := sp_day_in_month sp\<rparr>, r, [])"
proof -
  let ?w = "sp_week_in_month sp" and ?d = "sp_day_in_week sp" and ?m = "sp_day_in_month sp"
  have sp: "opt_range (- 5) 5 ?w" "opt_range 1 7 ?d" "?w \<noteq> 0" "day_fits_month (sp_year sp) (sp_month sp) ?m"
    "?w \<noteq> UNDEFINED \<Longrightarrow> ?d \<noteq> UNDEFINED" "?m \<noteq> UNDEFINED \<Longrightarrow> ?d = UNDEFINED"
    using assms(1) by (simp_all add: sp_ok_def)
  have sp0: "sp_week_in_month sp0 = UNDEFINED" "sp_day_in_week sp0 = UNDEFINED" "sp_day_in_month sp0 = UNDEFINED"
    using assms(3) by (simp_all add: no_day_def)
  consider (f) "?w \<noteq> UNDEFINED" "0 < ?w" | (l) "?w \<noteq> UNDEFINED" "\<not> 0 < ?w" | (t) "?w = UNDEFINED" "?d \<noteq> UNDEFINED"
    | (d) "?w = UNDEFINED" "?d = UNDEFINED" "?m \<noteq> UNDEFINED" | (none) "?w = UNDEFINED" "?d = UNDEFINED" "?m = UNDEFINED"
    by blast
  then show ?thesis
  proof cases
    case f
    then have b: "1 \<le> ?w" "?w \<le> 5" "1 \<le> ?d" "?d \<le> 7" and m: "?m = UNDEFINED"
      using sp opt_rangeD [OF sp(1)] opt_rangeD [OF sp(2)] by auto
    show ?thesis using f ParseWeekDaySpec_text [OF b] m sp0 by (simp add: ParseDay_def sp_day_text_def)
  next
    case l
    then have b: "1 \<le> - ?w" "- ?w \<le> 5" "1 \<le> ?d" "?d \<le> 7" and m: "?m = UNDEFINED"
      using sp opt_rangeD [OF sp(1)] opt_rangeD [OF sp(2)] by auto
    then have "int8 (- (- ?w)) = ?w" by simp
    then show ?thesis using l ParseWeekDaySpec_text [OF b] m sp0 by (simp add: ParseDay_def sp_day_text_def)
  next
    case t
    then have m: "?m = UNDEFINED" using sp(6) by auto
    have "parse_member sp_day_in_week_update (ParseNext int8 (print_field (CHR ''t'') (?d \<noteq> UNDEFINED) ?d @ r) (CHR ''t'') 1 7 UNDEFINED) sp0
        = Some (sp0\<lparr>sp_day_in_week := ?d\<rparr>, r, [])"
      using sp(2) r t by (intro parse_print_member) auto
    then show ?thesis using t m sp0 by (simp add: ParseDay_def sp_day_text_def)
  next
    case d
    then obtain n where n: "MaxDaysInMonth (sp_year sp) (sp_month sp) = Some n" "1 \<le> ?m" "?m \<le> n"
      using sp(4) by (auto simp: day_fits_month_def split: option.splits)
    have "n < 128" using n(1) MaxDaysInMonth_bounds [of "sp_month sp" "sp_year sp"]
      by (cases "sp_month sp < 0") (auto simp: MaxDaysInMonth_def ASSERT_eq_Some split: bind_splits)
    then have "parse_member sp_day_in_month_update (ParseNext int8 (print_field (CHR ''d'') (?m \<noteq> UNDEFINED) ?m @ r) (CHR ''d'') 1 n UNDEFINED) sp0
        = Some (sp0\<lparr>sp_day_in_month := ?m\<rparr>, r, [])"
      using n r d by (intro parse_print_member) auto
    then show ?thesis using d n(1) sp0 assms(4,5) by (simp add: ParseDay_def sp_day_text_def)
  next
    case none
    then show ?thesis using r(2) sp0 by (simp add: ParseDay_def sp_day_text_def)
  qed
qed


lemma at_ptr_day_text:
  "at_ptr (sp_day_text sp @ r) \<in> set ''fltd'' \<or> no_day sp \<and> sp_day_text sp = []"
  by (auto simp: sp_day_text_def print_field_def no_day_def)

lemma at_ptr_clock_text:
  "at_ptr (sp_clock_text sp @ r) \<in> set ''hms'' \<or> at_ptr (sp_clock_text sp @ r) = at_ptr r"
  by (simp add: sp_clock_text_def)

lemma InitFromSpec_text:
  assumes "sp_ok sp" "sp_PrintShort sp = Some s" "stops_point r"
  shows "InitFromSpec (s @ r) sp_Clear = Some (sp, r, [])"
proof -
  let ?clock = "sp_clock_text sp @ r" and ?day = "sp_day_text sp @ sp_clock_text sp @ r"
  let ?pf = "\<lambda>c v. print_field c (v \<noteq> UNDEFINED) v"
  have ok: "opt_range 1970 INFINITY_INT (sp_year sp)" "opt_range 1 12 (sp_month sp)" "opt_range 1 53 (sp_week_in_year sp)"
    "opt_range 1 7 (sp_day_in_week sp)" "opt_range 0 23 (sp_hour sp)" "opt_range 0 59 (sp_minute sp)" "opt_range 0 59 (sp_second sp)"
    and x: "sp_week_in_year sp \<noteq> UNDEFINED \<Longrightarrow>
      sp_month sp = UNDEFINED \<and> sp_week_in_month sp = UNDEFINED \<and> sp_day_in_month sp = UNDEFINED"
    using assms(1) by (auto simp: sp_ok_def)
  have r: "\<not> IS_DIGIT (at_ptr r)" "at_ptr r \<notin> set ''yMwtdflhms''" using assms(3) by (simp_all add: stops_point_def)
  have c: "\<not> IS_DIGIT (at_ptr ?clock)" "at_ptr ?clock \<notin> set ''yMwtdfl''"
    using at_ptr_clock_text [of sp r] r by auto
  have d: "\<not> IS_DIGIT (at_ptr ?day)" "at_ptr ?day \<notin> set ''yMw''"
    using at_ptr_day_text [of sp ?clock] c by auto
  let ?s1 = "sp_Clear\<lparr>sp_year := sp_year sp\<rparr>"
  let ?s2 = "?s1\<lparr>sp_month := sp_month sp\<rparr>"
  let ?s2w = "?s2\<lparr>sp_week_in_year := sp_week_in_year sp\<rparr>"
  let ?s3 = "?s2w\<lparr>sp_week_in_month := sp_week_in_month sp, sp_day_in_week := sp_day_in_week sp, sp_day_in_month := sp_day_in_month sp\<rparr>"
  have n: "no_day ?s2" "no_day ?s2w" by (simp_all add: no_day_def sp_Clear_def)
  have s: "s @ r = ?pf (CHR ''y'') (sp_year sp) @ ?pf (CHR ''M'') (sp_month sp) @ ?pf (CHR ''w'') (sp_week_in_year sp) @ ?day"
    using assms(2) sp_PrintShort_eq [OF assms(1)] by simp
  have y: "parse_member sp_year_update (ParseNext int32 (s @ r) (CHR ''y'') 1970 INFINITY_INT (sp_year sp_Clear)) sp_Clear =
      Some (?s1, ?pf (CHR ''M'') (sp_month sp) @ ?pf (CHR ''w'') (sp_week_in_year sp) @ ?day, [])"
    unfolding s using ok(1) d by (intro parse_print_member) (auto simp: INFINITY_INT_def sp_Clear_def)
  have m: "parse_member sp_month_update (ParseNext int8 (?pf (CHR ''M'') (sp_month sp) @ ?pf (CHR ''w'') (sp_week_in_year sp) @ ?day)
      (CHR ''M'') 1 12 (sp_month ?s1)) ?s1 = Some (?s2, ?pf (CHR ''w'') (sp_week_in_year sp) @ ?day, [])"
    using ok(2) d by (intro parse_print_member) (auto simp: sp_Clear_def)
  have w: "parse_member sp_week_in_year_update (ParseNext int8 (?pf (CHR ''w'') (sp_week_in_year sp) @ ?day)
      (CHR ''w'') 1 53 (sp_week_in_year ?s2)) ?s2 = Some (?s2w, ?day, [])"
    using ok(3) d by (intro parse_print_member) (auto simp: sp_Clear_def)
  have t: "parse_member sp_day_in_week_update (ParseNext int8 ?day (CHR ''t'') 1 7 (sp_day_in_week ?s2w)) ?s2w = Some (?s3, ?clock, [])"
    if "sp_week_in_year sp \<noteq> UNDEFINED"
  proof -
    have e: "?day = ?pf (CHR ''t'') (sp_day_in_week sp) @ ?clock" using x [OF that] by (simp add: sp_day_text_def)
    have "parse_member sp_day_in_week_update (ParseNext int8 ?day (CHR ''t'') 1 7 (sp_day_in_week ?s2w)) ?s2w =
        Some (?s2w\<lparr>sp_day_in_week := sp_day_in_week sp\<rparr>, ?clock, [])"
      unfolding e using ok(4) c by (intro parse_print_member) (auto simp: sp_Clear_def)
    then show ?thesis using x [OF that] by (simp add: sp_Clear_def)
  qed
  have day: "(if sp_month ?s2 \<noteq> UNDEFINED then ParseDay (?pf (CHR ''w'') (sp_week_in_year sp) @ ?day) ?s2
        else and_then
          (parse_member sp_week_in_year_update (ParseNext int8 (?pf (CHR ''w'') (sp_week_in_year sp) @ ?day) (CHR ''w'') 1 53 (sp_week_in_year ?s2)) ?s2)
          (\<lambda>sp e.
             if sp_week_in_year sp \<noteq> UNDEFINED then
               parse_member sp_day_in_week_update (ParseNext int8 e (CHR ''t'') 1 7 (sp_day_in_week sp)) sp
             else ParseDay e sp)) = Some (?s3, ?clock, [])"
  proof (cases "sp_week_in_year sp = UNDEFINED")
    case True
    have e: "?s2w = ?s2" "?s2w\<lparr>sp_week_in_month := a, sp_day_in_week := b, sp_day_in_month := c\<rparr> =
        ?s2\<lparr>sp_week_in_month := a, sp_day_in_week := b, sp_day_in_month := c\<rparr>" for a b c
      using True by (simp_all add: sp_Clear_def)
    have "sp_year ?s2 = sp_year sp" "sp_month ?s2 = sp_month sp" "sp_week_in_year ?s2 = UNDEFINED"
      by (simp_all add: sp_Clear_def)
    then have "ParseDay ?day ?s2 = Some (?s3, ?clock, [])"
      using ParseDay_text [OF assms(1) True n(1) _ _ c(1)] c(2) unfolding e by auto
    then show ?thesis using True \<open>sp_week_in_year ?s2 = UNDEFINED\<close> unfolding w and_then_Some e(1)
      by (cases "sp_month sp = UNDEFINED") simp_all
  next
    case False
    then show ?thesis using x w t by simp
  qed
  have cl: "?clock = ?pf (CHR ''h'') (sp_hour sp) @ ?pf (CHR ''m'') (sp_minute sp) @ ?pf (CHR ''s'') (sp_second sp) @ r"
    by (simp add: sp_clock_text_def)
  let ?s4 = "?s3\<lparr>sp_hour := sp_hour sp\<rparr>" and ?s5 = "?s3\<lparr>sp_hour := sp_hour sp, sp_minute := sp_minute sp\<rparr>"
  have h: "parse_member sp_hour_update (ParseNext int8 ?clock (CHR ''h'') 0 23 (sp_hour ?s3)) ?s3 =
      Some (?s4, ?pf (CHR ''m'') (sp_minute sp) @ ?pf (CHR ''s'') (sp_second sp) @ r, [])"
    unfolding cl using ok(5) r by (intro parse_print_member) (auto simp: sp_Clear_def)
  have mn: "parse_member sp_minute_update (ParseNext int8 (?pf (CHR ''m'') (sp_minute sp) @ ?pf (CHR ''s'') (sp_second sp) @ r)
      (CHR ''m'') 0 59 (sp_minute ?s4)) ?s4 = Some (?s5, ?pf (CHR ''s'') (sp_second sp) @ r, [])"
    using ok(6) r by (intro parse_print_member) (auto simp: sp_Clear_def)
  have sec: "parse_member sp_second_update (ParseNext int8 (?pf (CHR ''s'') (sp_second sp) @ r)
      (CHR ''s'') 0 59 (sp_second ?s5)) ?s5 = Some (sp, r, [])"
  proof -
    have "parse_member sp_second_update (ParseNext int8 (?pf (CHR ''s'') (sp_second sp) @ r) (CHR ''s'') 0 59 (sp_second ?s5)) ?s5
        = Some (?s5\<lparr>sp_second := sp_second sp\<rparr>, r, [])"
      using ok(7) r by (intro parse_print_member) (auto simp: sp_Clear_def)
    then show ?thesis by (simp add: sp_Clear_def)
  qed
  show ?thesis unfolding InitFromSpec_def y and_then_Some m day h mn sec ..
qed


lemma SkipSpaces_id: "\<not> spacelike (at_ptr s) \<or> s = [] \<Longrightarrow> SkipSpaces s = s"
  by (cases s) (auto simp: SkipSpaces_def)

lemma sp_Init_ok:
  assumes "sp_Init p sp_Clear = Some (sp, e, [])"
  shows "sp_ok sp" "SetDefaultValues sp = Some sp"
proof -
  obtain sp0 e0 m0 where i: "InitFromSpec (SkipSpaces p) sp_Clear = Some (sp0, e0, m0)"
    using assms by (auto simp: sp_Init_def split: bind_splits)
  then have "m0 = []" using assms by (auto simp: sp_Init_def split: if_splits)
  with i assms have "SetDefaultValues sp0 = Some sp" by (auto simp: sp_Init_def split: bind_splits)
  with SetDefaultValues_ok [of sp0] InitFromSpec_ok [of "SkipSpaces p" sp0 e0] i \<open>m0 = []\<close>
  show "sp_ok sp" "SetDefaultValues sp = Some sp" by auto
qed

lemma sp_PrintShort_start:
  assumes "sp_ok sp" "sp_PrintShort sp = Some s"
  shows "s = [] \<or> at_ptr s \<in> set ''yMwtdflhms''"
  using assms sp_PrintShort_eq [OF assms(1)] at_ptr_day_text [of sp "sp_clock_text sp"] at_ptr_clock_text [of sp "[]"]
  by (cases "sp_clock_text sp = []") (auto simp: sp_clock_text_def print_field_def split: if_splits)

lemma sp_Init_text:
  assumes "sp_ok sp" "SetDefaultValues sp = Some sp" "sp_PrintShort sp = Some s" "stops_point r" "\<not> spacelike (at_ptr r) \<or> r = []"
  shows "sp_Init (s @ r) sp_Clear = Some (sp, r, [])"
proof -
  have "\<not> spacelike (at_ptr (s @ r)) \<or> s @ r = []"
    using sp_PrintShort_start [OF assms(1,3)] assms(5) by (cases s) (auto simp: spacelike_def)
  then show ?thesis
    using InitFromSpec_text [OF assms(1,3,4)] assms(2) by (simp add: sp_Init_def SkipSpaces_id)
qed

text \<open>
  C14. The text forms of a point agree with the object: parsing any text into a new \<open>SharpPoint\<close> without an
  error leaves every member unset or in its documented range, with one way only of giving the day, and
  nothing more to fill in; such an object is always printed, and parsing the short form again,
  whatever follows that cannot continue it, gives the same object and stops where the form ends.
\<close>
theorem sharppoint_text_roundtrip:
  assumes "sp_Init p sp_Clear = Some (sp, e, [])" "stops_point r" "\<not> spacelike (at_ptr r) \<or> r = []"
  shows "sp_ok sp \<and> (\<exists>s. sp_PrintShort sp = Some s \<and> sp_Init (s @ r) sp_Clear = Some (sp, r, []))"
  using sp_Init_ok [OF assms(1)] sp_PrintShort_eq [of sp] sp_Init_text [of sp _ r, OF _ _ _ assms(2,3)] by blast

definition first_monday :: sharppoint where
  "first_monday = sp_Clear\<lparr>sp_month := 1, sp_week_in_month := 1, sp_day_in_week := 2,
     sp_hour := 0, sp_minute := 0, sp_second := 0\<rparr>"

lemma first_monday_parsed: "sp_Init ''M1f12)'' sp_Clear = Some (first_monday, '')'', [])"
  by code_simp

theorem sharppoint_text_roundtrip_witness:
  "sp_ok first_monday \<and> (\<exists>s. sp_PrintShort first_monday = Some s \<and> sp_Init (s @ '')'') sp_Clear = Some (first_monday, '')'', []))"
  by (rule sharppoint_text_roundtrip [OF first_monday_parsed]) (simp_all add: stops_point_def IS_DIGIT_def spacelike_def)


end
