(* ===== verification/SharpPoint_Search.thy ===== *)
theory SharpPoint_Search
  imports SharpPoint
begin

text \<open>
  What \<open>SharpPoint::ModifyTime\<close> finds: the next (previous) time that matches the specification, by
  a search that ends. Each paragraph of the loop obeys one contract (\<open>adjust_contract\<close>): it leaves a
  time alone only if the time fits its member, and skips only times that do not fit. The contract is
  the locale \<open>adjuster\<close>; two adjusters in a row are one (\<open>adjuster_pair\<close>), so the pass over
  the seven members is an adjuster for the whole specification.
\<close>

section \<open>Days and seconds of the day\<close>

abbreviation dn :: "localtime \<Rightarrow> int" where
  "dn t \<equiv> day_number (ld_y t) (ld_m t) (ld_d t)"

definition clock :: "localtime \<Rightarrow> int" where
  "clock t = lt_h t * 3600 + lt_mn t * 60 + lt_s t"

lemma valid_time_split: "valid_time t \<Longrightarrow> raw_seconds t = dn t * 86400 + clock t"
  by (simp add: valid_time_raw clock_def)

lemma clock_bounds: "valid_time t \<Longrightarrow> 0 \<le> clock t \<and> clock t < 86400"
  by (auto simp: valid_time_def clock_def)

lemma lex_less_iff:
  fixes a b c d k :: int
  assumes "0 \<le> b" "b < k" "0 \<le> d" "d < k"
  shows "a * k + b < c * k + d \<longleftrightarrow> a < c \<or> a = c \<and> b < d"
proof (cases a c rule: linorder_cases)
  case less
  then have "(a + 1) * k \<le> c * k" using assms by (intro mult_right_mono) auto
  then have "a * k + b < c * k + d" using assms unfolding distrib_right by linarith
  with less show ?thesis by simp
next
  case greater
  then have "(c + 1) * k \<le> a * k" using assms by (intro mult_right_mono) auto
  then have "\<not> a * k + b < c * k + d" using assms unfolding distrib_right by linarith
  with greater show ?thesis by simp
qed simp

lemma lex_eq_iff:
  fixes a b c d k :: int
  assumes "0 \<le> b" "b < k" "0 \<le> d" "d < k"
  shows "a * k + b = c * k + d \<longleftrightarrow> a = c \<and> b = d"
  using lex_less_iff [OF assms, of a c] lex_less_iff [OF assms(3,4,1,2), of c a] by force

lemma raw_less_iff:
  "valid_time t \<Longrightarrow> valid_time u \<Longrightarrow>
   raw_seconds t < raw_seconds u \<longleftrightarrow> dn t < dn u \<or> dn t = dn u \<and> clock t < clock u"
  using lex_less_iff [of "clock t" 86400 "clock u" "dn t" "dn u"] clock_bounds [of t] clock_bounds [of u]
  by (simp add: valid_time_split)

lemma raw_eq_dn:
  "valid_time u \<Longrightarrow> raw_seconds u = D * 86400 + c \<Longrightarrow> 0 \<le> c \<Longrightarrow> c < 86400 \<Longrightarrow> dn u = D \<and> clock u = c"
  using lex_eq_iff [of "clock u" 86400 c "dn u" D] clock_bounds [of u] by (simp add: valid_time_split)

text \<open>The three numbers of the clock, compared one after the other.\<close>

lemma clock_less_iff:
  assumes "valid_time t" "valid_time u"
  shows "clock t < clock u \<longleftrightarrow> lt_h t < lt_h u \<or> lt_h t = lt_h u \<and>
    (lt_mn t < lt_mn u \<or> lt_mn t = lt_mn u \<and> lt_s t < lt_s u)"
  using assms by (auto simp: valid_time_def clock_def)

section \<open>Set\<close>

definition pick :: "int \<Rightarrow> int \<Rightarrow> int" where
  "pick new old = (if new = NO_CHANGE then old else new)"

lemma pick_NO_CHANGE [simp]: "pick NO_CHANGE old = old"
  by (simp add: pick_def)

lemma pick_small [simp]: "- 2147483647 < v \<Longrightarrow> pick v old = v"
  by (simp add: pick_def NO_CHANGE_def)

lemma lt_Set_ok:
  fixes year month day hour minute second :: int and t :: localtime
  defines "y \<equiv> carried_year (pick year (ld_y t)) (pick month (ld_m t))"
  defines "n \<equiv> day_number y (carried_month (pick month (ld_m t))) (pick day (ld_d t)) * 86400
      + pick hour (lt_h t) * 3600 + pick minute (lt_mn t) * 60 + pick second (lt_s t)"
  assumes "1970 \<le> pick year (ld_y t)" "1970 \<le> y" "0 \<le> n"
  shows "\<exists>u. lt_Set year month day hour minute second t = Some u \<and> valid_time u \<and> raw_seconds u = n \<and>
    lt_is_dst u = lt_is_dst t"
proof -
  let ?t = "t\<lparr>ld_y := pick year (ld_y t), ld_m := pick month (ld_m t), ld_d := pick day (ld_d t),
      lt_h := pick hour (lt_h t), lt_mn := pick minute (lt_mn t), lt_s := pick second (lt_s t)\<rparr>"
  have "lt_Set year month day hour minute second t = Normalize ?t"
    by (simp add: lt_Set_def pick_def Let_def)
  moreover have "raw_seconds ?t = n" by (simp add: raw_seconds_def raw_day_number_def n_def y_def)
  ultimately show ?thesis using Normalize_ok [of ?t] assms(3-5) by (auto simp: y_def)
qed

section \<open>The contract\<close>

text \<open>
  A search moves forward (\<open>get_next\<close>) or backward, and stops when it meets the year 1970: every
  adjustment starts from a time after that. \<open>ahead\<close> are the times from \<open>t\<close> on in the direction
  of the search.
\<close>

definition searchable :: "localtime \<Rightarrow> bool" where
  "searchable t \<longleftrightarrow> valid_time t \<and> 1970 < ld_y t"

definition ahead :: "bool \<Rightarrow> localtime \<Rightarrow> localtime \<Rightarrow> bool" where
  "ahead get_next t v \<longleftrightarrow>
     valid_time v \<and> (if get_next then raw_seconds t \<le> raw_seconds v else raw_seconds v \<le> raw_seconds t)"

definition adjust_contract :: "(localtime \<Rightarrow> bool) \<Rightarrow> bool \<Rightarrow> localtime \<Rightarrow> adjusted \<Rightarrow> bool" where
  "adjust_contract fits get_next t a =
     (case a of
        Unchanged \<Rightarrow> fits t
      | Changed u \<Rightarrow> ahead get_next t u \<and> raw_seconds u \<noteq> raw_seconds t \<and> lt_is_dst u = lt_is_dst t \<and>
          (\<forall>v. ahead get_next t v \<and> \<not> ahead get_next u v \<longrightarrow> \<not> fits v)
      | Impossible \<Rightarrow> \<forall>v. ahead get_next t v \<longrightarrow> \<not> fits v)"

locale adjuster =
  fixes wf :: "'p \<Rightarrow> bool"
    and adj :: "'p \<Rightarrow> bool \<Rightarrow> localtime \<Rightarrow> adjusted option"
    and fits :: "'p \<Rightarrow> localtime \<Rightarrow> bool"
  assumes adj_ok: "wf p \<Longrightarrow> searchable t \<Longrightarrow>
    \<exists>a. adj p get_next t = Some a \<and> adjust_contract (fits p) get_next t a"

locale adjuster_pair = first: adjuster wf adj1 fits1 + second: adjuster wf adj2 fits2
  for wf :: "'p \<Rightarrow> bool" and adj1 adj2 fits1 fits2
begin

lemma both_ok:
  assumes "wf p" "searchable t"
  shows "\<exists>a. otherwise (adj1 p get_next t) (adj2 p get_next t) = Some a \<and>
    adjust_contract (\<lambda>t. fits1 p t \<and> fits2 p t) get_next t a"
proof -
  obtain a b where a: "adj1 p get_next t = Some a" "adjust_contract (fits1 p) get_next t a"
    and b: "adj2 p get_next t = Some b" "adjust_contract (fits2 p) get_next t b"
    using first.adj_ok [OF assms] second.adj_ok [OF assms] by blast
  show ?thesis
  proof (cases a)
    case Unchanged
    then show ?thesis using a b
      by (cases b) (auto simp: otherwise_def adjust_contract_def)
  qed (use a in \<open>auto simp: otherwise_def adjust_contract_def\<close>)
qed

end

sublocale adjuster_pair \<subseteq> adjuster wf "\<lambda>p get_next t. otherwise (adj1 p get_next t) (adj2 p get_next t)"
  "\<lambda>p t. fits1 p t \<and> fits2 p t"
  by unfold_locales (rule both_ok)


section \<open>Moves by whole days\<close>

text \<open>
  The paragraphs for year, month, week and day set the first second (backward: the last) of a later
  (earlier) day. It is enough that no day passed over fits.
\<close>

definition target_clock :: "bool \<Rightarrow> int" where
  "target_clock get_next = (if get_next then 0 else 86399)"

definition day_passed :: "bool \<Rightarrow> int \<Rightarrow> int \<Rightarrow> int \<Rightarrow> bool" where
  "day_passed get_next a b d \<longleftrightarrow> (if get_next then a \<le> d \<and> d < b else b < d \<and> d \<le> a)"

lemma day_contract:
  assumes "valid_time t" "valid_time u" "raw_seconds u = D * 86400 + target_clock get_next"
    "lt_is_dst u = lt_is_dst t" "if get_next then dn t < D else D < dn t"
    "\<And>v. valid_time v \<Longrightarrow> day_passed get_next (dn t) D (dn v) \<Longrightarrow> \<not> fits v"
  shows "adjust_contract fits get_next t (Changed u)"
proof -
  have u: "dn u = D" "clock u = target_clock get_next"
    using raw_eq_dn [OF assms(2,3)] by (simp_all add: target_clock_def split: if_splits)
  have "ahead get_next t u" "raw_seconds u \<noteq> raw_seconds t"
    using raw_less_iff [OF assms(1,2)] raw_less_iff [OF assms(2,1)] assms(2,5) u
    by (auto simp: ahead_def split: if_splits)
  moreover have "\<not> fits v" if v: "ahead get_next t v" "\<not> ahead get_next u v" for v
  proof (rule assms(6))
    show vv: "valid_time v" using v(1) by (simp add: ahead_def)
    show "day_passed get_next (dn t) D (dn v)"
      using v vv raw_less_iff [OF assms(1) vv] raw_less_iff [OF vv assms(1)] raw_less_iff [OF assms(2) vv]
        raw_less_iff [OF vv assms(2)] u clock_bounds [OF vv]
      by (cases get_next) (auto simp: ahead_def day_passed_def target_clock_def)
  qed
  ultimately show ?thesis using assms(4) by (simp add: adjust_contract_def)
qed

text \<open>Setting a date: the day it stands for.\<close>

lemma lt_Set_date:
  fixes year month day :: int and t :: localtime
  defines "y \<equiv> carried_year (pick year (ld_y t)) (pick month (ld_m t))"
  defines "D \<equiv> day_number y (carried_month (pick month (ld_m t))) (pick day (ld_d t))"
  assumes "1970 \<le> pick year (ld_y t)" "1970 \<le> y" "0 \<le> D"
  shows "\<exists>u. lt_Set year month day 0 0 0 t = Some u \<and> valid_time u \<and> raw_seconds u = D * 86400 + target_clock True \<and>
      lt_is_dst u = lt_is_dst t"
    and "\<exists>u. lt_Set year month day 23 59 59 t = Some u \<and> valid_time u \<and> raw_seconds u = D * 86400 + target_clock False \<and>
      lt_is_dst u = lt_is_dst t"
  using lt_Set_ok [of year t month day 0 0 0] lt_Set_ok [of year t month day 23 59 59] assms(3-5)
  by (simp_all add: target_clock_def y_def D_def add.commute)

text \<open>The days of a year and of a month are the intervals they should be.\<close>

lemma valid_time_date: "valid_time t \<Longrightarrow> valid_date (ld_y t) (ld_m t) (ld_d t) \<and> 1970 \<le> ld_y t"
  by (simp add: valid_time_def)

lemma dn_year:
  assumes "valid_date y m d"
  shows "year_start y \<le> day_number y m d" "day_number y m d < year_start (y + 1)"
  using day_of_year_bounds [OF assms] by (simp_all add: day_number_def year_start_Suc)

lemma year_of_day:
  assumes "valid_date y m d"
  shows "year_start k \<le> day_number y m d \<longleftrightarrow> k \<le> y" "day_number y m d < year_start k \<longleftrightarrow> y < k"
  using dn_year [OF assms] year_start_mono [of k y] year_start_mono [of "y + 1" k] by linarith+

lemma day_le_year:
  "valid_date y m d \<Longrightarrow> valid_date y' m' d' \<Longrightarrow> day_number y m d \<le> day_number y' m' d' \<Longrightarrow> y \<le> y'"
  using year_of_day(1) [of y' m' d' y] dn_year(1) [of y m d] by simp

lemma month_of_day:
  assumes "valid_date y m d" "1 \<le> m'" "m' \<le> 12" "MaxDaysInMonth y' m' = Some n"
    "day_number y' m' 1 \<le> day_number y m d" "day_number y m d < day_number y' m' 1 + n"
  shows "y = y'" "m = m'" "d = day_number y m d - day_number y' m' 1 + 1"
proof -
  let ?k = "day_number y m d - day_number y' m' 1 + 1"
  have "valid_date y' m' ?k" using assms by (simp add: valid_date_def)
  moreover have "day_number y' m' ?k = day_number y m d"
    using day_number_shift [of y' m' 1 "?k - 1"] by (simp add: add.commute)
  ultimately have "(y', m', ?k) = (y, m, d)" using assms(1) by (intro day_number_inj) simp_all
  then show "y = y'" "m = m'" "d = ?k" by auto
qed

lemma dn_shift: "day_number y m d = day_number y m 1 + d - 1"
  using day_number_shift [of y m 1 "d - 1"] by simp

section \<open>Year and month\<close>

definition fits_year :: "sharppoint \<Rightarrow> localtime \<Rightarrow> bool" where
  "fits_year sp t \<longleftrightarrow> sp_year sp = UNDEFINED \<or> ld_y t = sp_year sp"

definition fits_month :: "sharppoint \<Rightarrow> localtime \<Rightarrow> bool" where
  "fits_month sp t \<longleftrightarrow> sp_month sp = UNDEFINED \<or> ld_m t = sp_month sp"

lemma ahead_year:
  assumes "valid_time t" "ahead get_next t v"
  shows "if get_next then ld_y t \<le> ld_y v else ld_y v \<le> ld_y t"
proof -
  have v: "valid_time v" using assms by (simp add: ahead_def)
  have "if get_next then dn t \<le> dn v else dn v \<le> dn t"
    using assms raw_less_iff [OF assms(1) v] raw_less_iff [OF v assms(1)] by (auto simp: ahead_def)
  then show ?thesis
    using day_le_year [of "ld_y t" "ld_m t" "ld_d t" "ld_y v" "ld_m v" "ld_d v"]
      day_le_year [of "ld_y v" "ld_m v" "ld_d v" "ld_y t" "ld_m t" "ld_d t"] valid_time_date assms(1) v
    by (cases get_next) simp_all
qed

interpretation at_year: adjuster sp_ok adjust_year fits_year
proof
  fix p :: sharppoint and gn t assume p: "sp_ok p" and s: "searchable t"
  let ?y = "sp_year p"
  have t: "valid_time t" "valid_date (ld_y t) (ld_m t) (ld_d t)" using s valid_time_date by (simp_all add: searchable_def)
  show "\<exists>a. adjust_year p gn t = Some a \<and> adjust_contract (fits_year p) gn t a"
  proof (cases "?y = UNDEFINED \<or> ?y = ld_y t")
    case True
    then show ?thesis by (auto simp: adjust_year_def adjust_contract_def fits_year_def)
  next
    case False
    then have y: "1970 \<le> ?y" using p opt_rangeD [of 1970 INFINITY_INT ?y] by (simp add: sp_ok_def)
    have v31: "valid_date ?y 12 31" and v1: "valid_date ?y 1 1" using MaxDaysInMonth_bounds [of 1 ?y]
      by (auto simp: valid_date_def)
    consider (imp) "gn \<noteq> (ld_y t < ?y)" | (fwd) "gn" "ld_y t < ?y" | (bwd) "\<not> gn" "?y < ld_y t"
      using False by force
    then show ?thesis
    proof cases
      case imp
      then have "adjust_year p gn t = Some Impossible" using False by (auto simp: adjust_year_def)
      then show ?thesis using imp False ahead_year [OF t(1), of gn]
        by (fastforce simp: adjust_contract_def fits_year_def split: if_splits)
    next
      case fwd
      obtain u where u: "lt_Set ?y 1 1 0 0 0 t = Some u" "valid_time u"
        "raw_seconds u = day_number ?y 1 1 * 86400 + target_clock True" "lt_is_dst u = lt_is_dst t"
        using lt_Set_date(1) [of ?y t 1 1] y day_number_nonneg [OF y v1] by auto
      have "adjust_contract (fits_year p) True t (Changed u)"
        using fwd u year_of_day [OF t(2)] year_of_day(2) valid_time_date False
        by (intro day_contract [OF t(1) u(2,3,4)]) (auto simp: day_number_Jan_1 fits_year_def day_passed_def)
      then show ?thesis using fwd u(1) False by (auto simp: adjust_year_def)
    next
      case bwd
      obtain u where u: "lt_Set ?y 12 31 23 59 59 t = Some u" "valid_time u"
        "raw_seconds u = day_number ?y 12 31 * 86400 + target_clock False" "lt_is_dst u = lt_is_dst t"
        using lt_Set_date(2) [of ?y t 12 31] y day_number_nonneg [OF y v31] by auto
      have e: "day_number ?y 12 31 = year_start (?y + 1) - 1"
        by (simp add: day_number_def day_of_year_month month_start_12 year_start_Suc)
      have "adjust_contract (fits_year p) False t (Changed u)"
      proof (rule day_contract [OF t(1) u(2,3,4)])
        show "if False then dn t < day_number ?y 12 31 else day_number ?y 12 31 < dn t"
          using year_of_day(1) [OF t(2), of "?y + 1"] bwd by (simp add: e)
        fix v assume v: "valid_time v" "day_passed False (dn t) (day_number ?y 12 31) (dn v)"
        then have "?y + 1 \<le> ld_y v"
          using year_of_day(1) [of "ld_y v" "ld_m v" "ld_d v" "?y + 1"] valid_time_date by (simp add: day_passed_def e)
        then show "\<not> fits_year p v" using False by (simp add: fits_year_def)
      qed
      then show ?thesis using bwd u(1) False by (auto simp: adjust_year_def)
    qed
  qed
qed


lemma valid_month_day: "1 \<le> m \<Longrightarrow> m \<le> 12 \<Longrightarrow> valid_date y m 1"
  using MaxDaysInMonth_bounds [of m y] by (auto simp: valid_date_def)

lemma passed_month:
  assumes "\<not> date_less (y, m, d) (yv, mv, dv)" "date_less (Y, M, n) (yv, mv, dv)"
    "yv = Y \<and> mv = M \<Longrightarrow> dv \<le> n" "M \<noteq> m" "Y = (if m < M then y - 1 else y)"
  shows "mv \<noteq> M"
proof
  assume mv: "mv = M"
  then have "Y < yv" using assms(2,3) by (auto simp: date_less_def)
  then show False using assms(1,4,5) mv by (cases "m < M") (simp_all add: date_less_def)
qed

interpretation at_month: adjuster sp_ok adjust_month fits_month
proof
  fix p :: sharppoint and gn t assume p: "sp_ok p" and s: "searchable t"
  let ?m = "sp_month p"
  have t: "valid_time t" "valid_date (ld_y t) (ld_m t) (ld_d t)" "1970 < ld_y t"
    using s valid_time_date by (simp_all add: searchable_def)
  show "\<exists>a. adjust_month p gn t = Some a \<and> adjust_contract (fits_month p) gn t a"
  proof (cases "?m = UNDEFINED \<or> ?m = ld_m t")
    case True
    then show ?thesis by (auto simp: adjust_month_def adjust_contract_def fits_month_def)
  next
    case False
    then have m: "1 \<le> ?m" "?m \<le> 12" using p opt_rangeD [of 1 12 ?m] by (simp_all add: sp_ok_def)
    show ?thesis
    proof (cases gn)
      case True
      let ?y = "if ?m < ld_m t then ld_y t + 1 else ld_y t"
      have v1: "valid_date ?y ?m 1" using m by (rule valid_month_day)
      have y: "1970 \<le> ?y" using t(3) by simp
      obtain u where u: "lt_Set ?y ?m 1 0 0 0 t = Some u" "valid_time u"
        "raw_seconds u = day_number ?y ?m 1 * 86400 + target_clock True" "lt_is_dst u = lt_is_dst t"
        using lt_Set_date(1) [of ?y t ?m 1] m y day_number_nonneg [OF y v1] by auto
      have "adjust_contract (fits_month p) True t (Changed u)"
      proof (rule day_contract [OF t(1) u(2,3,4)])
        show "if True then dn t < day_number ?y ?m 1 else day_number ?y ?m 1 < dn t"
          using day_number_less_iff [OF t(2) v1] False by (auto simp: date_less_def)
        fix v assume v: "valid_time v" "day_passed True (dn t) (day_number ?y ?m 1) (dn v)"
        then have d: "valid_date (ld_y v) (ld_m v) (ld_d v)" "1 \<le> ld_d v" using valid_time_date by (auto simp: valid_date_def)
        have "\<not> date_less (ld_y v, ld_m v, ld_d v) (ld_y t, ld_m t, ld_d t)"
          "date_less (ld_y v, ld_m v, ld_d v) (?y, ?m, 1)"
          using day_number_less_iff [OF d(1) t(2)] day_number_less_iff [OF d(1) v1] v(2) by (auto simp: day_passed_def)
        then show "\<not> fits_month p v" using False d(2) by (auto simp: fits_month_def date_less_def split: if_splits)
      qed
      then show ?thesis using True False u(1) by (simp add: adjust_month_def Let_def)
    next
      case bwd: False
      let ?y = "if ld_m t < ?m then ld_y t - 1 else ld_y t"
      obtain n where n: "MaxDaysInMonth ?y ?m = Some n" "28 \<le> n" using MaxDaysInMonth_bounds [OF m] by blast
      have v1: "valid_date ?y ?m n" using n m by (simp add: valid_date_def)
      have y: "1970 \<le> ?y" using t(3) by simp
      obtain u where u: "lt_Set ?y ?m n 23 59 59 t = Some u" "valid_time u"
        "raw_seconds u = day_number ?y ?m n * 86400 + target_clock False" "lt_is_dst u = lt_is_dst t"
        using lt_Set_date(2) [of ?y t ?m n] y n m day_number_nonneg [OF y v1] by auto
      have "adjust_contract (fits_month p) False t (Changed u)"
      proof (rule day_contract [OF t(1) u(2,3,4)])
        show "if False then dn t < day_number ?y ?m n else day_number ?y ?m n < dn t"
          using day_number_less_iff [OF v1 t(2)] False by (auto simp: date_less_def)
        fix v assume v: "valid_time v" "day_passed False (dn t) (day_number ?y ?m n) (dn v)"
        then have d: "valid_date (ld_y v) (ld_m v) (ld_d v)" using valid_time_date by simp
        have "\<not> date_less (ld_y t, ld_m t, ld_d t) (ld_y v, ld_m v, ld_d v)"
          "date_less (?y, ?m, n) (ld_y v, ld_m v, ld_d v)"
          using day_number_less_iff [OF t(2) d] day_number_less_iff [OF v1 d] v(2) by (auto simp: day_passed_def)
        moreover have "ld_y v = ?y \<and> ld_m v = ?m \<Longrightarrow> ld_d v \<le> n" using d n(1) by (auto simp: valid_date_def)
        ultimately have "ld_m v \<noteq> ?m" by (rule passed_month) (use False in auto)
        then show "\<not> fits_month p v" using False by (simp add: fits_month_def)
      qed
      then show ?thesis using bwd False u(1) n(1) by (simp add: adjust_month_def Let_def)
    qed
  qed
qed


section \<open>Week of the year\<close>

definition week_of :: "localtime \<Rightarrow> int" where
  "week_of t = (day_of_year (ld_y t) (ld_m t) (ld_d t) - 1) div 7 + 1"

definition fits_week :: "sharppoint \<Rightarrow> localtime \<Rightarrow> bool" where
  "fits_week sp t \<longleftrightarrow> sp_week_in_year sp = UNDEFINED \<or> week_of t = sp_week_in_year sp"

lemma week_of_iff: "week_of t = w \<longleftrightarrow> year_start (ld_y t) + 7 * w - 7 \<le> dn t \<and> dn t < year_start (ld_y t) + 7 * w"
proof -
  have "(x - 1) div 7 + 1 = w \<longleftrightarrow> 7 * w - 7 \<le> x - 1 \<and> x - 1 < 7 * w" for x :: int by linarith
  then show ?thesis by (auto simp: week_of_def day_number_def)
qed

lemma adjust_week_passed:
  fixes p :: sharppoint and t v :: localtime and gn :: bool
  assumes "sp_week_in_year p \<noteq> UNDEFINED" "sp_ok p" "valid_time t" "1970 < ld_y t" "week_of t \<noteq> sp_week_in_year p"
  defines "w \<equiv> sp_week_in_year p"
  defines "y \<equiv> (if \<not> gn \<and> week_of t < w then ld_y t - 1 else if gn \<and> w < week_of t then ld_y t + 1 else ld_y t)"
  defines "n \<equiv> (if gn then 7 * w - 6 else min (7 * w) (TotalDaysInYear y))"
  defines "D \<equiv> year_start y + n - 1"
  shows "1 \<le> n" "n \<le> TotalDaysInYear y" "if gn then dn t < D else D < dn t"
    and "valid_time v \<Longrightarrow> day_passed gn (dn t) D (dn v) \<Longrightarrow> week_of v \<noteq> w"
proof -
  have w: "1 \<le> w" "w \<le> 53" using assms(1,2) opt_rangeD [of 1 53 w] by (simp_all add: sp_ok_def w_def)
  show n: "1 \<le> n" "n \<le> TotalDaysInYear y"
    using w TotalDaysInYear_bounds(1) [of y] by (auto simp: n_def)
  have t: "valid_date (ld_y t) (ld_m t) (ld_d t)" using valid_time_date [OF assms(3)] by simp
  have wt: "year_start (ld_y t) + 7 * week_of t - 7 \<le> dn t" "dn t < year_start (ld_y t) + 7 * week_of t"
    using week_of_iff [of t "week_of t"] by simp_all
  have ne: "w \<noteq> week_of t" using assms(5) by (simp add: w_def)
  have ys: "year_start (ld_y t + 1) = year_start (ld_y t) + TotalDaysInYear (ld_y t)"
    "year_start (ld_y t) = year_start (ld_y t - 1) + TotalDaysInYear (ld_y t - 1)"
    using year_start_Suc [of "ld_y t"] year_start_Suc [of "ld_y t - 1"] by simp_all
  show "if gn then dn t < D else D < dn t"
    using dn_year [OF t] wt ne n ys unfolding D_def y_def n_def by (auto split: if_splits)
  assume v: "valid_time v" "day_passed gn (dn t) D (dn v)"
  have dv: "valid_date (ld_y v) (ld_m v) (ld_d v)" using valid_time_date [OF v(1)] by simp
  have yv: "year_start (ld_y v) \<le> dn v" "dn v < year_start (ld_y v + 1)" using dn_year [OF dv] by simp_all
  show "week_of v \<noteq> w"
  proof
    assume wv: "week_of v = w"
    then have b: "year_start (ld_y v) + 7 * w - 7 \<le> dn v" "dn v < year_start (ld_y v) + 7 * w"
      using week_of_iff [of v w] by simp_all
    show False
    proof (cases "ld_y v = y")
      case True
      then show False using b yv v(2) unfolding D_def n_def day_passed_def
        by (auto simp: year_start_Suc split: if_splits)
    next
      case False
      have "year_start y \<le> D" "D < year_start (y + 1)" using n by (simp_all add: D_def year_start_Suc)
      then have "if gn then year_start (ld_y t) \<le> dn v \<and> dn v < year_start (y + 1)
          else dn v < year_start (ld_y t + 1) \<and> year_start y \<le> dn v"
        using v(2) dn_year [OF t] by (cases gn) (simp_all add: day_passed_def)
      then have "if gn then ld_y t \<le> ld_y v \<and> ld_y v \<le> y else ld_y v \<le> ld_y t \<and> y \<le> ld_y v"
        unfolding year_of_day [OF dv] by (cases gn) simp_all
      with False have e: "ld_y v = ld_y t" "y \<noteq> ld_y t" by (auto simp: y_def split: if_splits)
      then have "if gn then w < week_of t else week_of t < w" by (auto simp: y_def split: if_splits)
      then show False using wt b e(1) v(2) by (auto simp: day_passed_def split: if_splits)
    qed
  qed
qed

interpretation at_week: adjuster sp_ok adjust_week fits_week
proof
  fix p :: sharppoint and gn t assume p: "sp_ok p" and s: "searchable t"
  let ?w = "sp_week_in_year p"
  have t: "valid_time t" "valid_date (ld_y t) (ld_m t) (ld_d t)" "1970 < ld_y t"
    using s valid_time_date by (simp_all add: searchable_def)
  have k: "GetDayOfYear (ld_y t) (ld_m t) (ld_d t) = Some (day_of_year (ld_y t) (ld_m t) (ld_d t))"
    "(day_of_year (ld_y t) (ld_m t) (ld_d t) - 1) sdiv 7 + 1 = week_of t"
    using t(2) day_of_year_bounds [OF t(2)] by (simp_all add: GetDayOfYear_eq week_of_def valid_date_def)
  show "\<exists>a. adjust_week p gn t = Some a \<and> adjust_contract (fits_week p) gn t a"
  proof (cases "?w = UNDEFINED \<or> week_of t = ?w")
    case True
    have "?w \<noteq> UNDEFINED \<Longrightarrow> sp_month p = UNDEFINED" using p by (simp add: sp_ok_def)
    then have "adjust_week p gn t = Some Unchanged" using True k by (auto simp: adjust_week_def)
    then show ?thesis using True by (auto simp: adjust_contract_def fits_week_def)
  next
    case False
    define y where "y = (if \<not> gn \<and> week_of t < ?w then ld_y t - 1 else if gn \<and> ?w < week_of t then ld_y t + 1 else ld_y t)"
    define n where "n = (if gn then 7 * ?w - 6 else min (7 * ?w) (TotalDaysInYear y))"
    note P = adjust_week_passed [where p = p and t = t and gn = gn, folded y_def, folded n_def]
    have c: "?w \<noteq> UNDEFINED" "week_of t \<noteq> ?w" using False by simp_all
    have ny: "1 \<le> n" "n \<le> TotalDaysInYear y" "1970 \<le> y"
      using P(1,2) [OF c(1) p t(1,3) c(2)] t(3) by (simp_all add: y_def)
    obtain m d where md: "FindByDayNum y n = Some (m, d)" "valid_date y m d" "day_of_year y m d = n"
      using FindByDayNum_ok [OF ny(1,2)] by blast
    have D: "day_number y m d = year_start y + n - 1" using md(3) by (simp add: day_number_def)
    let ?set = "if gn then lt_Set y m d 0 0 0 t else lt_Set y m d 23 59 59 t"
    have "1 \<le> m" "m \<le> 12" "1 \<le> d" using md(2) by (simp_all add: valid_date_def)
    then obtain u where u: "?set = Some u" "valid_time u" "raw_seconds u = (year_start y + n - 1) * 86400 + target_clock gn"
      "lt_is_dst u = lt_is_dst t"
      using lt_Set_date [of y t m d] ny(3) day_number_nonneg [OF ny(3) md(2)] D by (cases gn) auto
    have "adjust_contract (fits_week p) gn t (Changed u)"
      using P(3,4) [OF c(1) p t(1,3) c(2)] c(1)
      by (intro day_contract [OF t(1) u(2,3,4)]) (auto simp: fits_week_def)
    moreover have "adjust_week p gn t = map_option Changed ?set"
    proof -
      have w: "1 \<le> ?w" "?w \<le> 53" "sp_month p = UNDEFINED"
        using c(1) p opt_rangeD [of 1 53 ?w] by (simp_all add: sp_ok_def)
      show ?thesis using c w k md(1) unfolding y_def n_def
        by (cases gn; cases "week_of t < ?w") (auto simp: adjust_week_def Let_def min_def mult.commute)
    qed
    ultimately show ?thesis using u(1) by simp
  qed
qed


section \<open>Hour, minute and second\<close>

definition fits_hour :: "sharppoint \<Rightarrow> localtime \<Rightarrow> bool" where
  "fits_hour sp t \<longleftrightarrow> sp_hour sp = UNDEFINED \<or> lt_h t = sp_hour sp"

definition fits_minute :: "sharppoint \<Rightarrow> localtime \<Rightarrow> bool" where
  "fits_minute sp t \<longleftrightarrow> sp_minute sp = UNDEFINED \<or> lt_mn t = sp_minute sp"

definition fits_second :: "sharppoint \<Rightarrow> localtime \<Rightarrow> bool" where
  "fits_second sp t \<longleftrightarrow> sp_second sp = UNDEFINED \<or> lt_s t = sp_second sp"

text \<open>
  One digit \<open>f\<close> of a mixed-radix number, \<open>a\<close> the digits above it and \<open>r\<close> what is below:
  the next number with the digit \<open>F\<close> in its place, and the previous one.
\<close>

lemma field_next:
  fixes a f r k N F b g q :: int
  assumes k: "0 \<le> r" "r < k" "0 \<le> q" "q < k" and N: "0 \<le> f" "f < N" "0 \<le> g" "g < N" "0 \<le> F" "F < N" and F: "F \<noteq> f"
  defines "U \<equiv> (if F < f then a + 1 else a) * (N * k) + F * k"
  shows "a * (N * k) + f * k + r < U"
    and "a * (N * k) + f * k + r \<le> b * (N * k) + g * k + q \<Longrightarrow> b * (N * k) + g * k + q < U \<Longrightarrow> g \<noteq> F"
proof -
  have lo: "x * (N * k) + y * k + z = (x * N + y) * k + z" for x y z by (simp add: algebra_simps)
  have U: "U = ((if F < f then a + 1 else a) * N + F) * k + 0" using lo [of _ F 0] by (simp add: U_def)
  have k0: "0 \<le> (0::int)" "0 < k" using k by simp_all
  have F1: "a * N + f < (if F < f then a + 1 else a) * N + F"
    using lex_less_iff [of f N F a "if F < f then a + 1 else a"] N F by auto
  then show "a * (N * k) + f * k + r < U"
    unfolding lo U using lex_less_iff [OF k(1,2) k0] by simp
  assume x: "a * (N * k) + f * k + r \<le> b * (N * k) + g * k + q" "b * (N * k) + g * k + q < U"
  have "b * N + g < (if F < f then a + 1 else a) * N + F"
    using x(2) k(3) unfolding lo U lex_less_iff [OF k(3,4) k0] by auto
  then have 1: "b < (if F < f then a + 1 else a) \<or> b = (if F < f then a + 1 else a) \<and> g < F"
    using lex_less_iff [of g N F b "if F < f then a + 1 else a"] N by auto
  have "\<not> b * N + g < a * N + f"
    using x(1) lex_less_iff [OF k(3,4) k(1,2), of "b * N + g" "a * N + f"] unfolding lo by auto
  then have 2: "\<not> (b < a \<or> b = a \<and> g < f)" using lex_less_iff [of g N f b a] N by auto
  show "g \<noteq> F" using 1 2 F by (auto split: if_splits)
qed

lemma field_prev:
  fixes a f r k N F b g q :: int
  assumes k: "0 \<le> r" "r < k" "0 \<le> q" "q < k" and N: "0 \<le> f" "f < N" "0 \<le> g" "g < N" "0 \<le> F" "F < N" and F: "F \<noteq> f"
  defines "U \<equiv> (if f < F then a - 1 else a) * (N * k) + F * k + (k - 1)"
  shows "U < a * (N * k) + f * k + r"
    and "b * (N * k) + g * k + q \<le> a * (N * k) + f * k + r \<Longrightarrow> U < b * (N * k) + g * k + q \<Longrightarrow> g \<noteq> F"
proof -
  have lo: "x * (N * k) + y * k + z = (x * N + y) * k + z" for x y z by (simp add: algebra_simps)
  have k1: "0 \<le> k - 1" "k - 1 < k" using k by simp_all
  have F1: "(if f < F then a - 1 else a) * N + F < a * N + f"
    using lex_less_iff [of F N f "if f < F then a - 1 else a" a] N F by auto
  then show "U < a * (N * k) + f * k + r"
    unfolding U_def lo using lex_less_iff [OF k1 k(1,2)] by simp
  assume x: "b * (N * k) + g * k + q \<le> a * (N * k) + f * k + r" "U < b * (N * k) + g * k + q"
  have "(if f < F then a - 1 else a) * N + F < b * N + g"
    using x(2) k(4) unfolding lo U_def lex_less_iff [OF k1 k(3,4)] by auto
  then have 1: "(if f < F then a - 1 else a) < b \<or> b = (if f < F then a - 1 else a) \<and> F < g"
    using lex_less_iff [of F N g "if f < F then a - 1 else a" b] N by auto
  have "\<not> a * N + f < b * N + g"
    using x(1) lex_less_iff [OF k(1,2) k(3,4), of "a * N + f" "b * N + g"] unfolding lo by auto
  then have 2: "\<not> (a < b \<or> a = b \<and> f < g)" using lex_less_iff [of f N g a b] N by auto
  show "g \<noteq> F" using 1 2 F by (auto split: if_splits)
qed

lemma valid_after_1970:
  assumes "valid_time t" "1970 < ld_y t"
  shows "365 \<le> dn t" "365 * 86400 \<le> raw_seconds t"
proof -
  show *: "365 \<le> dn t"
    using year_start_ge [of "ld_y t"] dn_year(1) [of "ld_y t" "ld_m t" "ld_d t"] valid_time_date [OF assms(1)] assms(2) by simp
  show "365 * 86400 \<le> raw_seconds t" using valid_time_split [OF assms(1)] clock_bounds [OF assms(1)] * by simp
qed

text \<open>A field of the clock, with the digits above it and what is below.\<close>

definition clock_field :: "(localtime \<Rightarrow> int) \<Rightarrow> (localtime \<Rightarrow> int) \<Rightarrow> (localtime \<Rightarrow> int) \<Rightarrow> int \<Rightarrow> int \<Rightarrow> bool" where
  "clock_field hi field below N k \<longleftrightarrow>
     (\<forall>t. valid_time t \<longrightarrow> raw_seconds t = hi t * (N * k) + field t * k + below t \<and>
       0 \<le> field t \<and> field t < N \<and> 0 \<le> below t \<and> below t < k)"

lemma clock_fields:
  "clock_field dn lt_h (\<lambda>t. lt_mn t * 60 + lt_s t) 24 3600"
  "clock_field (\<lambda>t. dn t * 24 + lt_h t) lt_mn lt_s 60 60"
  "clock_field (\<lambda>t. (dn t * 24 + lt_h t) * 60 + lt_mn t) lt_s (\<lambda>_. 0) 60 1"
  by (auto simp: clock_field_def valid_time_raw valid_time_def)

lemma clock_contract:
  fixes F :: int
  assumes c: "clock_field hi field below N k" and t: "valid_time t" "valid_time u" "lt_is_dst u = lt_is_dst t"
    and F: "0 \<le> F" "F < N" "F \<noteq> field t"
    and u: "raw_seconds u =
      (if gn then (if F < field t then hi t + 1 else hi t) * (N * k) + F * k
       else (if field t < F then hi t - 1 else hi t) * (N * k) + F * k + (k - 1))"
    and fits: "\<And>v. fits v \<longleftrightarrow> field v = F"
  shows "adjust_contract fits gn t (Changed u)"
proof -
  have ct: "raw_seconds t = hi t * (N * k) + field t * k + below t" "0 \<le> field t" "field t < N" "0 \<le> below t" "below t < k"
    using c t(1) by (auto simp: clock_field_def)
  have cv: "raw_seconds v = hi v * (N * k) + field v * k + below v" "0 \<le> field v" "field v < N" "0 \<le> below v" "below v < k"
    if "valid_time v" for v using c that by (auto simp: clock_field_def)
  show ?thesis
  proof (cases gn)
    case True
    note N = field_next [OF ct(4,5) _ _ ct(2,3) _ _ F]
    have "raw_seconds t < raw_seconds u" using N(1) [OF ct(4,5) ct(2,3), of "hi t"] ct(1) u True by simp
    moreover have "\<not> fits v" if "valid_time v" "raw_seconds t \<le> raw_seconds v" "raw_seconds v < raw_seconds u" for v
      using N(2) [OF cv(4,5) [OF that(1)] cv(2,3) [OF that(1)], of "hi t" "hi v"] that(2,3) ct(1) cv(1) [OF that(1)] u True
      by (simp add: fits)
    ultimately show ?thesis using True t by (auto simp: adjust_contract_def ahead_def)
  next
    case False
    note N = field_prev [OF ct(4,5) _ _ ct(2,3) _ _ F]
    have "raw_seconds u < raw_seconds t" using N(1) [OF ct(4,5) ct(2,3), of "hi t"] ct(1) u False by simp
    moreover have "\<not> fits v" if "valid_time v" "raw_seconds v \<le> raw_seconds t" "raw_seconds u < raw_seconds v" for v
      using N(2) [OF cv(4,5) [OF that(1)] cv(2,3) [OF that(1)], of "hi v" "hi t"] that(2,3) ct(1) cv(1) [OF that(1)] u False
      by (simp add: fits)
    ultimately show ?thesis using False t by (auto simp: adjust_contract_def ahead_def)
  qed
qed

lemma lt_Set_clock:
  assumes "valid_time t" "1970 < ld_y t" "- 40 \<le> pick day (ld_d t) - ld_d t"
    "- 100 \<le> pick hour (lt_h t)" "- 100 \<le> pick minute (lt_mn t)" "- 100 \<le> pick second (lt_s t)"
  shows "\<exists>u. lt_Set NO_CHANGE NO_CHANGE day hour minute second t = Some u \<and> valid_time u \<and> lt_is_dst u = lt_is_dst t \<and>
    raw_seconds u = (dn t + (pick day (ld_d t) - ld_d t)) * 86400 + pick hour (lt_h t) * 3600
      + pick minute (lt_mn t) * 60 + pick second (lt_s t)"
proof -
  have m: "1 \<le> ld_m t" "ld_m t \<le> 12" using assms(1) by (simp_all add: valid_time_def valid_date_def)
  have d: "day_number (ld_y t) (ld_m t) (pick day (ld_d t)) = dn t + (pick day (ld_d t) - ld_d t)"
    using day_number_shift [of "ld_y t" "ld_m t" "ld_d t" "pick day (ld_d t) - ld_d t"] by simp
  show ?thesis
    using lt_Set_ok [of NO_CHANGE t NO_CHANGE day hour minute second] m assms(2-6) valid_after_1970(1) [OF assms(1,2)]
    by (auto simp: d)
qed

interpretation at_hour: adjuster sp_ok adjust_hour fits_hour
proof
  fix p :: sharppoint and gn t assume p: "sp_ok p" and s: "searchable t"
  have t: "valid_time t" "1970 < ld_y t" using s by (simp_all add: searchable_def)
  let ?F = "sp_hour p"
  show "\<exists>a. adjust_hour p gn t = Some a \<and> adjust_contract (fits_hour p) gn t a"
  proof (cases "?F = UNDEFINED \<or> ?F = lt_h t")
    case True
    then show ?thesis by (auto simp: adjust_hour_def adjust_contract_def fits_hour_def)
  next
    case False
    then have F: "0 \<le> ?F" "?F < 24" "?F \<noteq> lt_h t" using p opt_rangeD [of 0 23 ?F] by (simp_all add: sp_ok_def)
    define d where "d = (if gn \<and> ?F < lt_h t then ld_d t + 1 else if \<not> gn \<and> lt_h t < ?F then ld_d t - 1 else ld_d t)"
    let ?set = "if gn then lt_Set NO_CHANGE NO_CHANGE d ?F 0 0 t else lt_Set NO_CHANGE NO_CHANGE d ?F 59 59 t"
    have "0 \<le> d" "- 40 \<le> d - ld_d t" using t by (simp_all add: valid_time_def valid_date_def d_def)
    then obtain u where u: "?set = Some u" "valid_time u" "lt_is_dst u = lt_is_dst t"
      "raw_seconds u = (dn t + (d - ld_d t)) * 86400 + ?F * 3600 + (if gn then 0 else 3599)"
      using lt_Set_clock [OF t, of d ?F 0 0] lt_Set_clock [OF t, of d ?F 59 59] F(1) by (cases gn) (auto simp: ac_simps)
    have "adjust_contract (fits_hour p) gn t (Changed u)"
      using clock_fields(1) t(1) u(2,3) F by (rule clock_contract) (use u(4) False in \<open>auto simp: fits_hour_def d_def\<close>)
    moreover have "adjust_hour p gn t = map_option Changed ?set"
      using False by (cases gn) (auto simp: adjust_hour_def Let_def d_def)
    ultimately show ?thesis using u(1) by simp
  qed
qed


interpretation at_minute: adjuster sp_ok adjust_minute fits_minute
proof
  fix p :: sharppoint and gn t assume p: "sp_ok p" and s: "searchable t"
  have t: "valid_time t" "1970 < ld_y t" using s by (simp_all add: searchable_def)
  let ?F = "sp_minute p"
  show "\<exists>a. adjust_minute p gn t = Some a \<and> adjust_contract (fits_minute p) gn t a"
  proof (cases "?F = UNDEFINED \<or> ?F = lt_mn t")
    case True
    then show ?thesis by (auto simp: adjust_minute_def adjust_contract_def fits_minute_def)
  next
    case False
    then have F: "0 \<le> ?F" "?F < 60" "?F \<noteq> lt_mn t" using p opt_rangeD [of 0 59 ?F] by (simp_all add: sp_ok_def)
    define h where "h = (if gn \<and> ?F < lt_mn t then lt_h t + 1 else if \<not> gn \<and> lt_mn t < ?F then lt_h t - 1 else lt_h t)"
    let ?set = "if gn then lt_Set NO_CHANGE NO_CHANGE NO_CHANGE h ?F 0 t else lt_Set NO_CHANGE NO_CHANGE NO_CHANGE h ?F 59 t"
    have "- 1 \<le> h" using t by (simp add: valid_time_def h_def)
    then obtain u where u: "?set = Some u" "valid_time u" "lt_is_dst u = lt_is_dst t"
      "raw_seconds u = dn t * 86400 + h * 3600 + ?F * 60 + (if gn then 0 else 59)"
      using lt_Set_clock [OF t, of NO_CHANGE h ?F 0] lt_Set_clock [OF t, of NO_CHANGE h ?F 59] F(1)
      by (cases gn) (auto simp: ac_simps)
    have "adjust_contract (fits_minute p) gn t (Changed u)"
      using clock_fields(2) t(1) u(2,3) F by (rule clock_contract) (use u(4) False in \<open>auto simp: fits_minute_def h_def\<close>)
    moreover have "adjust_minute p gn t = map_option Changed ?set"
      using False by (cases gn) (auto simp: adjust_minute_def Let_def h_def)
    ultimately show ?thesis using u(1) by simp
  qed
qed

interpretation at_second: adjuster sp_ok adjust_second fits_second
proof
  fix p :: sharppoint and gn t assume p: "sp_ok p" and s: "searchable t"
  have t: "valid_time t" "1970 < ld_y t" using s by (simp_all add: searchable_def)
  let ?F = "sp_second p"
  show "\<exists>a. adjust_second p gn t = Some a \<and> adjust_contract (fits_second p) gn t a"
  proof (cases "?F = UNDEFINED \<or> ?F = lt_s t")
    case True
    then show ?thesis by (auto simp: adjust_second_def adjust_contract_def fits_second_def)
  next
    case False
    then have F: "0 \<le> ?F" "?F < 60" "?F \<noteq> lt_s t" using p opt_rangeD [of 0 59 ?F] by (simp_all add: sp_ok_def)
    define m where "m = (if gn \<and> ?F < lt_s t then lt_mn t + 1 else if \<not> gn \<and> lt_s t < ?F then lt_mn t - 1 else lt_mn t)"
    have "- 1 \<le> m" "0 \<le> lt_h t" using t by (simp_all add: valid_time_def m_def)
    then obtain u where u: "lt_Set NO_CHANGE NO_CHANGE NO_CHANGE NO_CHANGE m ?F t = Some u" "valid_time u" "lt_is_dst u = lt_is_dst t"
      "raw_seconds u = dn t * 86400 + lt_h t * 3600 + m * 60 + ?F"
      using lt_Set_clock [OF t, of NO_CHANGE NO_CHANGE m ?F] F(1) by auto
    have "adjust_contract (fits_second p) gn t (Changed u)"
      using clock_fields(3) t(1) u(2,3) F by (rule clock_contract) (use u(4) False in \<open>auto simp: fits_second_def m_def\<close>)
    moreover have "adjust_second p gn t = Some (Changed u)"
      using False u(1) unfolding m_def by (cases gn; cases "?F < lt_s t") (simp_all add: adjust_second_def Let_def)
    ultimately show ?thesis by simp
  qed
qed


section \<open>Day of the month\<close>

lemma month_after:
  assumes "1 \<le> m" "m \<le> 12" "MaxDaysInMonth y m = Some n"
  shows "day_number (carried_year y (m + 1)) (carried_month (m + 1)) d = day_number y m (d + n)"
    and "y \<le> carried_year y (m + 1)"
proof -
  have "carried_year y (m + 1) = (if m = 12 then y + 1 else y) \<and> carried_month (m + 1) = (if m = 12 then 1 else m + 1)"
    using assms(1,2) by (cases "m = 12") (simp_all add: carried_year_def carried_month_def)
  then show "day_number (carried_year y (m + 1)) (carried_month (m + 1)) d = day_number y m (d + n)"
    and "y \<le> carried_year y (m + 1)"
    using day_number_next_month [OF assms, of d] by (simp_all split: if_splits)
qed

text \<open>
  \<open>adjust_to_day\<close>, when the day wanted in the month \<open>m\<close> of \<open>y\<close> is \<open>f y m\<close>. A day the month
  does not have (only a fixed day of the month can be one) leads into the next month, in front of
  that day.
\<close>

lemma adjust_to_day_ok:
  assumes t: "valid_time t" "1970 < ld_y t" and n: "MaxDaysInMonth (ld_y t) (ld_m t) = Some n"
    and c: "c = f (ld_y t) (ld_m t)" "1 \<le> c" "c \<le> 31" "c \<le> n \<or> (\<forall>y m. f y m = c)"
    and fits: "\<And>v. valid_time v \<Longrightarrow> fits v \<longleftrightarrow> ld_d v = f (ld_y v) (ld_m v)"
  shows "\<exists>a. adjust_to_day c gn t = Some a \<and> adjust_contract fits gn t a"
proof (cases "c = ld_d t")
  case True
  then show ?thesis using c(1) by (simp add: adjust_to_day_def adjust_contract_def fits t)
next
  case False
  have d: "valid_date (ld_y t) (ld_m t) (ld_d t)" "1 \<le> ld_m t" "ld_m t \<le> 12" "1 \<le> ld_d t" "ld_d t \<le> n"
    using t(1) n by (auto simp: valid_time_def valid_date_def)
  have n28: "28 \<le> n" using MaxDaysInMonth_bounds [OF d(2,3), of "ld_y t"] n by auto
  define b where "b = day_number (ld_y t) (ld_m t) 1"
  have dt: "dn t = b + ld_d t - 1" using dn_shift [of "ld_y t" "ld_m t" "ld_d t"] by (simp add: b_def)
  have b: "31 \<le> b" using dt valid_after_1970(1) [OF t] d(5) MaxDaysInMonth_bounds [OF d(2,3), of "ld_y t"] n by auto
  have num: "day_number (ld_y t) (ld_m t) e = b + e - 1" for e using dn_shift [of "ld_y t" "ld_m t" e] by (simp add: b_def)
  have here: "ld_y v = ld_y t \<and> ld_m v = ld_m t \<and> ld_d v = dn v - b + 1"
    if "valid_time v" "b \<le> dn v" "dn v < b + n" for v
    using month_of_day [of "ld_y v" "ld_m v" "ld_d v" "ld_m t" "ld_y t" n] valid_time_date [OF that(1)] d(2,3) n that(2,3)
    by (simp add: b_def)
  have later: "ld_d v < c" if "valid_time v" "b + n \<le> dn v" "dn v < b + c - 1" for v
  proof -
    let ?y = "carried_year (ld_y t) (ld_m t + 1)" and ?m = "carried_month (ld_m t + 1)"
    have m: "1 \<le> ?m" "?m \<le> 12" by (rule carried_month_bounds)+
    obtain k where k: "MaxDaysInMonth ?y ?m = Some k" "28 \<le> k" using MaxDaysInMonth_bounds [OF m] by blast
    have "day_number ?y ?m 1 = b + n" using month_after(1) [OF d(2,3) n, of 1] num by simp
    then have "ld_d v = dn v - (b + n) + 1"
      using month_of_day(3) [of "ld_y v" "ld_m v" "ld_d v" ?m ?y k] valid_time_date [OF that(1)] m k that c(3) n28 by simp
    then show ?thesis using that(3) n28 by linarith
  qed
  consider (fwd) "gn" "ld_d t < c" | (month) "gn" "c < ld_d t" | (bwd) "\<not> gn" "c < ld_d t" | (away) "\<not> gn" "ld_d t < c"
    using False by linarith
  then show ?thesis
  proof cases
    case fwd
    obtain u where u: "lt_Set NO_CHANGE NO_CHANGE c 0 0 0 t = Some u" "valid_time u"
      "raw_seconds u = (b + c - 1) * 86400 + target_clock True" "lt_is_dst u = lt_is_dst t"
      using lt_Set_date(1) [of NO_CHANGE t NO_CHANGE c] t(2) d(2,3) c(2) b num by auto
    have "\<not> fits v" if "valid_time v" "day_passed True (dn t) (b + c - 1) (dn v)" for v
    proof (cases "dn v < b + n")
      case True
      then show ?thesis using here [OF that(1)] that(2) c(1,2) d(4) dt by (auto simp: day_passed_def fits that(1))
    next
      case False
      then have "ld_d v < c" "\<not> c \<le> n" using later [OF that(1)] that(2) by (simp_all add: day_passed_def)
      moreover from this(2) c(4) have "f (ld_y v) (ld_m v) = c" by blast
      ultimately show ?thesis by (simp add: fits that(1))
    qed
    then have "adjust_contract fits True t (Changed u)"
      using fwd dt by (intro day_contract [OF t(1) u(2,3,4)]) simp_all
    then show ?thesis using fwd u(1) False by (simp add: adjust_to_day_def)
  next
    case month
    obtain u where u: "lt_Set NO_CHANGE (ld_m t + 1) 1 0 0 0 t = Some u" "valid_time u"
      "raw_seconds u = (b + n) * 86400 + target_clock True" "lt_is_dst u = lt_is_dst t"
      using lt_Set_date(1) [of NO_CHANGE t "ld_m t + 1" 1] t(2) d(2,3) b num month_after [OF d(2,3) n] n28 by auto
    have "\<not> fits v" if "valid_time v" "day_passed True (dn t) (b + n) (dn v)" for v
      using here [OF that(1)] that(2) c(1) d(4) dt month by (auto simp: day_passed_def fits that(1))
    then have "adjust_contract fits True t (Changed u)"
      using month dt d(5) by (intro day_contract [OF t(1) u(2,3,4)]) simp_all
    then show ?thesis using month u(1) by (simp add: adjust_to_day_def)
  next
    case bwd
    obtain u where u: "lt_Set NO_CHANGE NO_CHANGE c 23 59 59 t = Some u" "valid_time u"
      "raw_seconds u = (b + c - 1) * 86400 + target_clock False" "lt_is_dst u = lt_is_dst t"
      using lt_Set_date(2) [of NO_CHANGE t NO_CHANGE c] t(2) d(2,3) c(2) b num by auto
    have "\<not> fits v" if "valid_time v" "day_passed False (dn t) (b + c - 1) (dn v)" for v
      using here [OF that(1)] that(2) c(1,2) d(5) dt by (auto simp: day_passed_def fits that(1))
    then have "adjust_contract fits False t (Changed u)"
      using bwd dt by (intro day_contract [OF t(1) u(2,3,4)]) simp_all
    then show ?thesis using bwd u(1) by (simp add: adjust_to_day_def)
  next
    case away
    obtain u where u: "lt_Set NO_CHANGE NO_CHANGE 0 23 59 59 t = Some u" "valid_time u"
      "raw_seconds u = (b - 1) * 86400 + target_clock False" "lt_is_dst u = lt_is_dst t"
      using lt_Set_date(2) [of NO_CHANGE t NO_CHANGE 0] t(2) d(2,3) b num by auto
    have "\<not> fits v" if "valid_time v" "day_passed False (dn t) (b - 1) (dn v)" for v
      using here [OF that(1)] that(2) c(1) d(5) dt away by (auto simp: day_passed_def fits that(1))
    then have "adjust_contract fits False t (Changed u)"
      using away dt d(4) by (intro day_contract [OF t(1) u(2,3,4)]) simp_all
    then show ?thesis using away u(1) False by (simp add: adjust_to_day_def)
  qed
qed

section \<open>Day of the week\<close>

definition weekday :: "int \<Rightarrow> int" where
  "weekday n = (4 + n) mod 7 + 1"

lemma weekday_bounds: "1 \<le> weekday n" "weekday n \<le> 7"
  using pos_mod_sign [of 7 "4 + n"] pos_mod_bound [of 7 "4 + n"] by (simp_all add: weekday_def)

lemma weekday_eq_iff: "weekday a = weekday b \<longleftrightarrow> 7 dvd a - b"
proof -
  have "weekday a = weekday b \<longleftrightarrow> (4 + a) mod 7 = (4 + b) mod 7" by (simp add: weekday_def)
  also have "\<dots> \<longleftrightarrow> 7 dvd a - b" by (simp add: mod_eq_dvd_iff)
  finally show ?thesis .
qed

lemma weekday_shift: "1 \<le> w \<Longrightarrow> w \<le> 7 \<Longrightarrow> weekday (n + (w - weekday n)) = w"
proof -
  assume w: "1 \<le> w" "w \<le> 7"
  have "4 + (n + (w - weekday n)) = w - 1 + 7 * ((4 + n) div 7)"
    using div_mult_mod_eq [of "4 + n" 7] unfolding weekday_def by linarith
  then have "(4 + (n + (w - weekday n))) mod 7 = (w - 1) mod 7" by (simp only: mod_mult_self2)
  with w show ?thesis by (simp add: weekday_def)
qed

lemma weekday_at:
  assumes "weekday a = w" "weekday b = w" "\<bar>a - b\<bar> < 7" shows "a = b"
proof -
  have "7 dvd a - b" using assms(1,2) weekday_eq_iff [of a b] by simp
  with assms(3) zdvd_not_zless [of "\<bar>a - b\<bar>" 7] show ?thesis by fastforce
qed

lemma GetDayOfWeek_valid:
  assumes "valid_date y m d" "1970 \<le> y" shows "GetDayOfWeek y m d = Some (weekday (day_number y m d))"
  using GetDayOfWeek_eq [of y m d "day_number y m d"] DaysSince1970_ok [of y m d] day_number_nonneg [OF assms(2,1)] assms
  by (simp add: weekday_def valid_date_def)

text \<open>
  The \<open>k\<close>-th day \<open>w\<close> of the week in a month, counted from the end when \<open>k\<close> is negative; a
  fifth one that does not exist is the last (first) day of the month.
\<close>

definition nth_weekday :: "int \<Rightarrow> int \<Rightarrow> int \<Rightarrow> int \<Rightarrow> int \<Rightarrow> bool" where
  "nth_weekday y m k w d =
     (case MaxDaysInMonth y m of
        None \<Rightarrow> False
      | Some n \<Rightarrow>
          let nth = (\<lambda>e. weekday (day_number y m e) = w \<and> (if 0 < k then (e - 1) div 7 + 1 = k else (n - e) div 7 + 1 = - k))
          in nth d \<or> list_all (\<lambda>e. \<not> nth e) [1..n] \<and> d = (if 0 < k then n else 1))"


lemma nth_weekday_unique:
  assumes n: "MaxDaysInMonth y m = Some n" "1 \<le> c" "c \<le> n" and d: "1 \<le> d" "d \<le> n"
    and c: "weekday (day_number y m c) = w" "if 0 < k then (c - 1) div 7 + 1 = k else (n - c) div 7 + 1 = - k"
  shows "nth_weekday y m k w d \<longleftrightarrow> d = c"
proof -
  let ?nth = "\<lambda>e. weekday (day_number y m e) = w \<and> (if 0 < k then (e - 1) div 7 + 1 = k else (n - e) div 7 + 1 = - k)"
  have "\<not> list_all (\<lambda>e. \<not> ?nth e) [1..n]" using c n(2,3) by (auto simp: list_all_iff)
  moreover have "?nth d \<longleftrightarrow> d = c"
  proof
    assume nd: "?nth d"
    have "\<bar>d - c\<bar> < 7"
    proof (cases "0 < k")
      case True
      then have "(d - 1) div 7 = (c - 1) div 7" using nd c(2) by simp
      then show ?thesis by linarith
    next
      case False
      then have "(n - d) div 7 = (n - c) div 7" using nd c(2) by simp
      then show ?thesis by linarith
    qed
    then have "\<bar>day_number y m d - day_number y m c\<bar> < 7" using dn_shift [of y m d] dn_shift [of y m c] by simp
    then have "day_number y m d = day_number y m c" using weekday_at nd c(1) by blast
    then show "d = c" using dn_shift [of y m d] dn_shift [of y m c] by simp
  qed (use c in simp)
  ultimately show ?thesis using n(1) by (simp add: nth_weekday_def)
qed

lemma nth_weekday_none:
  assumes "MaxDaysInMonth y m = Some n" "1 \<le> d" "d \<le> n"
    and "\<And>e. 1 \<le> e \<Longrightarrow> e \<le> n \<Longrightarrow> \<not> (weekday (day_number y m e) = w \<and> (if 0 < k then (e - 1) div 7 + 1 = k else (n - e) div 7 + 1 = - k))"
  shows "nth_weekday y m k w d \<longleftrightarrow> d = (if 0 < k then n else 1)"
proof -
  let ?nth = "\<lambda>e. weekday (day_number y m e) = w \<and> (if 0 < k then (e - 1) div 7 + 1 = k else (n - e) div 7 + 1 = - k)"
  have "list_all (\<lambda>e. \<not> ?nth e) [1..n]" "\<not> ?nth d" using assms(2-4) by (simp_all add: list_all_iff)
  then show ?thesis using assms(1) by (cases "0 < k") (auto simp: nth_weekday_def)
qed

text \<open>\<open>LocateByWeekAndDay\<close> finds that day, and never meets its assertions.\<close>

lemma LocateByWeekAndDay_ok:
  assumes y: "1970 \<le> y" and m: "1 \<le> m" "m \<le> 12" and n: "MaxDaysInMonth y m = Some n"
    and k: "k = sp_week_in_month sp" "- 5 \<le> k" "k \<le> 5" "k \<noteq> 0" and w: "1 \<le> w" "w \<le> 7"
  shows "\<exists>c. LocateByWeekAndDay sp y m k w = Some c \<and> 1 \<le> c \<and> c \<le> n \<and>
    (\<forall>d. 1 \<le> d \<and> d \<le> n \<longrightarrow> (nth_weekday y m k w d \<longleftrightarrow> d = c))"
proof -
  have n28: "28 \<le> n" "n \<le> 31" using MaxDaysInMonth_bounds [OF m, of y] n by auto
  have v: "valid_date y m 1" "valid_date y m n" using m n n28 by (simp_all add: valid_date_def)
  define b where "b = day_number y m 1"
  have num: "day_number y m e = b + e - 1" for e using dn_shift [of y m e] by (simp add: b_def)
  have wd: "GetDayOfWeek y m 1 = Some (weekday b)" "GetDayOfWeek y m n = Some (weekday (b + n - 1))"
    using GetDayOfWeek_valid [OF v(1) y] GetDayOfWeek_valid [OF v(2) y] num [of 1] num [of n] by simp_all
  show ?thesis
  proof (cases "0 < k")
    case True
    define f where "f = 1 + (if weekday b \<le> w then w - weekday b else w + 7 - weekday b)"
    define c where "c = f + 7 * (k - 1)"
    have f: "1 \<le> f" "f \<le> 7" using w weekday_bounds [of b] by (auto simp: f_def)
    have "7 dvd (b + c - 1) - (b + (w - weekday b))" by (simp add: c_def f_def)
    then have c: "weekday (b + c - 1) = w" using weekday_eq_iff weekday_shift [OF w, of b] by metis
    have ck: "(c - 1) div 7 + 1 = k"
    proof -
      have "c - 1 = (f - 1) + 7 * (k - 1)" by (simp add: c_def)
      then have "(c - 1) div 7 = (f - 1) div 7 + (k - 1)" by simp
      then show ?thesis using f by simp
    qed
    have L: "LocateByWeekAndDay sp y m k w = (if n < c then if k = 5 then Some n else None else Some c)"
      using n wd(1) True k(2-4)
      by (simp add: LocateByWeekAndDay_def k(1) [symmetric] Let_def f_def c_def)
    show ?thesis
    proof (cases "n < c")
      case False
      have "1 \<le> c" using f True by (simp add: c_def)
      then show ?thesis using False L c ck True nth_weekday_unique [OF n, of c _ w k] by (auto simp: num)
    next
      case late: True
      have "4 < k" using late n28(1) f(2) unfolding c_def by simp
      then have "k = 5" using k(3) by simp
      have "\<not> (weekday (day_number y m e) = w \<and> (if 0 < k then (e - 1) div 7 + 1 = k else (n - e) div 7 + 1 = - k))"
        if e: "1 \<le> e" "e \<le> n" for e
      proof
        assume a: "weekday (day_number y m e) = w \<and> (if 0 < k then (e - 1) div 7 + 1 = k else (n - e) div 7 + 1 = - k)"
        then have "(e - 1) div 7 = (c - 1) div 7" using ck True by simp
        then have "\<bar>(b + e - 1) - (b + c - 1)\<bar> < 7" by linarith
        then have "e = c" using a c weekday_at [of "b + e - 1" w "b + c - 1"] num by simp
        then show False using e late by simp
      qed
      then show ?thesis using L late \<open>k = 5\<close> n28 nth_weekday_none [OF n] by auto
    qed
  next
    case False
    define f where "f = n - (if w \<le> weekday (b + n - 1) then weekday (b + n - 1) - w else weekday (b + n - 1) + 7 - w)"
    define c where "c = f - 7 * (- k - 1)"
    have f: "n - 6 \<le> f" "f \<le> n" using w weekday_bounds [of "b + n - 1"] by (auto simp: f_def)
    have "7 dvd (b + c - 1) - (b + n - 1 + (w - weekday (b + n - 1)))" by (simp add: c_def f_def)
    then have c: "weekday (b + c - 1) = w" using weekday_eq_iff weekday_shift [OF w, of "b + n - 1"] by metis
    have ck: "(n - c) div 7 + 1 = - k"
    proof -
      have "n - c = (n - f) + 7 * (- k - 1)" by (simp add: c_def)
      then have "(n - c) div 7 = (n - f) div 7 + (- k - 1)" by (simp only: div_mult_self2)
      then show ?thesis using f by simp
    qed
    have L: "LocateByWeekAndDay sp y m k w = (if c < 1 then if k = - 5 then Some 1 else None else Some c)"
      using n wd(2) False k(2-4) by (simp add: LocateByWeekAndDay_def Let_def f_def c_def)
    show ?thesis
    proof (cases "c < 1")
      case low: False
      have "c \<le> n" using f False k(4) by (simp add: c_def)
      then show ?thesis using False L c ck low nth_weekday_unique [OF n, of c _ w k] by (auto simp: num)
    next
      case low: True
      have "k < - 4" using low n28(1) f(1) unfolding c_def by simp
      then have "k = - 5" using k(2) by simp
      have "\<not> (weekday (day_number y m e) = w \<and> (if 0 < k then (e - 1) div 7 + 1 = k else (n - e) div 7 + 1 = - k))"
        if e: "1 \<le> e" "e \<le> n" for e
      proof
        assume a: "weekday (day_number y m e) = w \<and> (if 0 < k then (e - 1) div 7 + 1 = k else (n - e) div 7 + 1 = - k)"
        then have "(n - e) div 7 = (n - c) div 7" using ck False by simp
        then have "\<bar>(b + e - 1) - (b + c - 1)\<bar> < 7" by linarith
        then have "e = c" using a c weekday_at [of "b + e - 1" w "b + c - 1"] num by simp
        then show False using e low by simp
      qed
      then show ?thesis using L low \<open>k = - 5\<close> n28 nth_weekday_none [OF n] by auto
    qed
  qed
qed


definition fits_day :: "sharppoint \<Rightarrow> localtime \<Rightarrow> bool" where
  "fits_day sp t =
     (if sp_week_in_month sp \<noteq> UNDEFINED
      then nth_weekday (ld_y t) (ld_m t) (sp_week_in_month sp) (sp_day_in_week sp) (ld_d t)
      else if sp_day_in_month sp \<noteq> UNDEFINED then ld_d t = sp_day_in_month sp
      else if sp_day_in_week sp \<noteq> UNDEFINED then weekday (dn t) = sp_day_in_week sp
      else True)"

lemma adjust_nth_weekday:
  assumes p: "sp_ok p" "sp_week_in_month p \<noteq> UNDEFINED" and t: "valid_time t" "1970 < ld_y t"
  shows "\<exists>a. adjust_day p gn t = Some a \<and> adjust_contract (fits_day p) gn t a"
proof -
  let ?k = "sp_week_in_month p" and ?w = "sp_day_in_week p"
  have k: "- 5 \<le> ?k" "?k \<le> 5" "?k \<noteq> 0" "1 \<le> ?w" "?w \<le> 7" "?w \<noteq> UNDEFINED" "sp_week_in_year p = UNDEFINED"
    using p opt_rangeD [of "- 5" 5 ?k] opt_rangeD [of 1 7 ?w] by (auto simp: sp_ok_def)
  define f where "f y m = the (LocateByWeekAndDay p y m ?k ?w)" for y m
  have L: "LocateByWeekAndDay p (ld_y v) (ld_m v) ?k ?w = Some (f (ld_y v) (ld_m v))" "1 \<le> f (ld_y v) (ld_m v)"
      "\<exists>n. MaxDaysInMonth (ld_y v) (ld_m v) = Some n \<and> f (ld_y v) (ld_m v) \<le> n \<and> n \<le> 31"
      "nth_weekday (ld_y v) (ld_m v) ?k ?w (ld_d v) \<longleftrightarrow> ld_d v = f (ld_y v) (ld_m v)" if vv: "valid_time v" for v
  proof -
    obtain n where n: "1970 \<le> ld_y v" "1 \<le> ld_m v" "ld_m v \<le> 12" "MaxDaysInMonth (ld_y v) (ld_m v) = Some n"
      "1 \<le> ld_d v" "ld_d v \<le> n" "n \<le> 31"
      using valid_time_date [OF vv] by (auto elim: valid_dateE)
    from LocateByWeekAndDay_ok [OF n(1-4) refl k(1-5)]
    show "LocateByWeekAndDay p (ld_y v) (ld_m v) ?k ?w = Some (f (ld_y v) (ld_m v))" "1 \<le> f (ld_y v) (ld_m v)"
      "\<exists>n. MaxDaysInMonth (ld_y v) (ld_m v) = Some n \<and> f (ld_y v) (ld_m v) \<le> n \<and> n \<le> 31"
      "nth_weekday (ld_y v) (ld_m v) ?k ?w (ld_d v) \<longleftrightarrow> ld_d v = f (ld_y v) (ld_m v)"
      using n(4-7) by (auto simp: f_def)
  qed
  obtain n where n: "MaxDaysInMonth (ld_y t) (ld_m t) = Some n" "f (ld_y t) (ld_m t) \<le> n" "n \<le> 31" using L(3) [OF t(1)] by blast
  have "\<exists>a. adjust_to_day (f (ld_y t) (ld_m t)) gn t = Some a \<and> adjust_contract (fits_day p) gn t a"
    using t n(1) refl L(2) [OF t(1)] by (rule adjust_to_day_ok) (use n L(4) p(2) in \<open>auto simp: fits_day_def\<close>)
  then show ?thesis using p(2) k L(1) [OF t(1)] by (simp add: adjust_day_def)
qed

lemma adjust_day_in_month:
  assumes p: "sp_ok p" "sp_week_in_month p = UNDEFINED" "sp_day_in_month p \<noteq> UNDEFINED" and t: "valid_time t" "1970 < ld_y t"
  shows "\<exists>a. adjust_day p gn t = Some a \<and> adjust_contract (fits_day p) gn t a"
proof -
  let ?c = "sp_day_in_month p"
  obtain n where n: "MaxDaysInMonth (sp_year p) (sp_month p) = Some n" "1 \<le> ?c" "?c \<le> n"
    using p by (auto simp: sp_ok_def day_fits_month_def split: option.splits)
  have "n \<le> 31" using n(1) MaxDaysInMonth_bounds [of "sp_month p" "sp_year p"]
    by (cases "sp_month p < 0") (auto simp: MaxDaysInMonth_def ASSERT_eq_Some split: bind_splits)
  obtain k where k: "MaxDaysInMonth (ld_y t) (ld_m t) = Some k"
    using t(1) by (auto simp: valid_time_def valid_date_def)
  have "\<exists>a. adjust_to_day ?c gn t = Some a \<and> adjust_contract (fits_day p) gn t a"
    using t k refl n(2) by (rule adjust_to_day_ok) (use n(3) \<open>n \<le> 31\<close> p(2,3) in \<open>auto simp: fits_day_def\<close>)
  moreover have "sp_day_in_week p = UNDEFINED" using p by (simp add: sp_ok_def)
  ultimately show ?thesis using p(2,3) by (simp add: adjust_day_def)
qed

lemma adjust_day_in_week:
  assumes p: "sp_ok p" "sp_week_in_month p = UNDEFINED" "sp_day_in_month p = UNDEFINED" "sp_day_in_week p \<noteq> UNDEFINED"
    and t: "valid_time t" "1970 < ld_y t"
  shows "\<exists>a. adjust_day p gn t = Some a \<and> adjust_contract (fits_day p) gn t a"
proof -
  let ?w = "sp_day_in_week p" and ?a = "weekday (dn t)"
  have w: "1 \<le> ?w" "?w \<le> 7" using p opt_rangeD [of 1 7 ?w] by (simp_all add: sp_ok_def)
  have d: "GetDayOfWeek (ld_y t) (ld_m t) (ld_d t) = Some ?a"
    using GetDayOfWeek_valid [of "ld_y t" "ld_m t" "ld_d t"] valid_time_date [OF t(1)] by simp
  have m: "1 \<le> ld_m t" "ld_m t \<le> 12" "1 \<le> ld_d t" using t(1) by (simp_all add: valid_time_def valid_date_def)
  show ?thesis
  proof (cases "?w = ?a")
    case True
    then show ?thesis using p d by (simp add: adjust_day_def adjust_contract_def fits_day_def)
  next
    case False
    define delta where "delta = (if gn then (if ?a < ?w then ?w - ?a else ?w + 7 - ?a) else if ?w < ?a then ?a - ?w else ?a + 7 - ?w)"
    define D where "D = (if gn then dn t + delta else dn t - delta)"
    have b: "1 \<le> delta" "delta \<le> 6" using w weekday_bounds [of "dn t"] False by (auto simp: delta_def)
    have "7 dvd D - (dn t + (?w - ?a))" by (simp add: D_def delta_def)
    then have D: "weekday D = ?w" using weekday_eq_iff weekday_shift [OF w, of "dn t"] by metis
    let ?d = "if gn then ld_d t + delta else ld_d t - delta"
    let ?set = "if gn then lt_Set NO_CHANGE NO_CHANGE ?d 0 0 0 t else lt_Set NO_CHANGE NO_CHANGE ?d 23 59 59 t"
    have num: "day_number (ld_y t) (ld_m t) ?d = D"
      using dn_shift [of "ld_y t" "ld_m t" ?d] dn_shift [of "ld_y t" "ld_m t" "ld_d t"] by (simp add: D_def)
    have pos: "0 \<le> D" using b valid_after_1970(1) [OF t] by (simp add: D_def)
    obtain u where u: "?set = Some u" "valid_time u" "raw_seconds u = D * 86400 + target_clock gn" "lt_is_dst u = lt_is_dst t"
      using lt_Set_date [of NO_CHANGE t NO_CHANGE ?d] t(2) m b pos num by (cases gn) auto
    have "\<not> fits_day p v" if "valid_time v" "day_passed gn (dn t) D (dn v)" for v
    proof
      assume "fits_day p v"
      then have "weekday (dn v) = ?w" using p by (simp add: fits_day_def)
      moreover have "\<bar>dn v - D\<bar> < 7" "dn v \<noteq> D" using that(2) b by (auto simp: day_passed_def D_def split: if_splits)
      ultimately show False using weekday_at D by blast
    qed
    then have "adjust_contract (fits_day p) gn t (Changed u)"
      using b by (intro day_contract [OF t(1) u(2,3,4)]) (simp_all add: D_def)
    moreover have "adjust_day p gn t = map_option Changed ?set"
      using p d False by (cases gn) (simp_all add: adjust_day_def delta_def Let_def)
    ultimately show ?thesis using u(1) by simp
  qed
qed

interpretation at_day: adjuster sp_ok adjust_day fits_day
proof
  fix p :: sharppoint and gn t assume p: "sp_ok p" and s: "searchable t"
  have t: "valid_time t" "1970 < ld_y t" using s by (simp_all add: searchable_def)
  have "\<exists>a. adjust_day p gn t = Some a \<and> adjust_contract (fits_day p) gn t a"
    if "sp_week_in_month p = UNDEFINED" "sp_day_in_month p = UNDEFINED" "sp_day_in_week p = UNDEFINED"
    using that by (simp add: adjust_day_def adjust_contract_def fits_day_def)
  then show "\<exists>a. adjust_day p gn t = Some a \<and> adjust_contract (fits_day p) gn t a"
    using adjust_nth_weekday [OF p _ t] adjust_day_in_month [OF p _ _ t] adjust_day_in_week [OF p _ _ _ t] by blast
qed

end
