(* ===== verification/SharpPoint_Result.thy ===== *)
theory SharpPoint_Result
  imports SharpPoint_Search
begin

text \<open>
  The loop of \<open>SharpPoint::ModifyTime\<close> over the adjusters of \<open>SharpPoint_Search\<close>: it ends for every
  object the parser can produce and every finite time, and its result is the first time in its direction
  that matches the specification. The day counts are those of the calendar theory, exact for years
  below five million.
\<close>

section \<open>A whole pass\<close>

definition sp_matches :: "sharppoint \<Rightarrow> localtime \<Rightarrow> bool" where
  "sp_matches sp t \<longleftrightarrow> fits_year sp t \<and> fits_month sp t \<and> fits_week sp t \<and> fits_day sp t \<and>
     fits_hour sp t \<and> fits_minute sp t \<and> fits_second sp t"

interpretation to_minute: adjuster_pair sp_ok adjust_minute adjust_second fits_minute fits_second
  by (intro adjuster_pair.intro at_minute.adjuster_axioms at_second.adjuster_axioms)

interpretation to_hour: adjuster_pair sp_ok adjust_hour
  "\<lambda>p get_next t. otherwise (adjust_minute p get_next t) (adjust_second p get_next t)"
  fits_hour "\<lambda>p t. fits_minute p t \<and> fits_second p t"
  by (intro adjuster_pair.intro at_hour.adjuster_axioms to_minute.adjuster_axioms)

interpretation to_day: adjuster_pair sp_ok adjust_day
  "\<lambda>p get_next t. otherwise (adjust_hour p get_next t)
     (otherwise (adjust_minute p get_next t) (adjust_second p get_next t))"
  fits_day "\<lambda>p t. fits_hour p t \<and> fits_minute p t \<and> fits_second p t"
  by (intro adjuster_pair.intro at_day.adjuster_axioms to_hour.adjuster_axioms)

interpretation to_week: adjuster_pair sp_ok adjust_week
  "\<lambda>p get_next t. otherwise (adjust_day p get_next t) (otherwise (adjust_hour p get_next t)
     (otherwise (adjust_minute p get_next t) (adjust_second p get_next t)))"
  fits_week "\<lambda>p t. fits_day p t \<and> fits_hour p t \<and> fits_minute p t \<and> fits_second p t"
  by (intro adjuster_pair.intro at_week.adjuster_axioms to_day.adjuster_axioms)

interpretation to_month: adjuster_pair sp_ok adjust_month
  "\<lambda>p get_next t. otherwise (adjust_week p get_next t) (otherwise (adjust_day p get_next t)
     (otherwise (adjust_hour p get_next t) (otherwise (adjust_minute p get_next t) (adjust_second p get_next t))))"
  fits_month "\<lambda>p t. fits_week p t \<and> fits_day p t \<and> fits_hour p t \<and> fits_minute p t \<and> fits_second p t"
  by (intro adjuster_pair.intro at_month.adjuster_axioms to_week.adjuster_axioms)

interpretation to_year: adjuster_pair sp_ok adjust_year
  "\<lambda>p get_next t. otherwise (adjust_month p get_next t) (otherwise (adjust_week p get_next t)
     (otherwise (adjust_day p get_next t) (otherwise (adjust_hour p get_next t)
     (otherwise (adjust_minute p get_next t) (adjust_second p get_next t)))))"
  fits_year "\<lambda>p t. fits_month p t \<and> fits_week p t \<and> fits_day p t \<and> fits_hour p t \<and> fits_minute p t \<and> fits_second p t"
  by (intro adjuster_pair.intro at_year.adjuster_axioms to_month.adjuster_axioms)

lemma pass_ok:
  assumes "sp_ok sp" "searchable t"
  shows "\<exists>a. ModifyTime_pass sp gn t = Some a \<and> adjust_contract (sp_matches sp) gn t a"
proof -
  have "sp_matches sp = (\<lambda>t. fits_year sp t \<and> fits_month sp t \<and> fits_week sp t \<and> fits_day sp t \<and>
      fits_hour sp t \<and> fits_minute sp t \<and> fits_second sp t)" by (simp add: fun_eq_iff sp_matches_def)
  moreover have "adjust_1970 sp gn t = Some Unchanged" using assms(2) by (simp add: adjust_1970_def searchable_def)
  ultimately show ?thesis
    using to_year.adj_ok [OF assms, of gn] by (simp add: ModifyTime_pass_def otherwise_def)
qed

lemma pass_1970: "ld_y t \<le> 1970 \<Longrightarrow> ModifyTime_pass sp gn t = Some Impossible"
  by (simp add: ModifyTime_pass_def adjust_1970_def otherwise_def)

section \<open>The loop\<close>

text \<open>What a search from \<open>t\<close> may return.\<close>

definition search_result :: "sharppoint \<Rightarrow> bool \<Rightarrow> localtime \<Rightarrow> bool \<times> localtime \<Rightarrow> bool" where
  "search_result sp get_next t r \<longleftrightarrow>
     (if fst r then ahead get_next t (snd r) \<and> sp_matches sp (snd r) \<and> 1970 < ld_y (snd r) \<and> lt_is_dst (snd r) = lt_is_dst t \<and>
        (\<forall>v. ahead get_next t v \<and> sp_matches sp v \<and> 1970 < ld_y v \<longrightarrow> ahead get_next (snd r) v)
      else \<forall>v. ahead get_next t v \<and> sp_matches sp v \<longrightarrow> ld_y v \<le> 1970)"

lemma ahead_trans: "ahead gn t u \<Longrightarrow> ahead gn u v \<Longrightarrow> ahead gn t v"
  by (auto simp: ahead_def split: if_splits)

lemma ahead_le:
  assumes "valid_time t"
  shows "ahead True t v \<longleftrightarrow> valid_time v \<and> lt_less_eq t v" "ahead False t v \<longleftrightarrow> valid_time v \<and> lt_less_eq v t"
  using lt_less_iff [of v t] lt_less_iff [of t v] assms by (auto simp: ahead_def lt_less_eq_iff)

lemma search_result_step:
  assumes "adjust_contract (sp_matches sp) gn t (Changed u)" "search_result sp gn u r"
  shows "search_result sp gn t r"
proof -
  have u: "ahead gn t u" "lt_is_dst u = lt_is_dst t" "\<And>v. ahead gn t v \<Longrightarrow> sp_matches sp v \<Longrightarrow> ahead gn u v"
    using assms(1) by (auto simp: adjust_contract_def)
  show ?thesis
  proof (cases "fst r")
    case True
    then show ?thesis using assms(2) u ahead_trans [OF u(1)] by (auto simp: search_result_def)
  next
    case False
    then show ?thesis using assms(2) u(3) by (auto simp: search_result_def)
  qed
qed

text \<open>
  The loop ends: backward because time runs out, forward because a pass that goes on leaves a time
  that is not beyond \<open>B\<close>.
\<close>

lemma loop_ok:
  assumes sp: "sp_ok sp" and t: "valid_time t" "gn \<Longrightarrow> 1970 < ld_y t"
    and B: "\<And>u w. searchable u \<Longrightarrow> gn \<Longrightarrow> (\<And>v. ahead True t v \<Longrightarrow> sp_matches sp v \<Longrightarrow> ahead True u v) \<Longrightarrow>
      ModifyTime_pass sp True u = Some (Changed w) \<Longrightarrow> raw_seconds u \<le> B"
  shows "\<exists>r. ModifyTime_loop sp gn t = Some r \<and> search_result sp gn t r"
  using t B
proof (induction "nat (if gn then B + 1 - raw_seconds t else raw_seconds t)" arbitrary: t rule: less_induct)
  case less
  show ?case
  proof (cases "1970 < ld_y t")
    case False
    then have "\<not> gn" using less.prems(2) by auto
    then have "search_result sp gn t (False, t)"
      using False ahead_year [OF less.prems(1), of gn] by (fastforce simp: search_result_def)
    then show ?thesis using False pass_1970 [of t sp gn] by (subst ModifyTime_loop.simps) simp
  next
    case True
    then have s: "searchable t" using less.prems(1) by (simp add: searchable_def)
    obtain a where a: "ModifyTime_pass sp gn t = Some a" "adjust_contract (sp_matches sp) gn t a"
      using pass_ok [OF sp s] by blast
    show ?thesis
    proof (cases a)
      case Unchanged
      then have "search_result sp gn t (True, t)"
        using a(2) less.prems(1) True by (simp add: search_result_def adjust_contract_def ahead_def)
      then show ?thesis using a(1) Unchanged by (subst ModifyTime_loop.simps) simp
    next
      case Impossible
      then have "search_result sp gn t (False, t)"
        using a(2) by (auto simp: search_result_def adjust_contract_def)
      then show ?thesis using a(1) Impossible by (subst ModifyTime_loop.simps) simp
    next
      case (Changed u)
      then have u: "ahead gn t u" "raw_seconds u \<noteq> raw_seconds t" "valid_time u"
        using a(2) by (auto simp: adjust_contract_def ahead_def)
      have "gn \<Longrightarrow> raw_seconds t \<le> B" using less.prems(3) [OF s] a(1) Changed less.prems(1) by (simp add: ahead_def)
      then have dec: "nat (if gn then B + 1 - raw_seconds u else raw_seconds u) <
          nat (if gn then B + 1 - raw_seconds t else raw_seconds t)"
        using u valid_time_nonneg [OF u(3)] by (cases gn) (auto simp: ahead_def)
      have y: "gn \<Longrightarrow> 1970 < ld_y u" using ahead_year [OF less.prems(1) u(1)] True by simp
      have later: "gn \<Longrightarrow> ahead True t v \<Longrightarrow> sp_matches sp v \<Longrightarrow> ahead True u v" for v
        using a(2) Changed by (auto simp: adjust_contract_def)
      obtain r where "ModifyTime_loop sp gn u = Some r" "search_result sp gn u r"
        using less.hyps [OF dec u(3) y] less.prems(3) later by blast
      moreover have "search_result sp gn t r" by (rule search_result_step) (use a(2) Changed calculation in auto)
      ultimately show ?thesis using a(1) Changed by (subst ModifyTime_loop.simps) simp
    qed
  qed
qed


section \<open>There is a next time\<close>

lemma ex2I: "P a b \<Longrightarrow> \<exists>x y. P x y"
  by blast

lemma weekday_add_week: "weekday (n + 7 * k) = weekday n"
  using weekday_eq_iff [of "n + 7 * k" n] by simp

lemma year_start_400: "year_start (y + 400 * j) = year_start y + 146097 * j"
proof -
  have "(y + 400 * j - 1969) div 4 = (y - 1969) div 4 + 100 * j"
    "(y + 400 * j - 1901) div 100 = (y - 1901) div 100 + 4 * j"
    "(y + 400 * j - 1601) div 400 = (y - 1601) div 400 + j" by linarith+
  then show ?thesis unfolding year_start_def by simp
qed

text \<open>Every day of the week is the 365th day of some later year: the calendar repeats after 400 years.\<close>

lemma day_365_weekday:
  assumes "1 \<le> w" "w \<le> 7"
  shows "\<exists>y. Y < y \<and> weekday (year_start y + 364) = w"
proof -
  let ?ys = "{2001, 2002, 2003, 2004, 2005, 2006, 2007, 2008, 2009, 2010, 2011} :: int set"
  have "\<exists>y \<in> ?ys. weekday (year_start y + 364) = w"
  proof -
    have "w = 1 \<or> w = 2 \<or> w = 3 \<or> w = 4 \<or> w = 5 \<or> w = 6 \<or> w = 7" using assms by presburger
    then show ?thesis by (elim disjE) (simp_all add: weekday_def year_start_def)
  qed
  moreover have "\<forall>y \<in> ?ys. 2001 \<le> y" by simp
  ultimately obtain y where y: "2001 \<le> y" "weekday (year_start y + 364) = w" by blast
  define j where "j = \<bar>Y\<bar>"
  have "Y < y + 400 * j" using y(1) by (simp add: j_def abs_if)
  moreover have "weekday (year_start (y + 400 * j) + 364) = w"
    using y(2) weekday_add_week [of "year_start y + 364" "20871 * j"] unfolding year_start_400 by (simp add: ac_simps)
  ultimately show ?thesis by blast
qed

lemma weekday_in_week:
  assumes "1 \<le> w" "w \<le> 7" shows "\<exists>j. 0 \<le> j \<and> j \<le> 6 \<and> weekday (n + j) = w"
proof (intro exI conjI)
  let ?j = "(w - weekday n) mod 7"
  show "0 \<le> ?j" "?j \<le> 6" using pos_mod_sign [of 7 "w - weekday n"] pos_mod_bound [of 7 "w - weekday n"] by simp_all
  have "7 dvd (n + ?j) - (n + (w - weekday n))" by (simp add: mod_eq_dvd_iff [symmetric])
  then show "weekday (n + ?j) = w" using weekday_eq_iff weekday_shift [OF assms, of n] by metis
qed

text \<open>
  The date part of a match, for a specification without a year. One that asks for a day of the
  53rd week is not matched in every year.
\<close>

definition fits_date :: "sharppoint \<Rightarrow> localtime \<Rightarrow> bool" where
  "fits_date sp t \<longleftrightarrow> fits_month sp t \<and> fits_week sp t \<and> fits_day sp t"

definition date_in_year :: "sharppoint \<Rightarrow> int \<Rightarrow> bool" where
  "date_in_year sp y \<longleftrightarrow>
     (\<exists>m d. valid_date y m d \<and> (\<forall>t. ld_y t = y \<and> ld_m t = m \<and> ld_d t = d \<longrightarrow> fits_date sp t))"

definition yearly :: "sharppoint \<Rightarrow> bool" where
  "yearly sp \<longleftrightarrow> sp_ok sp \<and> sp_year sp = UNDEFINED \<and> (sp_week_in_year sp = 53 \<longrightarrow> sp_day_in_week sp = UNDEFINED)"

lemma week_date:
  assumes sp: "sp_ok sp" "sp_week_in_year sp \<noteq> UNDEFINED"
    and n: "7 * sp_week_in_year sp - 7 < n" "n \<le> 7 * sp_week_in_year sp" "n \<le> TotalDaysInYear y"
      "sp_day_in_week sp \<noteq> UNDEFINED \<longrightarrow> weekday (year_start y + n - 1) = sp_day_in_week sp"
  shows "date_in_year sp y"
proof -
  let ?w = "sp_week_in_year sp"
  have w: "1 \<le> ?w" "sp_month sp = UNDEFINED" "sp_week_in_month sp = UNDEFINED" "sp_day_in_month sp = UNDEFINED"
    using sp opt_rangeD [of 1 53 ?w] by (auto simp: sp_ok_def)
  obtain m d where md: "valid_date y m d" "day_of_year y m d = n"
    using FindByDayNum_ok [of n y] n(1,3) w(1) by auto
  have "(n - 1) div 7 + 1 = ?w" using n(1,2) by linarith
  then have "\<forall>t. ld_y t = y \<and> ld_m t = m \<and> ld_d t = d \<longrightarrow> fits_date sp t"
    using md(2) n(4) w by (auto simp: fits_date_def fits_month_def fits_week_def week_of_def fits_day_def day_number_def)
  then show ?thesis using md(1) unfolding date_in_year_def by blast
qed

lemma yearly_week_date:
  assumes "yearly sp" "sp_week_in_year sp \<noteq> UNDEFINED"
  shows "date_in_year sp y"
proof -
  let ?w = "sp_week_in_year sp" and ?k = "sp_day_in_week sp"
  have sp: "sp_ok sp" using assms(1) by (simp add: yearly_def)
  have w: "1 \<le> ?w" "?w \<le> 53" using sp assms(2) opt_rangeD [of 1 53 ?w] by (auto simp: sp_ok_def)
  show ?thesis
  proof (cases "?k = UNDEFINED")
    case True
    then show ?thesis using w TotalDaysInYear_bounds(1) [of y]
      by (intro week_date [OF sp assms(2), where n = "7 * ?w - 6"]) simp_all
  next
    case False
    then have k: "1 \<le> ?k" "?k \<le> 7" using sp opt_rangeD [of 1 7 ?k] by (simp_all add: sp_ok_def)
    obtain j where j: "0 \<le> j" "j \<le> 6" "weekday (year_start y + 7 * ?w - 7 + j) = ?k"
      using weekday_in_week [OF k, of "year_start y + 7 * ?w - 7"] by auto
    have "?w \<noteq> 53" using assms(1) False by (auto simp: yearly_def)
    then have "7 * ?w \<le> 364" using w by simp
    then show ?thesis using j TotalDaysInYear_bounds(1) [of y]
      by (intro week_date [OF sp assms(2), where n = "7 * ?w - 6 + j"]) (simp_all add: algebra_simps)
  qed
qed

lemma leap_only_february:
  assumes "1 \<le> m" "m \<le> 12" "MaxDaysInMonth UNDEFINED m = Some n"
  shows "\<exists>k. MaxDaysInMonth y m = Some k \<and> n \<le> k"
proof -
  have "\<not> IsLeapYear UNDEFINED" by (simp add: IsLeapYear_def UNDEFINED_def)
  then show ?thesis using assms by (auto simp: MaxDaysInMonth_eq)
qed

lemma yearly_month_date:
  assumes sp: "sp_ok sp" "sp_week_in_year sp = UNDEFINED" "sp_year sp = UNDEFINED" and Y: "1970 \<le> y"
  shows "date_in_year sp y"
proof -
  define m where "m = (if sp_month sp = UNDEFINED then 1 else sp_month sp)"
  have m: "1 \<le> m" "m \<le> 12" using sp(1) opt_rangeD [of 1 12 "sp_month sp"] by (auto simp: sp_ok_def m_def)
  obtain n where n: "MaxDaysInMonth y m = Some n" "28 \<le> n" "n \<le> 31" using MaxDaysInMonth_bounds [OF m] by blast
  have k: "sp_day_in_week sp \<noteq> UNDEFINED \<Longrightarrow> 1 \<le> sp_day_in_week sp \<and> sp_day_in_week sp \<le> 7"
    using sp opt_rangeD [of 1 7 "sp_day_in_week sp"] by (simp add: sp_ok_def)
  have "\<exists>d. 1 \<le> d \<and> d \<le> n \<and> (\<forall>t. ld_y t = y \<and> ld_m t = m \<and> ld_d t = d \<longrightarrow> fits_day sp t)"
  proof -
    consider (nth) "sp_week_in_month sp \<noteq> UNDEFINED"
      | (day) "sp_week_in_month sp = UNDEFINED" "sp_day_in_month sp \<noteq> UNDEFINED"
      | (wday) "sp_week_in_month sp = UNDEFINED" "sp_day_in_month sp = UNDEFINED" "sp_day_in_week sp \<noteq> UNDEFINED"
      | (any) "sp_week_in_month sp = UNDEFINED" "sp_day_in_month sp = UNDEFINED" "sp_day_in_week sp = UNDEFINED" by blast
    then show ?thesis
    proof cases
      case nth
      have w: "- 5 \<le> sp_week_in_month sp" "sp_week_in_month sp \<le> 5" "sp_week_in_month sp \<noteq> 0" "sp_day_in_week sp \<noteq> UNDEFINED"
        using sp(1) nth opt_rangeD [of "- 5" 5 "sp_week_in_month sp"] by (auto simp: sp_ok_def)
      obtain c where "1 \<le> c" "c \<le> n" "nth_weekday y m (sp_week_in_month sp) (sp_day_in_week sp) c"
        using LocateByWeekAndDay_ok [of y m n "sp_week_in_month sp" sp "sp_day_in_week sp"] Y m n(1) w k by auto
      then show ?thesis using nth by (intro exI [of _ c]) (auto simp: fits_day_def)
    next
      case day
      let ?d = "sp_day_in_month sp"
      have d: "day_fits_month UNDEFINED (sp_month sp) ?d" using sp by (simp add: sp_ok_def)
      then have "1 \<le> ?d \<and> ?d \<le> n"
      proof (cases "sp_month sp = UNDEFINED")
        case True
        then have "n = 31" using n(1) by (simp add: m_def MaxDaysInMonth_eq num_days_def)
        then show ?thesis using d True day by (simp add: day_fits_month_def MaxDaysInMonth_def UNDEFINED_def)
      next
        case False
        then have e: "sp_month sp = m" by (simp add: m_def)
        with d day obtain k where "MaxDaysInMonth UNDEFINED m = Some k" "1 \<le> ?d" "?d \<le> k"
          by (auto simp: day_fits_month_def split: option.splits)
        then show ?thesis using leap_only_february [OF m, of k y] n(1) by auto
      qed
      then show ?thesis using day by (intro exI [of _ ?d]) (auto simp: fits_day_def)
    next
      case wday
      obtain j where j: "0 \<le> j" "j \<le> 6" "weekday (day_number y m 1 + j) = sp_day_in_week sp"
        using weekday_in_week [of "sp_day_in_week sp" "day_number y m 1"] k wday by auto
      have "day_number y m (1 + j) = day_number y m 1 + j" by (rule day_number_shift)
      then show ?thesis using j n wday by (intro exI [of _ "1 + j"]) (auto simp: fits_day_def)
    next
      case any
      then show ?thesis using n by (intro exI [of _ 1]) (auto simp: fits_day_def)
    qed
  qed
  then obtain d where d: "1 \<le> d" "d \<le> n" "\<forall>t. ld_y t = y \<and> ld_m t = m \<and> ld_d t = d \<longrightarrow> fits_day sp t" by blast
  have "valid_date y m d" using m n d by (simp add: valid_date_def)
  moreover have "\<forall>t. ld_y t = y \<and> ld_m t = m \<and> ld_d t = d \<longrightarrow> fits_date sp t"
    using d(3) sp(2) by (auto simp: fits_date_def fits_month_def fits_week_def m_def)
  ultimately show ?thesis unfolding date_in_year_def by blast
qed

lemma match_in_year:
  assumes sp: "sp_ok sp" "sp_year sp = UNDEFINED" and y: "1970 \<le> y" "date_in_year sp y"
  shows "\<exists>v. valid_time v \<and> ld_y v = y \<and> sp_matches sp v"
proof -
  obtain m d where d: "valid_date y m d" "\<forall>t. ld_y t = y \<and> ld_m t = m \<and> ld_d t = d \<longrightarrow> fits_date sp t"
    using y(2) by (auto simp: date_in_year_def)
  define p where "p v = (if v = UNDEFINED then 0 else v)" for v :: int
  let ?v = "\<lparr>ld_y = y, ld_m = m, ld_d = d, lt_h = p (sp_hour sp), lt_mn = p (sp_minute sp), lt_s = p (sp_second sp), lt_is_dst = - 1\<rparr>"
  have "valid_time ?v"
    using d(1) y sp(1) opt_rangeD [of 0 23 "sp_hour sp"] opt_rangeD [of 0 59 "sp_minute sp"] opt_rangeD [of 0 59 "sp_second sp"]
    by (auto simp: valid_time_def sp_ok_def p_def)
  moreover have "sp_matches sp ?v"
  proof -
    have "fits_date sp ?v" using d(2) by simp
    then show ?thesis using sp(2)
      by (simp add: sp_matches_def fits_date_def fits_year_def fits_hour_def fits_minute_def fits_second_def p_def)
  qed
  ultimately show ?thesis by (intro exI [of _ ?v]) simp
qed

lemma yearly_match:
  assumes "yearly sp" "1970 \<le> y"
  shows "\<exists>v. valid_time v \<and> ld_y v = y \<and> sp_matches sp v"
proof -
  have sp: "sp_ok sp" "sp_year sp = UNDEFINED" using assms(1) by (simp_all add: yearly_def)
  have "date_in_year sp y" using yearly_week_date [OF assms(1)] yearly_month_date [OF sp(1) _ sp(2) assms(2)] by blast
  then show ?thesis by (rule match_in_year [OF sp assms(2)])
qed

lemma later_match:
  assumes sp: "sp_ok sp" "sp_year sp = UNDEFINED" and t: "valid_time t"
  shows "\<exists>v. ahead True t v \<and> sp_matches sp v"
proof -
  have y: "1970 \<le> ld_y t" using t by (simp add: valid_time_def)
  have "\<exists>y. ld_y t < y \<and> date_in_year sp y"
  proof (cases "yearly sp")
    case True
    then have "date_in_year sp (ld_y t + 1)"
      using yearly_week_date [OF True] yearly_month_date [OF sp(1) _ sp(2), of "ld_y t + 1"] y by (cases "sp_week_in_year sp = UNDEFINED") simp_all
    then show ?thesis by (intro exI [of _ "ld_y t + 1"]) simp
  next
    case False
    then have w: "sp_week_in_year sp = 53" "sp_day_in_week sp \<noteq> UNDEFINED" using sp by (auto simp: yearly_def)
    then have k: "1 \<le> sp_day_in_week sp" "sp_day_in_week sp \<le> 7"
      using sp(1) opt_rangeD [of 1 7 "sp_day_in_week sp"] by (simp_all add: sp_ok_def)
    obtain z where z: "ld_y t < z" "weekday (year_start z + 364) = sp_day_in_week sp" using day_365_weekday [OF k] by blast
    then have "date_in_year sp z" using w TotalDaysInYear_bounds(1) [of z]
      by (intro week_date [OF sp(1), where n = 365]) (simp_all add: add.commute UNDEFINED_def)
    then show ?thesis using z(1) by blast
  qed
  then obtain z where z: "ld_y t < z" "date_in_year sp z" by blast
  then obtain v where v: "valid_time v" "ld_y v = z" "sp_matches sp v" using match_in_year [OF sp, of z] y by auto
  then have "lt_less t v" using z(1) by (simp add: lt_less_def)
  then show ?thesis using v lt_less_iff [OF t v(1)] by (auto simp: ahead_def)
qed

section \<open>What the search finds\<close>

lemma adjust_year_beyond:
  "sp_year sp \<noteq> UNDEFINED \<Longrightarrow> sp_year sp < ld_y u \<Longrightarrow> 1970 < ld_y u \<Longrightarrow> ModifyTime_pass sp True u = Some Impossible"
  by (simp add: ModifyTime_pass_def adjust_1970_def adjust_year_def otherwise_def)

lemma loop_ends:
  assumes sp: "sp_ok sp" and t: "valid_time t" "1970 < ld_y t"
  shows "\<exists>r. ModifyTime_loop sp gn t = Some r \<and> search_result sp gn t r"
proof (cases "sp_year sp = UNDEFINED")
  case True
  obtain v where v: "ahead True t v" "sp_matches sp v" using later_match [OF sp True t(1)] by blast
  show ?thesis
    by (rule loop_ok [where B = "raw_seconds v"]) (use sp t v in \<open>auto simp: ahead_def\<close>)
next
  case False
  let ?B = "year_start (sp_year sp + 1) * 86400"
  have "raw_seconds u \<le> ?B" if u: "searchable u" "ModifyTime_pass sp True u = Some (Changed w)" for u w
  proof -
    have "ld_y u \<le> sp_year sp" using adjust_year_beyond [OF False, of u] u by (auto simp: searchable_def not_le [symmetric])
    then have "year_start (ld_y u + 1) \<le> year_start (sp_year sp + 1)" by (intro year_start_mono) simp
    moreover have vu: "valid_time u" using u(1) by (simp add: searchable_def)
    then have "dn u + 1 \<le> year_start (ld_y u + 1)" using dn_year(2) valid_time_date by fastforce
    ultimately show ?thesis using valid_time_split [OF vu] clock_bounds [OF vu] by linarith
  qed
  then show ?thesis by (intro loop_ok [where B = ?B]) (use sp t in auto)
qed


text \<open>
  C4. \<open>GetPrevious\<close> from a finite time returns as well: the latest time at or before the given one, after
  1970, that matches the specification, or \<open>false\<close> and the infinite past when there is none.
\<close>
theorem sharppoint_previous_ok:
  assumes "sp_ok sp" "valid_time t" "IsFinite t"
  shows "\<exists>found u. sp_GetPrevious sp t = Some (found, u) \<and>
    (if found then valid_time u \<and> lt_less_eq u t \<and> 1970 < ld_y u \<and> sp_matches sp u \<and>
        (\<forall>v. valid_time v \<and> lt_less_eq v t \<and> 1970 < ld_y v \<and> sp_matches sp v \<longrightarrow> lt_less_eq v u)
     else u = lt_InfinitePast \<and>
        \<not> (\<exists>v. valid_time v \<and> lt_less_eq v t \<and> 1970 < ld_y v \<and> sp_matches sp v))"
proof -
  have y: "1970 < ld_y t" using assms(3) by (simp add: IsFinite_def)
  obtain found u where r: "ModifyTime_loop sp False t = Some (found, u)" "search_result sp False t (found, u)"
    using loop_ends [OF assms(1,2) y] by fastforce
  note a = ahead_le(2) [OF assms(2)]
  have g: "sp_GetPrevious sp t = Some (found, if \<not> found then lt_InfinitePast else u)"
    using assms(3) r(1) by (simp add: sp_GetPrevious_def ModifyTime_def)
  show ?thesis
  proof (cases found)
    case True
    then have f: "valid_time u" "lt_less_eq u t" "sp_matches sp u" "1970 < ld_y u"
        "\<And>v. ahead False t v \<Longrightarrow> sp_matches sp v \<Longrightarrow> 1970 < ld_y v \<Longrightarrow> ahead False u v"
      using r(2) a by (auto simp: search_result_def)
    have "lt_less_eq v u" if "valid_time v" "lt_less_eq v t" "1970 < ld_y v" "sp_matches sp v" for v
      using f(5) [of v] a that ahead_le(2) [OF f(1)] by blast
    then show ?thesis using g True f(1-4) by (intro ex2I [where a = True and b = u]) simp
  next
    case False
    then have "\<And>v. ahead False t v \<Longrightarrow> sp_matches sp v \<Longrightarrow> ld_y v \<le> 1970" using r(2) by (auto simp: search_result_def)
    then have "\<not> (\<exists>v. valid_time v \<and> lt_less_eq v t \<and> 1970 < ld_y v \<and> sp_matches sp v)" unfolding a by fastforce
    then show ?thesis using g False by (intro ex2I [where a = False and b = lt_InfinitePast]) simp
  qed
qed

lemma sample_specs: "sp_ok first_monday" "IsFinite sample_valid"
  using sp_Init_ok(1) [OF first_monday_parsed] by (simp_all add: IsFinite_def sample_valid_def)


theorem sharppoint_previous_ok_witness:
  "\<exists>found u. sp_GetPrevious first_monday sample_valid = Some (found, u) \<and>
    (if found then valid_time u \<and> lt_less_eq u sample_valid \<and> 1970 < ld_y u \<and> sp_matches first_monday u \<and>
        (\<forall>v. valid_time v \<and> lt_less_eq v sample_valid \<and> 1970 < ld_y v \<and> sp_matches first_monday v \<longrightarrow> lt_less_eq v u)
     else u = lt_InfinitePast \<and>
        \<not> (\<exists>v. valid_time v \<and> lt_less_eq v sample_valid \<and> 1970 < ld_y v \<and> sp_matches first_monday v))"
  by (rule sharppoint_previous_ok) (rule sample_specs sample_valid_ok(1))+

end
