(* ===== verification/TimeDuration.thy ===== *)
theory TimeDuration
  imports SharpPoint_Result
begin

text \<open>
  \<open>util/time/timeduration.h\<close> and \<open>timeduration.cc\<close>: durations in years, months, days, hours,
  minutes and seconds, their text forms, and adding them to and subtracting them from a
  \<open>LocalTime\<close>. The members are \<open>int\<close>s; a number that is read is converted (\<open>int32\<close>), the sums
  of the members of a time and of a duration are assumed not to overflow.
\<close>

section \<open>The class\<close>

record duration =
  du_years :: int
  du_months :: int
  du_days :: int
  du_hours :: int
  du_minutes :: int
  du_seconds :: int

definition zero_duration :: duration where
  "zero_duration = \<lparr>du_years = 0, du_months = 0, du_days = 0, du_hours = 0, du_minutes = 0, du_seconds = 0\<rparr>"

definition du_ParseNext :: "string \<Rightarrow> char \<Rightarrow> int \<Rightarrow> string \<times> int \<times> string" where
  "du_ParseNext current symbol result =
     (if at_ptr current \<noteq> symbol then (current, result, [])
      else
        let current = tl current in
        if \<not> IS_DIGIT (at_ptr current) then (current, result, ''number expected'')
        else let (n, parse_end) = strtol current in (parse_end, int32 n, []))"

text \<open>The members are written as they are read; \<open>days_\<close> is written when the weeks and days have been read.\<close>

definition du_step ::
    "((int \<Rightarrow> int) \<Rightarrow> duration \<Rightarrow> duration) \<Rightarrow> string \<times> int \<times> string \<Rightarrow> duration \<Rightarrow> duration parsed option" where
  "du_step upd r d = (case r of (p, v, msg) \<Rightarrow> Some (upd (\<lambda>_. v) d, p, msg))"

definition du_parse_days :: "string \<Rightarrow> duration \<Rightarrow> duration parsed option" where
  "du_parse_days p d =
     (let (p, num_weeks, msg) = du_ParseNext p (CHR ''w'') 0 in
      if msg \<noteq> [] then Some (d, p, msg)
      else
        let (p, num_days, msg) = du_ParseNext p (CHR ''d'') 0 in
        if msg \<noteq> [] then Some (d, p, msg)
        else Some (d\<lparr>du_days := int32 (num_weeks * 7 + num_days)\<rparr>, p, []))"

definition du_Init :: "string \<Rightarrow> duration \<Rightarrow> duration parsed option" where
  "du_Init start d =
     and_then (and_then (and_then (and_then (and_then
       (du_step du_years_update (du_ParseNext (SkipSpaces start) (CHR ''y'') (du_years d)) d)
     (\<lambda>d p. du_step du_months_update (du_ParseNext p (CHR ''M'') (du_months d)) d))
     (\<lambda>d p. du_parse_days p d))
     (\<lambda>d p. du_step du_hours_update (du_ParseNext p (CHR ''h'') (du_hours d)) d))
     (\<lambda>d p. du_step du_minutes_update (du_ParseNext p (CHR ''m'') (du_minutes d)) d))
     (\<lambda>d p. du_step du_seconds_update (du_ParseNext p (CHR ''s'') (du_seconds d)) d)"

definition Reverse :: "duration \<Rightarrow> duration" where
  "Reverse d = \<lparr>du_years = - du_years d, du_months = - du_months d, du_days = - du_days d,
     du_hours = - du_hours d, du_minutes = - du_minutes d, du_seconds = - du_seconds d\<rparr>"

definition GetReverse :: "duration \<Rightarrow> duration" where
  "GetReverse d = Reverse d"

definition GetSign :: "duration \<Rightarrow> int" where
  "GetSign d =
     (if 0 < du_years d then 1 else if du_years d < 0 then - 1
      else if 0 < du_months d then 1 else if du_months d < 0 then - 1
      else if 0 < du_days d then 1 else if du_days d < 0 then - 1
      else if 0 < du_hours d then 1 else if du_hours d < 0 then - 1
      else if 0 < du_minutes d then 1 else if du_minutes d < 0 then - 1
      else if 0 < du_seconds d then 1 else if du_seconds d < 0 then - 1
      else 0)"

definition PrintAppend :: "int \<Rightarrow> string \<Rightarrow> string" where
  "PrintAppend num name =
     (if num \<noteq> 0 then print_int num @ '' '' @ name @ (if 1 < num \<or> num < - 1 then ''s'' else []) @ '' '' else [])"

definition du_Print :: "duration \<Rightarrow> string" where
  "du_Print d =
     (if GetSign d = 0 then ''--- zero duration ---''
      else PrintAppend (du_years d) ''year'' @ PrintAppend (du_months d) ''month'' @ PrintAppend (du_days d) ''day'' @
        PrintAppend (du_hours d) ''hour'' @ PrintAppend (du_minutes d) ''minute'' @ PrintAppend (du_seconds d) ''second'')"

definition du_PrintShort :: "duration \<Rightarrow> string" where
  "du_PrintShort d =
     (if GetSign d = 0 then ''s0''
      else print_field (CHR ''y'') (du_years d \<noteq> 0) (du_years d) @ print_field (CHR ''M'') (du_months d \<noteq> 0) (du_months d) @
        print_field (CHR ''d'') (du_days d \<noteq> 0) (du_days d) @ print_field (CHR ''h'') (du_hours d \<noteq> 0) (du_hours d) @
        print_field (CHR ''m'') (du_minutes d \<noteq> 0) (du_minutes d) @ print_field (CHR ''s'') (du_seconds d \<noteq> 0) (du_seconds d))"

definition TimeAfter :: "duration \<Rightarrow> localtime \<Rightarrow> localtime \<Rightarrow> localtime option" where
  "TimeAfter d current after = do {
     ASSERT (IsFinite current);
     lt_Set (ld_y current + du_years d) (ld_m current + du_months d) (ld_d current + du_days d)
       (lt_h current + du_hours d) (lt_mn current + du_minutes d) (lt_s current + du_seconds d) after
   }"

definition TimeBefore :: "duration \<Rightarrow> localtime \<Rightarrow> localtime \<Rightarrow> localtime option" where
  "TimeBefore d current before = do {
     ASSERT (IsFinite current);
     lt_Set (ld_y current - du_years d) (ld_m current - du_months d) (ld_d current - du_days d)
       (lt_h current - du_hours d) (lt_mn current - du_minutes d) (lt_s current - du_seconds d) before
   }"

text \<open>\<open>operator+\<close> and \<open>operator-\<close>; a new \<open>LocalTime\<close> is the infinite past.\<close>

definition plus_duration :: "localtime \<Rightarrow> duration \<Rightarrow> localtime option" where
  "plus_duration t d = do {
     ASSERT (IsFinite t);
     TimeAfter d t lt_InfinitePast
   }"

definition minus_duration :: "localtime \<Rightarrow> duration \<Rightarrow> localtime option" where
  "minus_duration t d = do {
     ASSERT (IsFinite t);
     TimeBefore d t lt_InfinitePast
   }"

section \<open>Durations of a fixed length\<close>

definition du_secs :: "duration \<Rightarrow> int" where
  "du_secs d = du_days d * 86400 + du_hours d * 3600 + du_minutes d * 60 + du_seconds d"

definition du_fixed :: "duration \<Rightarrow> bool" where
  "du_fixed d \<longleftrightarrow> du_years d = 0 \<and> du_months d = 0 \<and> \<bar>du_days d\<bar> < 1000000 \<and> \<bar>du_hours d\<bar> < 1000000 \<and>
     \<bar>du_minutes d\<bar> < 1000000 \<and> \<bar>du_seconds d\<bar> < 1000000000"

lemma Reverse_Reverse [simp]: "Reverse (Reverse d) = d"
  by (simp add: Reverse_def)

lemma du_secs_Reverse [simp]: "du_secs (Reverse d) = - du_secs d"
  by (simp add: du_secs_def Reverse_def)

lemma du_fixed_Reverse [simp]: "du_fixed (Reverse d) = du_fixed d"
  by (simp add: du_fixed_def Reverse_def)

lemma minus_duration_Reverse: "minus_duration t d = plus_duration t (Reverse d)"
  by (simp add: minus_duration_def plus_duration_def TimeAfter_def TimeBefore_def Reverse_def)

text \<open>Adding one moves a time by its number of seconds.\<close>

lemma plus_duration_ok:
  assumes "valid_time t" "IsFinite t" "du_fixed d" "0 \<le> raw_seconds t + du_secs d"
  shows "\<exists>u. plus_duration t d = Some u \<and> valid_time u \<and> raw_seconds u = raw_seconds t + du_secs d \<and> lt_is_dst u = - 1"
proof -
  have m: "1 \<le> ld_m t" "ld_m t \<le> 12" "1 \<le> ld_d t" "0 \<le> lt_h t" "0 \<le> lt_mn t" "0 \<le> lt_s t" "1970 < ld_y t"
    using assms(1,2) by (simp_all add: valid_time_def valid_date_def IsFinite_def)
  have p: "pick (ld_y t + du_years d) y = ld_y t" "pick (ld_m t + du_months d) mo = ld_m t"
    "pick (ld_d t + du_days d) da = ld_d t + du_days d" "pick (lt_h t + du_hours d) h = lt_h t + du_hours d"
    "pick (lt_mn t + du_minutes d) mi = lt_mn t + du_minutes d" "pick (lt_s t + du_seconds d) se = lt_s t + du_seconds d"
    for y mo da h mi se
    using m assms(3) by (auto simp: du_fixed_def)
  have "day_number (ld_y t) (ld_m t) (ld_d t + du_days d) = dn t + du_days d" by (rule day_number_shift)
  then have "\<exists>u. lt_Set (ld_y t + du_years d) (ld_m t + du_months d) (ld_d t + du_days d) (lt_h t + du_hours d)
      (lt_mn t + du_minutes d) (lt_s t + du_seconds d) lt_InfinitePast = Some u \<and> valid_time u \<and>
      raw_seconds u = raw_seconds t + du_secs d \<and> lt_is_dst u = lt_is_dst lt_InfinitePast"
    using lt_Set_ok [of "ld_y t + du_years d" lt_InfinitePast "ld_m t + du_months d" "ld_d t + du_days d" "lt_h t + du_hours d"
        "lt_mn t + du_minutes d" "lt_s t + du_seconds d"] m assms(1,4) valid_time_raw [OF assms(1)]
    unfolding p by (simp add: du_secs_def algebra_simps)
  then show ?thesis using assms(2) by (auto simp: plus_duration_def TimeAfter_def lt_InfinitePast_def)
qed

lemma minus_duration_ok:
  assumes "valid_time t" "IsFinite t" "du_fixed d" "0 \<le> raw_seconds t - du_secs d"
  shows "\<exists>u. minus_duration t d = Some u \<and> valid_time u \<and> raw_seconds u = raw_seconds t - du_secs d \<and> lt_is_dst u = - 1"
  using plus_duration_ok [of t "Reverse d"] assms by (simp add: minus_duration_Reverse)

section \<open>Reading back what PrintShort writes\<close>

definition du_readable :: "duration \<Rightarrow> bool" where
  "du_readable d \<longleftrightarrow> (\<forall>v \<in> {du_years d, du_months d, du_days d, du_hours d, du_minutes d, du_seconds d}. 0 \<le> v \<and> v < 2 ^ 31)"

definition stops_duration :: "string \<Rightarrow> bool" where
  "stops_duration r \<longleftrightarrow> \<not> IS_DIGIT (at_ptr r) \<and> at_ptr r \<notin> set ''yMwdhms''"

lemma du_ParseNext_field:
  assumes "0 \<le> v" "v < 2 ^ 31" "\<not> IS_DIGIT (at_ptr r)" "v = 0 \<Longrightarrow> at_ptr r \<noteq> symbol"
  shows "du_ParseNext (print_field symbol (v \<noteq> 0) v @ r) symbol 0 = (r, v, [])"
proof -
  have "is_int32 v" using assms(1,2) by (simp add: is_int32_def)
  then show ?thesis
    using assms strtol_print_int [of v r] at_ptr_print_int [of v r]
    by (cases "v = 0") (simp_all add: du_ParseNext_def print_field_def)
qed

lemma du_ParseNext_other: "at_ptr r \<noteq> symbol \<Longrightarrow> du_ParseNext r symbol v = (r, v, [])"
  by (simp add: du_ParseNext_def)

lemma GetSign_0_iff:
  "GetSign d = 0 \<longleftrightarrow> d = zero_duration"
  by (cases d) (auto simp: GetSign_def zero_duration_def split: if_splits)

lemma du_Init_zero: "stops_duration r \<Longrightarrow> du_Init (''s0'' @ r) zero_duration = Some (zero_duration, r, [])"
proof -
  assume r: "stops_duration r"
  have "strtol (CHR ''0'' # r) = (0, r)"
    using strtol_digits [of "''0''" r] r by (simp add: stops_duration_def IS_DIGIT_def digits_value_def digit_val_def)
  then have "du_ParseNext (''s0'' @ r) (CHR ''s'') 0 = (r, 0, [])" by (simp add: du_ParseNext_def IS_DIGIT_def is_int32_def)
  moreover have "SkipSpaces (''s0'' @ r) = ''s0'' @ r" by (simp add: SkipSpaces_def spacelike_def)
  ultimately show ?thesis
    by (simp add: du_Init_def du_parse_days_def du_ParseNext_other du_step_def zero_duration_def is_int32_def)
qed

lemma du_Init_text:
  assumes d: "du_readable d" and r: "stops_duration r"
  shows "du_Init (du_PrintShort d @ r) zero_duration = Some (d, r, [])"
proof (cases "GetSign d = 0")
  case True
  then show ?thesis using du_Init_zero [OF r] by (simp add: du_PrintShort_def GetSign_0_iff)
next
  case False
  let ?pf = "\<lambda>c v. print_field c (v \<noteq> 0) v"
  define s6 where "s6 = ?pf (CHR ''s'') (du_seconds d) @ r"
  define s5 where "s5 = ?pf (CHR ''m'') (du_minutes d) @ s6"
  define s4 where "s4 = ?pf (CHR ''h'') (du_hours d) @ s5"
  define s3 where "s3 = ?pf (CHR ''d'') (du_days d) @ s4"
  define s2 where "s2 = ?pf (CHR ''M'') (du_months d) @ s3"
  have whole: "du_PrintShort d @ r = ?pf (CHR ''y'') (du_years d) @ s2"
    using False by (simp add: du_PrintShort_def s2_def s3_def s4_def s5_def s6_def)
  have b: "0 \<le> du_years d" "du_years d < 2 ^ 31" "0 \<le> du_months d" "du_months d < 2 ^ 31" "0 \<le> du_days d" "du_days d < 2 ^ 31"
    "0 \<le> du_hours d" "du_hours d < 2 ^ 31" "0 \<le> du_minutes d" "du_minutes d < 2 ^ 31" "0 \<le> du_seconds d" "du_seconds d < 2 ^ 31"
    using d by (simp_all add: du_readable_def)
  have s6: "\<not> IS_DIGIT (at_ptr s6)" "at_ptr s6 \<notin> set ''yMwdhm''" using r by (auto simp: s6_def stops_duration_def)
  have s5: "\<not> IS_DIGIT (at_ptr s5)" "at_ptr s5 \<notin> set ''yMwdh''" using s6 by (auto simp: s5_def)
  have s4: "\<not> IS_DIGIT (at_ptr s4)" "at_ptr s4 \<notin> set ''yMwd''" using s5 by (auto simp: s4_def)
  have s3: "\<not> IS_DIGIT (at_ptr s3)" "at_ptr s3 \<notin> set ''yMw''" using s4 by (auto simp: s3_def)
  have s2: "\<not> IS_DIGIT (at_ptr s2)" "at_ptr s2 \<noteq> CHR ''y''" using s3 by (auto simp: s2_def)
  have start: "SkipSpaces (du_PrintShort d @ r) = du_PrintShort d @ r"
  proof -
    have "d \<noteq> zero_duration" using False GetSign_0_iff by simp
    then have "at_ptr (du_PrintShort d @ r) \<in> set ''yMdhms''"
      unfolding whole s2_def s3_def s4_def s5_def s6_def by (cases d) (auto simp: zero_duration_def)
    then show ?thesis by (intro SkipSpaces_id) (auto simp: spacelike_def)
  qed
  have p1: "du_ParseNext (?pf (CHR ''y'') (du_years d) @ s2) (CHR ''y'') 0 = (s2, du_years d, [])"
    by (rule du_ParseNext_field [OF b(1,2) s2])
  have p2: "du_ParseNext s2 (CHR ''M'') 0 = (s3, du_months d, [])"
    unfolding s2_def by (rule du_ParseNext_field [OF b(3,4) s3(1)]) (use s3(2) in simp)
  have p3: "du_ParseNext s3 (CHR ''w'') 0 = (s3, 0, [])" by (rule du_ParseNext_other) (use s3(2) in simp)
  have p4: "du_ParseNext s3 (CHR ''d'') 0 = (s4, du_days d, [])"
    unfolding s3_def by (rule du_ParseNext_field [OF b(5,6) s4(1)]) (use s4(2) in simp)
  have p5: "du_ParseNext s4 (CHR ''h'') 0 = (s5, du_hours d, [])"
    unfolding s4_def by (rule du_ParseNext_field [OF b(7,8) s5(1)]) (use s5(2) in simp)
  have p6: "du_ParseNext s5 (CHR ''m'') 0 = (s6, du_minutes d, [])"
    unfolding s5_def by (rule du_ParseNext_field [OF b(9,10) s6(1)]) (use s6(2) in simp)
  have p7: "du_ParseNext s6 (CHR ''s'') 0 = (r, du_seconds d, [])"
    unfolding s6_def by (rule du_ParseNext_field [OF b(11,12)]) (use r in \<open>simp_all add: stops_duration_def\<close>)
  note p = p1 p2 p3 p4 p5 p6 p7
  have "int32 (du_days d) = du_days d" using b(5,6) by (simp add: is_int32_def)
  then show ?thesis
    unfolding du_Init_def start unfolding whole
    by (simp add: p du_step_def du_parse_days_def zero_duration_def)
qed


lemma du_PrintShort_no_NUL [simp]: "NUL \<notin> set (du_PrintShort d)"
  by (simp add: du_PrintShort_def)

end
