(* ===== verification/TimePoint.thy ===== *)
theory TimePoint
  imports TimeDuration
begin

text \<open>
  \<open>util/time/timepoint.h\<close>: a point in time with an offset, over any class of points. The template
  parameter \<open>PointType\<close> is the record \<open>point_type\<close> of the members the templates call;
  \<open>sharp\<close> is the class \<open>SharpPoint\<close>. What the templates rely on is stated in two locales:
  \<open>recurring_point\<close> (the searches find the nearest point, within two years) and
  \<open>printable_point\<close> (the short form is read back); \<open>SharpPoint\<close> interprets both.
\<close>

section \<open>The class of points\<close>

record ('p, 'd) point_type =
  pt_new :: 'p
  pt_Init :: "string \<Rightarrow> 'p \<Rightarrow> 'p parsed option"
  pt_GetNext :: "'p \<Rightarrow> localtime \<Rightarrow> 'd \<Rightarrow> (bool \<times> localtime) option"
  pt_GetPrevious :: "'p \<Rightarrow> localtime \<Rightarrow> 'd \<Rightarrow> (bool \<times> localtime) option"
  pt_Print :: "'p \<Rightarrow> string option"
  pt_PrintShort :: "'p \<Rightarrow> string option"

text \<open>\<open>SharpPoint\<close>; its searches ignore the additional data.\<close>

definition sharp :: "(sharppoint, unit) point_type" where
  "sharp = \<lparr>pt_new = sp_Clear, pt_Init = sp_Init, pt_GetNext = (\<lambda>p t _. sp_GetNext p t),
     pt_GetPrevious = (\<lambda>p t _. sp_GetPrevious p t), pt_Print = sp_Print, pt_PrintShort = sp_PrintShort\<rparr>"

section \<open>The template\<close>

record 'p timepoint =
  tp_point :: 'p
  tp_offset :: duration

definition tp_new :: "('p, 'd) point_type \<Rightarrow> 'p timepoint" where
  "tp_new P = \<lparr>tp_point = pt_new P, tp_offset = zero_duration\<rparr>"

definition tp_Init :: "('p, 'd) point_type \<Rightarrow> string \<Rightarrow> 'p timepoint \<Rightarrow> 'p timepoint parsed option" where
  "tp_Init P start tp = do {
     (pt, s, error_msg) \<leftarrow> pt_Init P (SkipSpaces start) (tp_point tp);
     let tp = tp\<lparr>tp_point := pt\<rparr>;
     if error_msg \<noteq> [] then Some (tp, s, error_msg)
     else if at_ptr s = CHR ''+'' \<or> at_ptr s = CHR ''-'' then do {
       let negative_offset = (at_ptr s = CHR ''-'');
       (off, s, error_msg) \<leftarrow> du_Init (tl s) (tp_offset tp);
       if error_msg \<noteq> [] then Some (tp\<lparr>tp_offset := off\<rparr>, s, error_msg)
       else Some (tp\<lparr>tp_offset := (if negative_offset then Reverse off else off)\<rparr>, s, [])
     }
     else Some (tp, s, [])
   }"

definition tp_GetNext ::
    "('p, 'd) point_type \<Rightarrow> 'p timepoint \<Rightarrow> localtime \<Rightarrow> 'd \<Rightarrow> (bool \<times> localtime) option" where
  "tp_GetNext P tp current data = do {
     ASSERT (IsFinite current);
     ref \<leftarrow> minus_duration current (tp_offset tp);
     (found, ref_next) \<leftarrow> pt_GetNext P (tp_point tp) ref data;
     nxt \<leftarrow> (if found then plus_duration ref_next (tp_offset tp) else Some lt_InfiniteFuture);
     Some (found, nxt)
   }"

definition tp_GetPrevious ::
    "('p, 'd) point_type \<Rightarrow> 'p timepoint \<Rightarrow> localtime \<Rightarrow> 'd \<Rightarrow> (bool \<times> localtime) option" where
  "tp_GetPrevious P tp current data = do {
     ASSERT (IsFinite current);
     ref \<leftarrow> minus_duration current (tp_offset tp);
     (found, ref_prev) \<leftarrow> pt_GetPrevious P (tp_point tp) ref data;
     prev \<leftarrow> (if found then plus_duration ref_prev (tp_offset tp) else Some lt_InfinitePast);
     Some (found, prev)
   }"

definition tp_Print :: "('p, 'd) point_type \<Rightarrow> 'p timepoint \<Rightarrow> string option" where
  "tp_Print P tp = do {
     s \<leftarrow> pt_Print P (tp_point tp);
     let offset_sign = GetSign (tp_offset tp);
     Some (s @ (if offset_sign < 0 then '' minus '' @ du_Print (GetReverse (tp_offset tp))
                else if 0 < offset_sign then '' plus '' @ du_Print (tp_offset tp) else []))
   }"

definition tp_PrintShort :: "('p, 'd) point_type \<Rightarrow> 'p timepoint \<Rightarrow> string option" where
  "tp_PrintShort P tp = do {
     s \<leftarrow> pt_PrintShort P (tp_point tp);
     let offset_sign = GetSign (tp_offset tp);
     Some (s @ (if offset_sign < 0 then ''-'' @ du_PrintShort (GetReverse (tp_offset tp))
                else if 0 < offset_sign then ''+'' @ du_PrintShort (tp_offset tp) else []))
   }"

section \<open>Recurring points\<close>

text \<open>
  Times as numbers of seconds. The searches are specified on a window of times, 1972 to 2996, in which
  nothing comes near the years 1970 and 3000 that stand for infinity.
\<close>

definition year_secs :: "int \<Rightarrow> int" where
  "year_secs y = year_start y * 86400"

definition window_start :: int where "window_start = year_secs 1972"

definition window_end :: int where "window_end = year_secs 2997"

definition one_year :: int where "one_year = 366 * 86400"

lemma ld_y_iff:
  assumes "valid_time t"
  shows "y \<le> ld_y t \<longleftrightarrow> year_secs y \<le> raw_seconds t" "ld_y t < y \<longleftrightarrow> raw_seconds t < year_secs y"
proof -
  have "year_start y \<le> dn t \<longleftrightarrow> y \<le> ld_y t" using year_of_day(1) valid_time_date [OF assms] by blast
  moreover have "year_start y \<le> dn t \<longleftrightarrow> year_secs y \<le> raw_seconds t"
    using valid_time_split [OF assms] clock_bounds [OF assms] unfolding year_secs_def by linarith
  ultimately show "y \<le> ld_y t \<longleftrightarrow> year_secs y \<le> raw_seconds t" "ld_y t < y \<longleftrightarrow> raw_seconds t < year_secs y" by linarith+
qed

lemma year_secs_step: "year_secs (y + 1) \<le> year_secs y + one_year"
  using TotalDaysInYear_bounds(2) [of y] by (simp add: year_secs_def one_year_def year_start_Suc)

lemma window_values:
  "year_secs 1971 = 31536000" "window_start = 63072000" "window_end = 32409072000" "year_secs 3000 = 32503680000"
  "one_year = 31622400"
  by (simp_all add: year_secs_def window_start_def window_end_def one_year_def year_start_def)

lemma IsFinite_iff: "valid_time t \<Longrightarrow> IsFinite t \<longleftrightarrow> 31536000 \<le> raw_seconds t \<and> raw_seconds t < 32503680000"
  using ld_y_iff(1) [of t 1971] ld_y_iff(2) [of t 3000] by (auto simp: IsFinite_def window_values)

text \<open>The nearest points of a set of times, found from any time of a window.\<close>

definition finds_next :: "(localtime \<Rightarrow> (bool \<times> localtime) option) \<Rightarrow> (int \<Rightarrow> bool) \<Rightarrow> int \<Rightarrow> int \<Rightarrow> bool" where
  "finds_next f A lo hi \<longleftrightarrow> (\<forall>t. valid_time t \<and> lo \<le> raw_seconds t \<and> raw_seconds t < hi \<longrightarrow>
     (\<exists>u. f t = Some (True, u) \<and> valid_time u \<and> A (raw_seconds u) \<and> raw_seconds t \<le> raw_seconds u \<and>
       raw_seconds u \<le> raw_seconds t + 2 * one_year \<and> (\<forall>x. raw_seconds t \<le> x \<and> A x \<longrightarrow> raw_seconds u \<le> x)))"

definition finds_previous :: "(localtime \<Rightarrow> (bool \<times> localtime) option) \<Rightarrow> (int \<Rightarrow> bool) \<Rightarrow> int \<Rightarrow> int \<Rightarrow> bool" where
  "finds_previous f A lo hi \<longleftrightarrow> (\<forall>t. valid_time t \<and> lo \<le> raw_seconds t \<and> raw_seconds t < hi \<longrightarrow>
     (\<exists>u. f t = Some (True, u) \<and> valid_time u \<and> A (raw_seconds u) \<and> raw_seconds u \<le> raw_seconds t \<and>
       raw_seconds t - 2 * one_year \<le> raw_seconds u \<and> 31536000 \<le> raw_seconds u \<and> (\<forall>x. x \<le> raw_seconds t \<and> A x \<longrightarrow> x \<le> raw_seconds u)))"

locale recurring_point =
  fixes P :: "('p, 'd) point_type" and data :: 'd and regular :: "'p \<Rightarrow> bool" and point_at :: "'p \<Rightarrow> int \<Rightarrow> bool"
  assumes next_law: "regular p \<Longrightarrow> finds_next (\<lambda>t. pt_GetNext P p t data) (point_at p) window_start window_end"
    and previous_law: "regular p \<Longrightarrow> finds_previous (\<lambda>t. pt_GetPrevious P p t data) (point_at p) window_start window_end"

text \<open>A time point has the same contract, on a window that is a year narrower at both ends.\<close>

definition tp_regular :: "('p \<Rightarrow> bool) \<Rightarrow> 'p timepoint \<Rightarrow> bool" where
  "tp_regular regular tp \<longleftrightarrow> regular (tp_point tp) \<and> du_fixed (tp_offset tp) \<and> \<bar>du_secs (tp_offset tp)\<bar> \<le> one_year"

definition tp_at :: "('p \<Rightarrow> int \<Rightarrow> bool) \<Rightarrow> 'p timepoint \<Rightarrow> int \<Rightarrow> bool" where
  "tp_at point_at tp x \<longleftrightarrow> point_at (tp_point tp) (x - du_secs (tp_offset tp))"

context recurring_point
begin

lemma tp_next:
  assumes "tp_regular regular tp"
  shows "finds_next (\<lambda>t. tp_GetNext P tp t data) (tp_at point_at tp) (window_start + one_year) (window_end - one_year)"
  unfolding finds_next_def
proof (intro allI impI, elim conjE)
  fix t assume t: "valid_time t" "window_start + one_year \<le> raw_seconds t" "raw_seconds t < window_end - one_year"
  let ?k = "du_secs (tp_offset tp)"
  have tp: "regular (tp_point tp)" "du_fixed (tp_offset tp)" "\<bar>?k\<bar> \<le> 31622400" using assms by (simp_all add: tp_regular_def window_values)
  have fin: "IsFinite t" using t by (simp add: IsFinite_iff window_values)
  have "0 \<le> raw_seconds t - ?k" using t(2) tp(3) unfolding window_values by linarith
  then obtain ref where ref: "minus_duration t (tp_offset tp) = Some ref" "valid_time ref" "raw_seconds ref = raw_seconds t - ?k"
    using minus_duration_ok [OF t(1) fin tp(2)] by blast
  have w: "window_start \<le> raw_seconds ref" "raw_seconds ref < window_end" using ref(3) t(2,3) tp(3) by (simp_all add: window_values)
  then obtain v where v: "pt_GetNext P (tp_point tp) ref data = Some (True, v)" "valid_time v" "point_at (tp_point tp) (raw_seconds v)"
      "raw_seconds ref \<le> raw_seconds v" "raw_seconds v \<le> raw_seconds ref + 2 * one_year"
      "\<And>x. raw_seconds ref \<le> x \<Longrightarrow> point_at (tp_point tp) x \<Longrightarrow> raw_seconds v \<le> x"
    using next_law [OF tp(1)] ref(2) unfolding finds_next_def by blast
  have fv: "IsFinite v" "0 \<le> raw_seconds v + ?k" using v(2,4,5) w ref(3) t tp(3) by (simp_all add: IsFinite_iff window_values)
  obtain u where u: "plus_duration v (tp_offset tp) = Some u" "valid_time u" "raw_seconds u = raw_seconds v + ?k"
    using plus_duration_ok [OF v(2) fv(1) tp(2) fv(2)] by blast
  have "tp_GetNext P tp t data = Some (True, u)" using fin ref(1) v(1) u(1) by (simp add: tp_GetNext_def)
  moreover have "raw_seconds u \<le> x" if "raw_seconds t \<le> x" "tp_at point_at tp x" for x
    using v(6) [of "x - ?k"] that ref(3) u(3) by (simp add: tp_at_def)
  moreover have "tp_at point_at tp (raw_seconds u)" using v(3) u(3) by (simp add: tp_at_def)
  ultimately show "\<exists>u. tp_GetNext P tp t data = Some (True, u) \<and> valid_time u \<and> tp_at point_at tp (raw_seconds u) \<and>
      raw_seconds t \<le> raw_seconds u \<and> raw_seconds u \<le> raw_seconds t + 2 * one_year \<and>
      (\<forall>x. raw_seconds t \<le> x \<and> tp_at point_at tp x \<longrightarrow> raw_seconds u \<le> x)"
    using u(2,3) v(4,5) ref(3) by auto
qed

lemma tp_previous:
  assumes "tp_regular regular tp"
  shows "finds_previous (\<lambda>t. tp_GetPrevious P tp t data) (tp_at point_at tp) (window_start + 4 * one_year) (window_end - one_year)"
  unfolding finds_previous_def
proof (intro allI impI, elim conjE)
  fix t assume t: "valid_time t" "window_start + 4 * one_year \<le> raw_seconds t" "raw_seconds t < window_end - one_year"
  let ?k = "du_secs (tp_offset tp)"
  have tp: "regular (tp_point tp)" "du_fixed (tp_offset tp)" "\<bar>?k\<bar> \<le> 31622400" using assms by (simp_all add: tp_regular_def window_values)
  have fin: "IsFinite t" using t by (simp add: IsFinite_iff window_values)
  have "0 \<le> raw_seconds t - ?k" using t(2) tp(3) unfolding window_values by linarith
  then obtain ref where ref: "minus_duration t (tp_offset tp) = Some ref" "valid_time ref" "raw_seconds ref = raw_seconds t - ?k"
    using minus_duration_ok [OF t(1) fin tp(2)] by blast
  have w: "window_start \<le> raw_seconds ref" "raw_seconds ref < window_end" using ref(3) t(2,3) tp(3) by (simp_all add: window_values)
  then obtain v where v: "pt_GetPrevious P (tp_point tp) ref data = Some (True, v)" "valid_time v" "point_at (tp_point tp) (raw_seconds v)"
      "raw_seconds v \<le> raw_seconds ref" "raw_seconds ref - 2 * one_year \<le> raw_seconds v"
      "\<And>x. x \<le> raw_seconds ref \<Longrightarrow> point_at (tp_point tp) x \<Longrightarrow> x \<le> raw_seconds v"
    using previous_law [OF tp(1)] ref(2) unfolding finds_previous_def by blast
  have fv: "IsFinite v" "0 \<le> raw_seconds v + ?k" using v(2,4,5) w ref(3) t tp(3) by (simp_all add: IsFinite_iff window_values)
  obtain u where u: "plus_duration v (tp_offset tp) = Some u" "valid_time u" "raw_seconds u = raw_seconds v + ?k"
    using plus_duration_ok [OF v(2) fv(1) tp(2) fv(2)] by blast
  have "tp_GetPrevious P tp t data = Some (True, u)" using fin ref(1) v(1) u(1) by (simp add: tp_GetPrevious_def)
  moreover have "x \<le> raw_seconds u" if "x \<le> raw_seconds t" "tp_at point_at tp x" for x
    using v(6) [of "x - ?k"] that ref(3) u(3) by (simp add: tp_at_def)
  moreover have "tp_at point_at tp (raw_seconds u)" using v(3) u(3) by (simp add: tp_at_def)
  moreover have "31536000 \<le> raw_seconds u" using t(2) v(5) ref(3) u(3) by (simp add: window_values)
  ultimately show "\<exists>u. tp_GetPrevious P tp t data = Some (True, u) \<and> valid_time u \<and> tp_at point_at tp (raw_seconds u) \<and>
      raw_seconds u \<le> raw_seconds t \<and> raw_seconds t - 2 * one_year \<le> raw_seconds u \<and> 31536000 \<le> raw_seconds u \<and>
      (\<forall>x. x \<le> raw_seconds t \<and> tp_at point_at tp x \<longrightarrow> x \<le> raw_seconds u)"
    using u(2,3) v(4,5) ref(3) by auto
qed

end


section \<open>Points that are read back\<close>

locale printable_point =
  fixes P :: "('p, 'd) point_type" and readable :: "'p \<Rightarrow> bool" and stops :: "string \<Rightarrow> bool"
  assumes print_law: "readable p \<Longrightarrow> \<exists>s. pt_PrintShort P p = Some s \<and> NUL \<notin> set s \<and>
      (\<forall>r. stops r \<longrightarrow> SkipSpaces (s @ r) = s @ r \<and> pt_Init P (s @ r) (pt_new P) = Some (p, r, []))"
    and stops_law: "c \<in> set '')+-'' \<Longrightarrow> stops (c # r)"

definition tp_readable :: "('p \<Rightarrow> bool) \<Rightarrow> 'p timepoint \<Rightarrow> bool" where
  "tp_readable readable tp \<longleftrightarrow>
     readable (tp_point tp) \<and> (du_readable (tp_offset tp) \<or> du_readable (Reverse (tp_offset tp)))"

lemma GetSign_readable:
  "du_readable d \<Longrightarrow> 0 \<le> GetSign d" "du_readable (Reverse d) \<Longrightarrow> GetSign d \<le> 0"
  "GetSign (Reverse d) = 0 \<longleftrightarrow> GetSign d = 0"
  by (auto simp: GetSign_def du_readable_def Reverse_def)

context printable_point
begin

lemma tp_print_law:
  assumes "tp_readable readable tp"
  shows "\<exists>s. tp_PrintShort P tp = Some s \<and> NUL \<notin> set s \<and>
    (\<forall>r. SkipSpaces (s @ CHR '')'' # r) = s @ CHR '')'' # r \<and>
      tp_Init P (s @ CHR '')'' # r) (tp_new P) = Some (tp, CHR '')'' # r, []))"
proof -
  let ?d = "tp_offset tp" and ?p = "tp_point tp"
  obtain s where n: "NUL \<notin> set s" and s: "pt_PrintShort P ?p = Some s"
    "\<And>r. stops r \<Longrightarrow> SkipSpaces (s @ r) = s @ r" "\<And>r. stops r \<Longrightarrow> pt_Init P (s @ r) (pt_new P) = Some (?p, r, [])"
    using print_law [of ?p] assms by (auto simp: tp_readable_def)
  have stop: "stops_duration (CHR '')'' # r)" for r by (simp add: stops_duration_def IS_DIGIT_def)
  have tp: "tp = \<lparr>tp_point = ?p, tp_offset = ?d\<rparr>" by simp
  consider (zero) "GetSign ?d = 0" | (pos) "0 < GetSign ?d" | (neg) "GetSign ?d < 0" by linarith
  then show ?thesis
  proof cases
    case zero
    then have "?d = zero_duration" by (simp add: GetSign_0_iff)
    then show ?thesis using zero n s(1) s(2,3) [OF stops_law [of "CHR '')''"]] tp
      by (intro exI [of _ s]) (simp add: tp_PrintShort_def tp_Init_def tp_new_def)
  next
    case pos
    then have "du_readable ?d" using assms GetSign_readable(2) [of ?d] by (auto simp: tp_readable_def)
    then have "du_Init (du_PrintShort ?d @ CHR '')'' # r) zero_duration = Some (?d, CHR '')'' # r, [])" for r
      using du_Init_text stop by blast
    then show ?thesis using pos n s(1) s(2,3) [OF stops_law [of "CHR ''+''"]] tp
      by (intro exI [of _ "s @ ''+'' @ du_PrintShort ?d"]) (simp add: tp_PrintShort_def tp_Init_def tp_new_def du_PrintShort_no_NUL)
  next
    case neg
    then have "du_readable (Reverse ?d)" using assms GetSign_readable(1) [of ?d] by (auto simp: tp_readable_def)
    then have "du_Init (du_PrintShort (Reverse ?d) @ CHR '')'' # r) zero_duration = Some (Reverse ?d, CHR '')'' # r, [])" for r
      using du_Init_text stop by blast
    then show ?thesis using neg n s(1) s(2,3) [OF stops_law [of "CHR ''-''"]] tp
      by (intro exI [of _ "s @ ''-'' @ du_PrintShort (Reverse ?d)"])
        (simp add: tp_PrintShort_def tp_Init_def tp_new_def GetReverse_def du_PrintShort_no_NUL)
  qed
qed

end

section \<open>SharpPoint\<close>

definition sp_at :: "sharppoint \<Rightarrow> int \<Rightarrow> bool" where
  "sp_at sp x \<longleftrightarrow> (\<exists>v. valid_time v \<and> raw_seconds v = x \<and> 1970 < ld_y v \<and> sp_matches sp v)"

definition sp_readable :: "sharppoint \<Rightarrow> bool" where
  "sp_readable sp \<longleftrightarrow> sp_ok sp \<and> SetDefaultValues sp = Some sp"

definition sp_stops :: "string \<Rightarrow> bool" where
  "sp_stops r \<longleftrightarrow> stops_point r \<and> (r = [] \<or> \<not> spacelike (at_ptr r))"

lemma sharp_next:
  assumes "yearly sp"
  shows "finds_next (\<lambda>t. sp_GetNext sp t) (sp_at sp) window_start window_end"
  unfolding finds_next_def
proof (intro allI impI, elim conjE)
  fix t assume t: "valid_time t" "window_start \<le> raw_seconds t" "raw_seconds t < window_end"
  have fin: "IsFinite t" using t by (simp add: IsFinite_iff window_values)
  have sp: "sp_ok sp" using assms by (simp add: yearly_def)
  have y: "1970 < ld_y t" using fin by (simp add: IsFinite_def)
  obtain found u where r: "ModifyTime_loop sp True t = Some (found, u)" "search_result sp True t (found, u)"
    using loop_ends [OF sp t(1) y] by fastforce
  obtain w where w: "valid_time w" "ld_y w = ld_y t + 1" "sp_matches sp w" using yearly_match [OF assms, of "ld_y t + 1"] y by auto
  then have aw: "ahead True t w" using lt_less_iff [OF t(1) w(1)] by (simp add: lt_less_def ahead_def)
  have found: "found"
  proof (rule ccontr)
    assume "\<not> found"
    then have "ld_y w \<le> 1970" using r(2) aw w(3) by (auto simp: search_result_def)
    then show False using w(2) y by simp
  qed
  then have u: "valid_time u" "raw_seconds t \<le> raw_seconds u" "sp_matches sp u" "1970 < ld_y u"
      "\<And>v. ahead True t v \<Longrightarrow> sp_matches sp v \<Longrightarrow> 1970 < ld_y v \<Longrightarrow> raw_seconds u \<le> raw_seconds v"
    using r(2) by (auto simp: search_result_def ahead_def)
  have "raw_seconds u \<le> raw_seconds w" using u(5) [OF aw w(3)] w(2) y by simp
  also have "\<dots> < year_secs (ld_y t + 2)" using ld_y_iff(2) [OF w(1), of "ld_y t + 2"] w(2) by simp
  also have "\<dots> \<le> raw_seconds t + 2 * one_year"
    using year_secs_step [of "ld_y t"] year_secs_step [of "ld_y t + 1"] ld_y_iff(1) [OF t(1), of "ld_y t"]
    by (simp add: add.commute)
  finally have near: "raw_seconds u \<le> raw_seconds t + 2 * one_year" by simp
  have least: "raw_seconds u \<le> x" if "raw_seconds t \<le> x" "sp_at sp x" for x
    using that u(5) by (auto simp: sp_at_def ahead_def)
  have "sp_at sp (raw_seconds u)" using u(1,3,4) unfolding sp_at_def by blast
  moreover have "sp_GetNext sp t = Some (True, u)" using fin r(1) found by (simp add: sp_GetNext_def ModifyTime_def)
  ultimately show "\<exists>u. sp_GetNext sp t = Some (True, u) \<and> valid_time u \<and> sp_at sp (raw_seconds u) \<and> raw_seconds t \<le> raw_seconds u \<and>
       raw_seconds u \<le> raw_seconds t + 2 * one_year \<and> (\<forall>x. raw_seconds t \<le> x \<and> sp_at sp x \<longrightarrow> raw_seconds u \<le> x)"
    using u(1,2) near least by blast
qed

lemma sharp_previous:
  assumes "yearly sp"
  shows "finds_previous (\<lambda>t. sp_GetPrevious sp t) (sp_at sp) window_start window_end"
  unfolding finds_previous_def
proof (intro allI impI, elim conjE)
  fix t assume t: "valid_time t" "window_start \<le> raw_seconds t" "raw_seconds t < window_end"
  have fin: "IsFinite t" using t by (simp add: IsFinite_iff window_values)
  have sp: "sp_ok sp" using assms by (simp add: yearly_def)
  have y: "1972 \<le> ld_y t" using ld_y_iff(1) [OF t(1)] t(2) by (simp add: window_start_def)
  obtain found u where r: "ModifyTime_loop sp False t = Some (found, u)" "search_result sp False t (found, u)"
    using loop_ends [OF sp t(1)] y by fastforce
  obtain w where w: "valid_time w" "ld_y w = ld_y t - 1" "sp_matches sp w" using yearly_match [OF assms, of "ld_y t - 1"] y by auto
  then have aw: "ahead False t w" using lt_less_iff [OF w(1) t(1)] by (simp add: lt_less_def ahead_def)
  have found: "found"
  proof (rule ccontr)
    assume "\<not> found"
    then have "ld_y w \<le> 1970" using r(2) aw w(3) by (auto simp: search_result_def)
    then show False using w(2) y by simp
  qed
  then have u: "valid_time u" "raw_seconds u \<le> raw_seconds t" "sp_matches sp u" "1970 < ld_y u"
      "\<And>v. ahead False t v \<Longrightarrow> sp_matches sp v \<Longrightarrow> 1970 < ld_y v \<Longrightarrow> raw_seconds v \<le> raw_seconds u"
    using r(2) by (auto simp: search_result_def ahead_def)
  have "raw_seconds t < year_secs (ld_y t + 1)" using ld_y_iff(2) [OF t(1), of "ld_y t + 1"] by simp
  also have "\<dots> \<le> year_secs (ld_y t - 1) + 2 * one_year"
    using year_secs_step [of "ld_y t - 1"] year_secs_step [of "ld_y t"] by simp
  finally have "raw_seconds t - 2 * one_year \<le> raw_seconds w" using ld_y_iff(1) [OF w(1), of "ld_y t - 1"] w(2) by simp
  then have near: "raw_seconds t - 2 * one_year \<le> raw_seconds u" using u(5) [OF aw w(3)] w(2) y by simp
  have greatest: "x \<le> raw_seconds u" if "x \<le> raw_seconds t" "sp_at sp x" for x
    using that u(5) by (auto simp: sp_at_def ahead_def)
  have "sp_at sp (raw_seconds u)" using u(1,3,4) unfolding sp_at_def by blast
  moreover have "31536000 \<le> raw_seconds u" using ld_y_iff(1) [OF u(1), of 1971] u(4) by (simp add: window_values)
  moreover have "sp_GetPrevious sp t = Some (True, u)" using fin r(1) found by (simp add: sp_GetPrevious_def ModifyTime_def)
  ultimately show "\<exists>u. sp_GetPrevious sp t = Some (True, u) \<and> valid_time u \<and> sp_at sp (raw_seconds u) \<and> raw_seconds u \<le> raw_seconds t \<and>
       raw_seconds t - 2 * one_year \<le> raw_seconds u \<and> 31536000 \<le> raw_seconds u \<and> (\<forall>x. x \<le> raw_seconds t \<and> sp_at sp x \<longrightarrow> x \<le> raw_seconds u)"
    using u(1,2) near greatest by blast
qed

interpretation sharp_points: recurring_point sharp "()" yearly sp_at
  by unfold_locales (simp_all add: sharp_def sharp_next sharp_previous)

interpretation sharp_texts: printable_point sharp sp_readable sp_stops
proof
  fix p assume p: "sp_readable p"
  then obtain s where s: "sp_PrintShort p = Some s" using sp_PrintShort_eq by (auto simp: sp_readable_def)
  have "SkipSpaces (s @ r) = s @ r \<and> sp_Init (s @ r) sp_Clear = Some (p, r, [])" if "sp_stops r" for r
  proof -
    have "\<not> spacelike (at_ptr (s @ r)) \<or> s @ r = []"
      using sp_PrintShort_start [OF _ s] p that by (cases s) (auto simp: sp_readable_def sp_stops_def spacelike_def)
    then show ?thesis using sp_Init_text [OF _ _ s] p that SkipSpaces_id by (auto simp: sp_readable_def sp_stops_def)
  qed
  moreover have "NUL \<notin> set s" using s p sp_PrintShort_eq [of p]
    by (auto simp: sp_readable_def sp_day_text_def sp_clock_text_def print_field_no_NUL print_int_no_NUL split: if_splits)
  ultimately show "\<exists>s. pt_PrintShort sharp p = Some s \<and> NUL \<notin> set s \<and>
      (\<forall>r. sp_stops r \<longrightarrow> SkipSpaces (s @ r) = s @ r \<and> pt_Init sharp (s @ r) (pt_new sharp) = Some (p, r, []))"
    using s by (simp add: sharp_def)
next
  fix c r assume "c \<in> set '')+-''"
  then show "sp_stops (c # r)" by (auto simp: sp_stops_def stops_point_def IS_DIGIT_def spacelike_def)
qed


text \<open>
  C13. A \<open>TimePoint<SharpPoint>\<close> with an offset of up to a year, given in days, hours, minutes and seconds,
  over a specification that is matched every year: between 1977 and 2995 \<open>GetNext\<close> and
  \<open>GetPrevious\<close> always return \<open>true\<close>, with the nearest time at or after (before) the given one from
  which the offset leads back to a matching time.
\<close>
theorem timepoint_nearest_ok:
  assumes "tp_regular yearly tp" "valid_time t" "1977 \<le> ld_y t" "ld_y t \<le> 2995"
  shows "\<exists>u w. tp_GetNext sharp tp t () = Some (True, u) \<and> tp_GetPrevious sharp tp t () = Some (True, w) \<and>
    valid_time u \<and> valid_time w \<and> lt_less_eq t u \<and> lt_less_eq w t \<and>
    tp_at sp_at tp (raw_seconds u) \<and> tp_at sp_at tp (raw_seconds w) \<and>
    (\<forall>x. tp_at sp_at tp x \<longrightarrow> x \<le> raw_seconds w \<or> raw_seconds u \<le> x)"
proof -
  have "year_secs 1977 = 220924800" "year_secs 2996 = 32377449600" by (simp_all add: year_secs_def year_start_def)
  then have t: "window_start + 4 * one_year \<le> raw_seconds t" "raw_seconds t < window_end - one_year"
    using ld_y_iff(1) [OF assms(2), of 1977] ld_y_iff(2) [OF assms(2), of 2996] assms(3,4) by (simp_all add: window_values)
  have t': "window_start + one_year \<le> raw_seconds t" using t(1) by (simp add: window_values)
  obtain u where u: "tp_GetNext sharp tp t () = Some (True, u)" "valid_time u" "tp_at sp_at tp (raw_seconds u)"
      "raw_seconds t \<le> raw_seconds u" "\<And>x. raw_seconds t \<le> x \<Longrightarrow> tp_at sp_at tp x \<Longrightarrow> raw_seconds u \<le> x"
    using sharp_points.tp_next [OF assms(1)] assms(2) t' t(2) unfolding finds_next_def by blast
  obtain w where w: "tp_GetPrevious sharp tp t () = Some (True, w)" "valid_time w" "tp_at sp_at tp (raw_seconds w)"
      "raw_seconds w \<le> raw_seconds t" "\<And>x. x \<le> raw_seconds t \<Longrightarrow> tp_at sp_at tp x \<Longrightarrow> x \<le> raw_seconds w"
    using sharp_points.tp_previous [OF assms(1)] assms(2) t unfolding finds_previous_def by blast
  have "lt_less_eq t u" "lt_less_eq w t"
    using u(2,4) w(2,4) assms(2) lt_less_iff [of u t] lt_less_iff [of t w] by (simp_all add: lt_less_eq_iff)
  moreover have "x \<le> raw_seconds w \<or> raw_seconds u \<le> x" if "tp_at sp_at tp x" for x
    using u(5) [OF _ that] w(5) [OF _ that] by linarith
  ultimately show ?thesis using u(1-3) w(1-3) by blast
qed

definition sample_point :: "sharppoint timepoint" where
  "sample_point = \<lparr>tp_point = first_monday, tp_offset = zero_duration\<lparr>du_hours := 2\<rparr>\<rparr>"

lemma sample_point_regular: "tp_regular yearly sample_point"
  using sp_Init_ok(1) [OF first_monday_parsed]
  by (simp add: tp_regular_def yearly_def sample_point_def first_monday_def sp_Clear_def UNDEFINED_def
      du_fixed_def du_secs_def zero_duration_def one_year_def)

theorem timepoint_nearest_ok_witness:
  "\<exists>u w. tp_GetNext sharp sample_point sample_valid () = Some (True, u) \<and>
    tp_GetPrevious sharp sample_point sample_valid () = Some (True, w) \<and>
    valid_time u \<and> valid_time w \<and> lt_less_eq sample_valid u \<and> lt_less_eq w sample_valid \<and>
    tp_at sp_at sample_point (raw_seconds u) \<and> tp_at sp_at sample_point (raw_seconds w) \<and>
    (\<forall>x. tp_at sp_at sample_point x \<longrightarrow> x \<le> raw_seconds w \<or> raw_seconds u \<le> x)"
  by (rule timepoint_nearest_ok [OF sample_point_regular sample_valid_ok(1)]) (simp_all add: sample_valid_def)

end
