(* ===== verification/TimeDomain.thy ===== *)
theory TimeDomain
  imports TimePoint
begin

text \<open>
  \<open>util/time/timedomain_single.h\<close> and \<open>timedomain.h\<close>: intervals that recur, and expressions of union,
  intersection and subtraction over them, with their parser, their short form, and the test whether a time
  is inside. A pointer argument that may be \<open>NULL\<close> (the two boundaries) is a flag that says whether the
  caller wants the value. The recursion of the parser takes fuel; the fuel \<open>Init\<close> supplies, the length
  of the text, is enough for every text that \<open>PrintShort\<close> writes. Logging is left out.
\<close>

section \<open>TimeDomainSingle\<close>

datatype 'p td_single =
    PointDuration (start_time: "'p timepoint") (lasting: duration)
  | TwoPoints (start_time: "'p timepoint") (end_time: "'p timepoint")

type_synonym bounds = "localtime option \<times> localtime option"

definition wanted :: "bool \<Rightarrow> localtime \<Rightarrow> localtime option" where
  "wanted want t = (if want then Some t else None)"

definition next_start ::
    "('p, 'd) point_type \<Rightarrow> 'p timepoint \<Rightarrow> localtime \<Rightarrow> 'd \<Rightarrow> bool \<Rightarrow> localtime option option" where
  "next_start P tp current data want =
     (if want then do {
        s \<leftarrow> GetNextSecond current;
        (found, nxt) \<leftarrow> tp_GetNext P tp s data;
        Some (Some nxt)
      }
      else Some None)"

definition CheckDomain ::
    "('p, 'd) point_type \<Rightarrow> 'p timepoint \<Rightarrow> localtime \<Rightarrow> 'd \<Rightarrow> bool \<Rightarrow> localtime \<Rightarrow> localtime \<Rightarrow>
     bool \<Rightarrow> bool \<Rightarrow> (bool \<times> bounds) option" where
  "CheckDomain P start current data found_prev_domain prev_domain_start prev_domain_end want_prev want_next =
     (if \<not> found_prev_domain then do {
        n \<leftarrow> next_start P start current data want_next;
        Some (False, wanted want_prev lt_InfinitePast, n)
      }
      else if lt_less_eq prev_domain_start current \<and> lt_less current prev_domain_end then
        Some (True, wanted want_prev prev_domain_start, wanted want_next prev_domain_end)
      else do {
        n \<leftarrow> next_start P start current data want_next;
        Some (False, wanted want_prev prev_domain_end, n)
      })"

text \<open>The two derived classes; a new \<open>LocalTime\<close> is the infinite past.\<close>

definition single_CheckTime ::
    "('p, 'd) point_type \<Rightarrow> 'p td_single \<Rightarrow> localtime \<Rightarrow> 'd \<Rightarrow> bool \<Rightarrow> bool \<Rightarrow> (bool \<times> bounds) option" where
  "single_CheckTime P x current data want_prev want_next =
     (case x of
        PointDuration start d \<Rightarrow> do {
          (found, prev_domain_start) \<leftarrow> tp_GetPrevious P start current data;
          prev_domain_end \<leftarrow> (if found then plus_duration prev_domain_start d else Some lt_InfinitePast);
          CheckDomain P start current data found prev_domain_start prev_domain_end want_prev want_next
        }
      | TwoPoints start end_tp \<Rightarrow> do {
          (found, prev_domain_start) \<leftarrow> tp_GetPrevious P start current data;
          (found_prev_domain, prev_domain_end) \<leftarrow>
            (if found then do {
               s \<leftarrow> GetNextSecond prev_domain_start;
               tp_GetNext P end_tp s data
             }
             else Some (False, lt_InfinitePast));
          CheckDomain P start current data found_prev_domain prev_domain_start prev_domain_end want_prev want_next
        })"

definition single_Print :: "('p, 'd) point_type \<Rightarrow> 'p td_single \<Rightarrow> string option" where
  "single_Print P x =
     (case x of
        PointDuration start d \<Rightarrow> do {
          s \<leftarrow> tp_Print P start;
          Some (''starting at '' @ s @ '', lasting '' @ du_Print d)
        }
      | TwoPoints start end_tp \<Rightarrow> do {
          s \<leftarrow> tp_Print P start;
          e \<leftarrow> tp_Print P end_tp;
          Some (''between '' @ s @ '' and '' @ e)
        })"

definition single_PrintShort :: "('p, 'd) point_type \<Rightarrow> 'p td_single \<Rightarrow> string option" where
  "single_PrintShort P x =
     (case x of
        PointDuration start d \<Rightarrow> do {
          s \<leftarrow> tp_PrintShort P start;
          Some (''[('' @ s @ ''){'' @ du_PrintShort d @ ''}]'')
        }
      | TwoPoints start end_tp \<Rightarrow> do {
          s \<leftarrow> tp_PrintShort P start;
          e \<leftarrow> tp_PrintShort P end_tp;
          Some (''[('' @ s @ '')('' @ e @ '')]'')
        })"

text \<open>The messages "'c' expected".\<close>

definition expected :: "char \<Rightarrow> string" where
  "expected c = CHR 0x27 # c # CHR 0x27 # '' expected''"

text \<open>\<open>Create\<close>: the object (\<open>NULL\<close> is \<open>None\<close>), the end pointer and the message.\<close>

definition Create_end :: "'p td_single \<Rightarrow> string \<Rightarrow> 'p td_single option parsed" where
  "Create_end x s =
     (if at_ptr s \<noteq> CHR '']'' then (None, s, (expected (CHR '']'')))
      else (Some x, tl s, []))"

definition Create :: "('p, 'd) point_type \<Rightarrow> string \<Rightarrow> 'p td_single option parsed option" where
  "Create P start =
     (let s = SkipSpaces start in
      if at_ptr s \<noteq> CHR ''['' then Some (None, s, (expected (CHR ''['')))
      else
        let s = tl s in
        if at_ptr s \<noteq> CHR ''('' then Some (None, s, (expected (CHR ''('')))
        else do {
          (start_tp, s, msg) \<leftarrow> tp_Init P (tl s) (tp_new P);
          if msg \<noteq> [] then Some (None, s, msg)
          else if at_ptr s \<noteq> CHR '')'' then Some (None, s, (expected (CHR '')'')))
          else
            let s = tl s in
            if at_ptr s = CHR ''('' then do {
              (end_tp, s, msg) \<leftarrow> tp_Init P (tl s) (tp_new P);
              if msg \<noteq> [] then Some (None, s, msg)
              else if at_ptr s \<noteq> CHR '')'' then Some (None, s, (expected (CHR '')'')))
              else Some (Create_end (TwoPoints start_tp end_tp) (tl s))
            }
            else if at_ptr s = CHR ''{'' then do {
              (d, s, msg) \<leftarrow> du_Init (tl s) zero_duration;
              if msg \<noteq> [] then Some (None, s, msg)
              else if at_ptr s \<noteq> CHR ''}'' then Some (None, s, (expected (CHR ''}'')))
              else Some (Create_end (PointDuration start_tp d) (tl s))
            }
            else Some (None, s, (CHR 0x27 # CHR ''('' # CHR 0x27 # '' or '' @ expected (CHR ''{'')))
        })"

section \<open>TimeDomain\<close>

text \<open>The tree; \<open>root_ == NULL\<close> is \<open>None\<close>.\<close>

datatype 'p td_tree =
    TD_NONE "'p td_single"
  | TD_UNION "'p td_tree" "'p td_tree"
  | TD_INTERSECTION "'p td_tree" "'p td_tree"
  | TD_SUBTRACTION "'p td_tree" "'p td_tree"

type_synonym 'p timedomain = "'p td_tree option"

fun PrintSubTree :: "('p, 'd) point_type \<Rightarrow> 'p td_tree \<Rightarrow> bool \<Rightarrow> string option" where
  "PrintSubTree P (TD_NONE x) verbose = (if verbose then single_Print P x else single_PrintShort P x)"
| "PrintSubTree P (TD_UNION a b) verbose = do {
     s \<leftarrow> PrintSubTree P a verbose;
     t \<leftarrow> PrintSubTree P b verbose;
     Some (''['' @ s @ '' + '' @ t @ '']'')
   }"
| "PrintSubTree P (TD_INTERSECTION a b) verbose = do {
     s \<leftarrow> PrintSubTree P a verbose;
     t \<leftarrow> PrintSubTree P b verbose;
     Some (''['' @ s @ '' * '' @ t @ '']'')
   }"
| "PrintSubTree P (TD_SUBTRACTION a b) verbose = do {
     s \<leftarrow> PrintSubTree P a verbose;
     t \<leftarrow> PrintSubTree P b verbose;
     Some (''['' @ s @ '' - '' @ t @ '']'')
   }"

definition td_Print :: "('p, 'd) point_type \<Rightarrow> 'p timedomain \<Rightarrow> string option" where
  "td_Print P root = (case root of None \<Rightarrow> Some [] | Some t \<Rightarrow> PrintSubTree P t True)"

definition td_PrintShort :: "('p, 'd) point_type \<Rightarrow> 'p timedomain \<Rightarrow> string option" where
  "td_PrintShort P root = (case root of None \<Rightarrow> Some [] | Some t \<Rightarrow> PrintSubTree P t False)"

text \<open>
  The parser. It is entered with an empty message. \<open>ParseFactor\<close> calls \<open>ParseExp\<close> for a nested
  expression (the argument \<open>parse_exp\<close>); \<open>ParseTerm_loop\<close> and \<open>ParseExp_loop\<close> are the loops over
  the further factors and terms. The nesting and the loops take fuel. \<open>None\<close>: out of fuel, or a
  failing \<open>ASSERT\<close>.
\<close>

type_synonym 'p tree_parser = "string \<Rightarrow> 'p td_tree option parsed option"

definition ParseFactor :: "('p, 'd) point_type \<Rightarrow> 'p tree_parser \<Rightarrow> 'p tree_parser" where
  "ParseFactor P parse_exp start =
     (let s = SkipSpaces start in
      if at_ptr s \<noteq> CHR ''['' then Some (None, s, [])
      else if at_ptr (tl s) = CHR ''['' then do {
        (nested, endptr, msg) \<leftarrow> parse_exp (tl s);
        if nested = None \<and> msg \<noteq> [] then Some (None, endptr, msg)
        else
          let s = SkipSpaces endptr in
          if at_ptr s \<noteq> CHR '']'' then Some (None, s, expected (CHR '']''))
          else Some (nested, tl s, msg)
      }
      else do {
        (single, endptr, msg) \<leftarrow> Create P s;
        case single of
          None \<Rightarrow> Some (None, endptr, msg)
        | Some x \<Rightarrow> Some (Some (TD_NONE x), endptr, msg)
      })"

primrec ParseTerm_loop :: "nat \<Rightarrow> 'p tree_parser \<Rightarrow> 'p td_tree \<Rightarrow> 'p tree_parser" where
  "ParseTerm_loop 0 parse_factor first_factor endptr = None"
| "ParseTerm_loop (Suc k) parse_factor first_factor endptr =
     (let s = SkipSpaces endptr in
      if at_ptr s = CHR ''*'' then do {
        (second_factor, endptr, msg) \<leftarrow> parse_factor (tl s);
        case second_factor of
          None \<Rightarrow> Some (None, endptr, if msg = [] then ''Timedomain expression expected'' else msg)
        | Some second_factor \<Rightarrow> ParseTerm_loop k parse_factor (TD_INTERSECTION first_factor second_factor) endptr
      }
      else Some (Some first_factor, endptr, []))"

definition ParseTerm :: "nat \<Rightarrow> 'p tree_parser \<Rightarrow> 'p tree_parser" where
  "ParseTerm k parse_factor start = do {
     (first_factor, endptr, msg) \<leftarrow> parse_factor start;
     case first_factor of
       None \<Rightarrow> Some (None, endptr, msg)
     | Some first_factor \<Rightarrow> ParseTerm_loop k parse_factor first_factor endptr
   }"

primrec ParseExp_loop :: "nat \<Rightarrow> 'p tree_parser \<Rightarrow> 'p td_tree \<Rightarrow> 'p tree_parser" where
  "ParseExp_loop 0 parse_term first_term endptr = None"
| "ParseExp_loop (Suc k) parse_term first_term endptr =
     (let s = SkipSpaces endptr in
      if at_ptr s = CHR ''+'' \<or> at_ptr s = CHR ''-'' then do {
        let is_union = (at_ptr s = CHR ''+'');
        (second_term, endptr, msg) \<leftarrow> parse_term (tl s);
        case second_term of
          None \<Rightarrow> Some (None, endptr, if msg = [] then ''Timedomain expression expected'' else msg)
        | Some second_term \<Rightarrow>
            ParseExp_loop k parse_term
              (if is_union then TD_UNION first_term second_term else TD_SUBTRACTION first_term second_term) endptr
      }
      else Some (Some first_term, endptr, []))"

primrec ParseExp :: "nat \<Rightarrow> ('p, 'd) point_type \<Rightarrow> 'p tree_parser" where
  "ParseExp 0 P start = None"
| "ParseExp (Suc k) P start =
     (let parse_term = ParseTerm (Suc k) (ParseFactor P (ParseExp k P)) in do {
        (first_term, endptr, msg) \<leftarrow> parse_term start;
        case first_term of
          None \<Rightarrow> Some (None, endptr, msg)
        | Some first_term \<Rightarrow> ParseExp_loop (Suc k) parse_term first_term endptr
      })"

definition td_Init :: "('p, 'd) point_type \<Rightarrow> string \<Rightarrow> 'p timedomain parsed option" where
  "td_Init P start = ParseExp (Suc (length start)) P start"

text \<open>\<open>CopyFrom\<close>: print, and parse again.\<close>

definition CopyFrom :: "('p, 'd) point_type \<Rightarrow> 'p timedomain \<Rightarrow> 'p timedomain option" where
  "CopyFrom P other = do {
     other_str \<leftarrow> td_PrintShort P other;
     (root, error_msg) \<leftarrow> Init_string (td_Init P) other_str;
     ASSERT (error_msg = []);
     Some root
   }"

text \<open>\<open>std::min\<close> and \<open>std::max\<close> on times, and what \<open>CheckTime_Subtree\<close> makes of two answers.\<close>

definition lt_min :: "localtime \<Rightarrow> localtime \<Rightarrow> localtime" where
  "lt_min a b = (if lt_less b a then b else a)"

definition lt_max :: "localtime \<Rightarrow> localtime \<Rightarrow> localtime" where
  "lt_max a b = (if lt_less a b then b else a)"

definition bounds_outer :: "bounds \<Rightarrow> bounds \<Rightarrow> bounds" where
  "bounds_outer b1 b2 = (case (b1, b2) of ((prev1, next1), (prev2, next2)) \<Rightarrow>
     (combine_options lt_min prev1 prev2, combine_options lt_max next1 next2))"

definition bounds_inner :: "bounds \<Rightarrow> bounds \<Rightarrow> bounds" where
  "bounds_inner b1 b2 = (case (b1, b2) of ((prev1, next1), (prev2, next2)) \<Rightarrow>
     (combine_options lt_max prev1 prev2, combine_options lt_min next1 next2))"

definition check_union :: "bool \<times> bounds \<Rightarrow> bool \<times> bounds \<Rightarrow> bool \<times> bounds" where
  "check_union r1 r2 = (case (r1, r2) of ((in1, b1), (in2, b2)) \<Rightarrow>
     (in1 \<or> in2,
      if in1 then (if in2 then bounds_outer b1 b2 else b1)
      else if in2 then b2 else bounds_inner b1 b2))"

definition check_intersection :: "bool \<times> bounds \<Rightarrow> bool \<times> bounds \<Rightarrow> bool \<times> bounds" where
  "check_intersection r1 r2 = (case (r1, r2) of ((in1, b1), (in2, b2)) \<Rightarrow>
     (in1 \<and> in2,
      if in1 then (if in2 then bounds_inner b1 b2 else b2)
      else if in2 then b1 else bounds_outer b1 b2))"

fun CheckTime_Subtree ::
    "('p, 'd) point_type \<Rightarrow> 'p td_tree \<Rightarrow> localtime \<Rightarrow> 'd \<Rightarrow> bool \<Rightarrow> bool \<Rightarrow> (bool \<times> bounds) option" where
  "CheckTime_Subtree P (TD_NONE x) current data wp wn = single_CheckTime P x current data wp wn"
| "CheckTime_Subtree P (TD_UNION a b) current data wp wn = do {
     r1 \<leftarrow> CheckTime_Subtree P a current data wp wn;
     r2 \<leftarrow> CheckTime_Subtree P b current data wp wn;
     Some (check_union r1 r2)
   }"
| "CheckTime_Subtree P (TD_INTERSECTION a b) current data wp wn = do {
     r1 \<leftarrow> CheckTime_Subtree P a current data wp wn;
     r2 \<leftarrow> CheckTime_Subtree P b current data wp wn;
     Some (check_intersection r1 r2)
   }"
| "CheckTime_Subtree P (TD_SUBTRACTION a b) current data wp wn = do {
     r1 \<leftarrow> CheckTime_Subtree P a current data wp wn;
     r2 \<leftarrow> CheckTime_Subtree P b current data wp wn;
     Some (check_intersection r1 (map_prod Not id r2))
   }"

definition CheckTime_root ::
    "('p, 'd) point_type \<Rightarrow> 'p timedomain \<Rightarrow> localtime \<Rightarrow> 'd \<Rightarrow> bool \<Rightarrow> bool \<Rightarrow> (bool \<times> bounds) option" where
  "CheckTime_root P root current data wp wn =
     (case root of
        None \<Rightarrow> Some (False, wanted wp lt_InfinitePast, wanted wn lt_InfiniteFuture)
      | Some t \<Rightarrow> CheckTime_Subtree P t current data wp wn)"

text \<open>The searches for the true boundaries, \<open>n\<close> tries left.\<close>

fun find_prev_boundary ::
    "nat \<Rightarrow> ('p, 'd) point_type \<Rightarrow> 'p timedomain \<Rightarrow> bool \<Rightarrow> 'd \<Rightarrow> localtime \<Rightarrow> localtime option" where
  "find_prev_boundary 0 P root in_domain data trial = Some lt_InfinitePast"
| "find_prev_boundary (Suc n) P root in_domain data trial =
     (if \<not> IsFinite trial then Some lt_InfinitePast
      else do {
        before \<leftarrow> GetPrevSecond trial;
        (d, earlier_boundary, _) \<leftarrow> CheckTime_root P root before data True False;
        if d \<noteq> in_domain then Some trial
        else do {
          earlier \<leftarrow> earlier_boundary;
          find_prev_boundary n P root in_domain data earlier
        }
      })"

fun find_next_boundary ::
    "nat \<Rightarrow> ('p, 'd) point_type \<Rightarrow> 'p timedomain \<Rightarrow> bool \<Rightarrow> 'd \<Rightarrow> localtime \<Rightarrow> localtime option" where
  "find_next_boundary 0 P root in_domain data trial = Some lt_InfiniteFuture"
| "find_next_boundary (Suc n) P root in_domain data trial =
     (if \<not> IsFinite trial then Some lt_InfiniteFuture
      else do {
        (d, _, later_boundary) \<leftarrow> CheckTime_root P root trial data False True;
        if d \<noteq> in_domain then Some trial
        else do {
          later \<leftarrow> later_boundary;
          find_next_boundary n P root in_domain data later
        }
      })"

definition td_CheckTime ::
    "('p, 'd) point_type \<Rightarrow> 'p timedomain \<Rightarrow> localtime \<Rightarrow> 'd \<Rightarrow> bool \<Rightarrow> bool \<Rightarrow> (bool \<times> bounds) option" where
  "td_CheckTime P root current data wp wn = do {
     (in_domain, prev_trial, next_trial) \<leftarrow> CheckTime_root P root current data wp wn;
     prev \<leftarrow> (if wp then do {
         t \<leftarrow> prev_trial;
         b \<leftarrow> find_prev_boundary 50 P root in_domain data t;
         Some (Some b)
       } else Some None);
     nxt \<leftarrow> (if wn then do {
         t \<leftarrow> next_trial;
         b \<leftarrow> find_next_boundary 50 P root in_domain data t;
         Some (Some b)
       } else Some None);
     Some (in_domain, prev, nxt)
   }"

definition ForwardIntoDomain ::
    "('p, 'd) point_type \<Rightarrow> 'p timedomain \<Rightarrow> localtime \<Rightarrow> 'd \<Rightarrow> localtime option" where
  "ForwardIntoDomain P root current data = do {
     (in_domain, _, nxt) \<leftarrow> td_CheckTime P root current data False True;
     n \<leftarrow> nxt;
     Some (if in_domain then current else n)
   }"

definition ReverseIntoDomain ::
    "('p, 'd) point_type \<Rightarrow> 'p timedomain \<Rightarrow> localtime \<Rightarrow> 'd \<Rightarrow> localtime option" where
  "ReverseIntoDomain P root current data = do {
     (in_domain, prev, _) \<leftarrow> td_CheckTime P root current data True False;
     p \<leftarrow> prev;
     if in_domain then Some current else GetPrevSecond p
   }"

text \<open>\<open>None\<close> of the inner option: \<open>GetNextDomain\<close> returns \<open>false\<close>.\<close>

definition GetNextDomain ::
    "('p, 'd) point_type \<Rightarrow> 'p timedomain \<Rightarrow> localtime \<Rightarrow> 'd \<Rightarrow> (localtime \<times> localtime) option option" where
  "GetNextDomain P root current data = do {
     (in_domain, prev, nxt) \<leftarrow> td_CheckTime P root current data True True;
     outside \<leftarrow> nxt;
     if in_domain \<and> IsInfinite outside then Some None
     else do {
       next_start \<leftarrow>
         (if in_domain then do {
            (inside, _, start) \<leftarrow> td_CheckTime P root outside data True True;
            ASSERT (\<not> inside);
            start
          }
          else Some outside);
       if IsInfinite next_start then Some None
       else do {
         (inside, _, next_end) \<leftarrow> td_CheckTime P root next_start data True True;
         ASSERT inside;
         next_end \<leftarrow> next_end;
         Some (if IsInfinite next_end then None else Some (next_start, next_end))
       }
     }
   }"


section \<open>Reading back what PrintShort writes\<close>

fun single_readable :: "('p \<Rightarrow> bool) \<Rightarrow> 'p td_single \<Rightarrow> bool" where
  "single_readable readable (PointDuration start d) = (tp_readable readable start \<and> du_readable d)"
| "single_readable readable (TwoPoints start end_tp) = (tp_readable readable start \<and> tp_readable readable end_tp)"

fun tree_readable :: "('p \<Rightarrow> bool) \<Rightarrow> 'p td_tree \<Rightarrow> bool" where
  "tree_readable readable (TD_NONE x) = single_readable readable x"
| "tree_readable readable (TD_UNION a b) = (tree_readable readable a \<and> tree_readable readable b)"
| "tree_readable readable (TD_INTERSECTION a b) = (tree_readable readable a \<and> tree_readable readable b)"
| "tree_readable readable (TD_SUBTRACTION a b) = (tree_readable readable a \<and> tree_readable readable b)"

fun depth :: "'p td_tree \<Rightarrow> nat" where
  "depth (TD_NONE x) = 0"
| "depth (TD_UNION a b) = max (depth a) (depth b) + 2"
| "depth (TD_INTERSECTION a b) = max (depth a) (depth b) + 2"
| "depth (TD_SUBTRACTION a b) = max (depth a) (depth b) + 2"

lemma SkipSpaces_simps [simp]:
  "SkipSpaces [] = []" "SkipSpaces (CHR ''['' # r) = CHR ''['' # r" "SkipSpaces (CHR '']'' # r) = CHR '']'' # r"
  "SkipSpaces (CHR '' '' # r) = SkipSpaces r" "SkipSpaces (CHR ''+'' # r) = CHR ''+'' # r"
  "SkipSpaces (CHR ''-'' # r) = CHR ''-'' # r" "SkipSpaces (CHR ''*'' # r) = CHR ''*'' # r"
  by (simp_all add: SkipSpaces_def spacelike_def)

lemma ParseFactor_blank: "ParseFactor P e (CHR '' '' # r) = ParseFactor P e r"
  by (simp add: ParseFactor_def)

text \<open>A parser that reads \<open>s\<close> as the tree \<open>t\<close>, whatever follows.\<close>

definition reads :: "'p tree_parser \<Rightarrow> string \<Rightarrow> 'p td_tree \<Rightarrow> bool" where
  "reads p s t \<longleftrightarrow> (\<forall>r. p (s @ r) = Some (Some t, r, []))"

lemma ParseTerm_reads:
  assumes "reads (ParseFactor P e) s t"
  shows "at_ptr (SkipSpaces r) \<noteq> CHR ''*'' \<Longrightarrow> ParseTerm (Suc k) (ParseFactor P e) (s @ r) = Some (Some t, r, [])"
    and "at_ptr (SkipSpaces r) \<noteq> CHR ''*'' \<Longrightarrow> ParseTerm (Suc k) (ParseFactor P e) (CHR '' '' # s @ r) = Some (Some t, r, [])"
  using assms by (simp_all add: ParseTerm_def reads_def ParseFactor_blank)

lemma ParseTerm_reads_two:
  assumes "reads (ParseFactor P e) s a" "reads (ParseFactor P e) s' b"
  shows "ParseTerm (Suc (Suc k)) (ParseFactor P e) (s @ '' * '' @ s' @ '']'' @ r) = Some (Some (TD_INTERSECTION a b), '']'' @ r, [])"
  using assms by (simp add: ParseTerm_def reads_def ParseFactor_blank)

lemma ParseFactor_nested:
  assumes "\<And>r. e (CHR ''['' # s @ '']'' @ r) = Some (Some t, '']'' @ r, [])"
  shows "reads (ParseFactor P e) (''['' @ CHR ''['' # s @ '']'') t"
  using assms by (simp add: reads_def ParseFactor_def)

lemma node_reads:
  fixes P :: "('p, 'd) point_type"
  assumes e: "reads (ParseFactor P (ParseExp j P)) s a" "reads (ParseFactor P (ParseExp j P)) s' b"
    and j: "j = Suc i" and s: "s = CHR ''['' # s0"
  shows "reads (ParseFactor P (ParseExp (Suc j) P)) (''['' @ s @ '' + '' @ s' @ '']'') (TD_UNION a b)"
    and "reads (ParseFactor P (ParseExp (Suc j) P)) (''['' @ s @ '' - '' @ s' @ '']'') (TD_SUBTRACTION a b)"
    and "reads (ParseFactor P (ParseExp (Suc j) P)) (''['' @ s @ '' * '' @ s' @ '']'') (TD_INTERSECTION a b)"
proof -
  have u: "ParseExp (Suc j) P (s @ '' + '' @ s' @ '']'' @ r) = Some (Some (TD_UNION a b), '']'' @ r, [])" for r
    using ParseTerm_reads(1) [OF e(1), of "'' + '' @ s' @ '']'' @ r" j] ParseTerm_reads(2) [OF e(2), of "'']'' @ r" j]
    by (simp add: j)
  have m: "ParseExp (Suc j) P (s @ '' - '' @ s' @ '']'' @ r) = Some (Some (TD_SUBTRACTION a b), '']'' @ r, [])" for r
    using ParseTerm_reads(1) [OF e(1), of "'' - '' @ s' @ '']'' @ r" j] ParseTerm_reads(2) [OF e(2), of "'']'' @ r" j]
    by (simp add: j)
  have i: "ParseExp (Suc j) P (s @ '' * '' @ s' @ '']'' @ r) = Some (Some (TD_INTERSECTION a b), '']'' @ r, [])" for r
    using ParseTerm_reads_two [OF e, of i r] by (simp add: j)
  show "reads (ParseFactor P (ParseExp (Suc j) P)) (''['' @ s @ '' + '' @ s' @ '']'') (TD_UNION a b)"
    using ParseFactor_nested [of "ParseExp (Suc j) P" "s0 @ '' + '' @ s'" "TD_UNION a b" P] u s by (simp del: ParseExp.simps)
  show "reads (ParseFactor P (ParseExp (Suc j) P)) (''['' @ s @ '' - '' @ s' @ '']'') (TD_SUBTRACTION a b)"
    using ParseFactor_nested [of "ParseExp (Suc j) P" "s0 @ '' - '' @ s'" "TD_SUBTRACTION a b" P] m s by (simp del: ParseExp.simps)
  show "reads (ParseFactor P (ParseExp (Suc j) P)) (''['' @ s @ '' * '' @ s' @ '']'') (TD_INTERSECTION a b)"
    using ParseFactor_nested [of "ParseExp (Suc j) P" "s0 @ '' * '' @ s'" "TD_INTERSECTION a b" P] i s by (simp del: ParseExp.simps)
qed


definition printed_as :: "('p, 'd) point_type \<Rightarrow> 'p td_tree \<Rightarrow> string \<Rightarrow> bool" where
  "printed_as P t s \<longleftrightarrow> PrintSubTree P t False = Some (CHR ''['' # s) \<and> NUL \<notin> set s \<and> depth t \<le> length s \<and>
     (\<forall>k \<ge> depth t. reads (ParseFactor P (ParseExp k P)) (CHR ''['' # s) t)"

lemma printed_node:
  fixes P :: "('p, 'd) point_type"
  assumes a: "printed_as P a s" and b: "printed_as P b s'"
  shows "printed_as P (TD_UNION a b) (CHR ''['' # s @ '' + '' @ CHR ''['' # s' @ '']'')"
    and "printed_as P (TD_INTERSECTION a b) (CHR ''['' # s @ '' * '' @ CHR ''['' # s' @ '']'')"
    and "printed_as P (TD_SUBTRACTION a b) (CHR ''['' # s @ '' - '' @ CHR ''['' # s' @ '']'')"
proof -
  have k: "\<exists>i. k = Suc (Suc i) \<and> reads (ParseFactor P (ParseExp (Suc i) P)) (CHR ''['' # s) a \<and>
      reads (ParseFactor P (ParseExp (Suc i) P)) (CHR ''['' # s') b" if "max (depth a) (depth b) + 2 \<le> k" for k
    using that a b by (intro exI [of _ "k - 2"]) (simp add: printed_as_def)
  have r: "reads (ParseFactor P (ParseExp k P)) (''['' @ (CHR ''['' # s) @ '' + '' @ (CHR ''['' # s') @ '']'') (TD_UNION a b)"
    "reads (ParseFactor P (ParseExp k P)) (''['' @ (CHR ''['' # s) @ '' * '' @ (CHR ''['' # s') @ '']'') (TD_INTERSECTION a b)"
    "reads (ParseFactor P (ParseExp k P)) (''['' @ (CHR ''['' # s) @ '' - '' @ (CHR ''['' # s') @ '']'') (TD_SUBTRACTION a b)"
    if "max (depth a) (depth b) + 2 \<le> k" for k
    using k [OF that] node_reads [OF _ _ refl refl] by blast+
  show "printed_as P (TD_UNION a b) (CHR ''['' # s @ '' + '' @ CHR ''['' # s' @ '']'')"
    "printed_as P (TD_INTERSECTION a b) (CHR ''['' # s @ '' * '' @ CHR ''['' # s' @ '']'')"
    "printed_as P (TD_SUBTRACTION a b) (CHR ''['' # s @ '' - '' @ CHR ''['' # s' @ '']'')"
    using a b r by (simp_all add: printed_as_def del: ParseExp.simps)
qed

context printable_point
begin

lemma single_print_law:
  assumes "single_readable readable x"
  shows "\<exists>s. single_PrintShort P x = Some (''[('' @ s) \<and> NUL \<notin> set s \<and> (\<forall>r. Create P (''[('' @ s @ r) = Some (Some x, r, []))"
proof (cases x)
  case (PointDuration tp d)
  then have ok: "tp_readable readable tp" "du_readable d" using assms by simp_all
  obtain s where s: "tp_PrintShort P tp = Some s" "NUL \<notin> set s"
    "\<And>r. tp_Init P (s @ CHR '')'' # r) (tp_new P) = Some (tp, CHR '')'' # r, [])" using tp_print_law [OF ok(1)] by blast
  have "stops_duration (CHR ''}'' # r)" for r by (simp add: stops_duration_def IS_DIGIT_def)
  then have d: "du_Init (du_PrintShort d @ CHR ''}'' # r) zero_duration = Some (d, CHR ''}'' # r, [])" for r
    using du_Init_text [OF ok(2)] by blast
  show ?thesis using s d PointDuration
    by (intro exI [of _ "s @ ''){'' @ du_PrintShort d @ ''}]''"]) (simp add: single_PrintShort_def Create_def Create_end_def)
next
  case (TwoPoints tp tq)
  then have ok: "tp_readable readable tp" "tp_readable readable tq" using assms by simp_all
  obtain s where s: "tp_PrintShort P tp = Some s" "NUL \<notin> set s"
    "\<And>r. tp_Init P (s @ CHR '')'' # r) (tp_new P) = Some (tp, CHR '')'' # r, [])" using tp_print_law [OF ok(1)] by blast
  obtain s' where s': "tp_PrintShort P tq = Some s'" "NUL \<notin> set s'"
    "\<And>r. tp_Init P (s' @ CHR '')'' # r) (tp_new P) = Some (tq, CHR '')'' # r, [])" using tp_print_law [OF ok(2)] by blast
  show ?thesis using s s' TwoPoints
    by (intro exI [of _ "s @ '')('' @ s' @ '')]''"]) (simp add: single_PrintShort_def Create_def Create_end_def)
qed

lemma tree_print_law:
  assumes "tree_readable readable t"
  shows "\<exists>s. printed_as P t s"
  using assms
proof (induction t)
  case (TD_NONE x)
  then obtain s where s: "single_PrintShort P x = Some (''[('' @ s)" "NUL \<notin> set s"
    "\<And>r. Create P (''[('' @ s @ r) = Some (Some x, r, [])" using single_print_law [of x] by auto
  show ?case
    by (rule exI [of _ "CHR ''('' # s"]) (use s in \<open>auto simp: printed_as_def reads_def ParseFactor_def\<close>)
next
  case (TD_UNION a b)
  then show ?case using printed_node by fastforce
next
  case (TD_INTERSECTION a b)
  then show ?case using printed_node by fastforce
next
  case (TD_SUBTRACTION a b)
  then show ?case using printed_node by fastforce
qed

end

definition td_readable :: "('p \<Rightarrow> bool) \<Rightarrow> 'p timedomain \<Rightarrow> bool" where
  "td_readable readable root = (case root of None \<Rightarrow> True | Some t \<Rightarrow> tree_readable readable t)"

lemma td_Init_empty: "td_Init P [] = Some (None, [], [])"
  by (simp add: td_Init_def ParseTerm_def ParseFactor_def)

lemma td_Init_printed:
  assumes "printed_as P t s"
  shows "td_Init P (CHR ''['' # s) = Some (Some t, [], [])"
proof -
  have "reads (ParseFactor P (ParseExp (Suc (length s)) P)) (CHR ''['' # s) t"
    using assms unfolding printed_as_def by (simp del: ParseExp.simps)
  then have "ParseTerm (Suc (Suc (length s))) (ParseFactor P (ParseExp (Suc (length s)) P)) (CHR ''['' # s) = Some (Some t, [], [])"
    using ParseTerm_reads(1) [of P _ "CHR ''['' # s" t "[]"] by (simp del: ParseExp.simps)
  then show ?thesis by (simp add: td_Init_def ParseExp.simps(2) [of "Suc (length s)"] del: ParseExp.simps)
qed

context printable_point
begin

lemma CopyFrom_readable:
  assumes "td_readable readable root"
  shows "CopyFrom P root = Some root"
proof (cases root)
  case None
  then show ?thesis by (simp add: CopyFrom_def td_PrintShort_def Init_string_def td_Init_empty c_str_def)
next
  case (Some t)
  then obtain s where s: "printed_as P t s" using tree_print_law [of t] assms by (auto simp: td_readable_def)
  then have "td_PrintShort P root = Some (CHR ''['' # s)" "c_str (CHR ''['' # s) = CHR ''['' # s"
    using Some by (simp_all add: td_PrintShort_def printed_as_def)
  then show ?thesis using td_Init_printed [OF s] Some by (simp add: CopyFrom_def Init_string_def)
qed

end

text \<open>
  C11. A \<open>TimeDomain<SharpPoint>\<close> is copied by printing it and parsing the text. For every tree whose points
  are objects the parser can produce and whose durations have members from 0 to \<open>2 ^ 31 - 1\<close> (offsets
  may be negated), and for the empty domain, the copy succeeds and is the same tree.
\<close>
theorem timedomain_copy_ok:
  assumes "td_readable sp_readable root"
  shows "CopyFrom sharp root = Some root"
  using assms by (rule sharp_texts.CopyFrom_readable)

text \<open>Weekends without the first Monday of January, which is written with an offset.\<close>

definition sample_domain :: "sharppoint timedomain" where
  "sample_domain = Some (TD_SUBTRACTION
     (TD_UNION (TD_NONE (PointDuration \<lparr>tp_point = sp_Clear\<lparr>sp_day_in_week := 1, sp_hour := 0, sp_minute := 0, sp_second := 0\<rparr>,
          tp_offset = zero_duration\<rparr> (zero_duration\<lparr>du_days := 1\<rparr>)))
        (TD_NONE (PointDuration \<lparr>tp_point = sp_Clear\<lparr>sp_day_in_week := 7, sp_hour := 0, sp_minute := 0, sp_second := 0\<rparr>,
          tp_offset = zero_duration\<rparr> (zero_duration\<lparr>du_days := 1\<rparr>))))
     (TD_NONE (TwoPoints sample_point \<lparr>tp_point = first_monday, tp_offset = zero_duration\<lparr>du_days := 1\<rparr>\<rparr>)))"

lemma sample_domain_readable: "td_readable sp_readable sample_domain"
proof -
  have "sp_readable (sp_Clear\<lparr>sp_day_in_week := d, sp_hour := 0, sp_minute := 0, sp_second := 0\<rparr>)" if "1 \<le> d" "d \<le> 7" for d
    using that by (auto simp: sp_readable_def sp_ok_def sp_Clear_def opt_range_def SetDefaultValues_def AllEmpty_def UNDEFINED_def
        day_fits_month_def)
  moreover have "sp_readable first_monday" using sp_Init_ok [OF first_monday_parsed] by (simp add: sp_readable_def)
  ultimately show ?thesis
    by (simp add: sample_domain_def td_readable_def tp_readable_def sample_point_def du_readable_def zero_duration_def)
qed

theorem timedomain_copy_ok_witness: "CopyFrom sharp sample_domain = Some sample_domain"
  by (rule timedomain_copy_ok [OF sample_domain_readable])

section \<open>The parser always returns\<close>

locale consuming_point =
  fixes P :: "('p, 'd) point_type"
  assumes consume_law: "\<exists>p e msg. pt_Init P s (pt_new P) = Some (p, e, msg) \<and> length e \<le> length s"

lemma SkipSpaces_length: "length (SkipSpaces s) \<le> length s"
  by (simp add: SkipSpaces_def length_dropWhile_le)

lemma strtol_length: "length (snd (strtol s)) \<le> length s"
proof -
  let ?s1 = "dropWhile isspace s"
  have s1: "length ?s1 \<le> length s" by (rule length_dropWhile_le)
  then have "length (dropWhile IS_DIGIT (tl ?s1)) \<le> length s" "length (dropWhile IS_DIGIT ?s1) \<le> length s"
    using length_dropWhile_le [of IS_DIGIT "tl ?s1"] length_dropWhile_le [of IS_DIGIT ?s1] by simp_all
  then show ?thesis by (simp add: strtol_def Let_def)
qed

lemma du_ParseNext_length: "length (fst (du_ParseNext s c v)) \<le> length s"
  using strtol_length [of "tl s"] by (auto simp: du_ParseNext_def Let_def split: prod.splits)

lemma ParseNext_length: "length (fst (ParseNext cast s c lo hi v)) \<le> length s"
  using strtol_length [of "tl s"] by (auto simp: ParseNext_def Let_def split: prod.splits)

text \<open>A step that returns, with a pointer that has not moved back.\<close>

definition consumes :: "'a parsed option \<Rightarrow> string \<Rightarrow> bool" where
  "consumes r s \<longleftrightarrow> (\<exists>x e msg. r = Some (x, e, msg) \<and> length e \<le> length s)"

lemma consumesE: "consumes r s \<Longrightarrow> (\<And>x e msg. r = Some (x, e, msg) \<Longrightarrow> length e \<le> length s \<Longrightarrow> Q) \<Longrightarrow> Q"
  by (auto simp: consumes_def)

lemma consumes_and_then:
  "consumes r s \<Longrightarrow> (\<And>x e. r = Some (x, e, []) \<Longrightarrow> consumes (f x e) e) \<Longrightarrow> consumes (and_then r f) s"
  unfolding consumes_def and_then_def by (fastforce split: if_splits)

lemma consumes_step:
  "length (fst r) \<le> length s \<Longrightarrow> consumes (du_step upd r d) s" "length (fst r) \<le> length s \<Longrightarrow> consumes (parse_member upd' r sp) s"
  by (auto simp: consumes_def du_step_def parse_member_def split: prod.splits)

lemma du_Init_consumes: "consumes (du_Init s d) s"
proof -
  have days: "consumes (du_parse_days p d) p" for p d
    using du_ParseNext_length [of p "CHR ''w''" 0] du_ParseNext_length [of "fst (du_ParseNext p (CHR ''w'') 0)" "CHR ''d''" 0]
    by (auto simp: consumes_def du_parse_days_def Let_def split: prod.splits)
  have start: "length (fst (du_ParseNext (SkipSpaces s) c v)) \<le> length s" for c v
    using du_ParseNext_length [of "SkipSpaces s" c v] SkipSpaces_length [of s] by simp
  show ?thesis unfolding du_Init_def
    by (intro consumes_and_then consumes_step(1) du_ParseNext_length days start)
qed


lemma ParseDay_consumes:
  assumes "sp_month sp = UNDEFINED \<or> 1 \<le> sp_month sp \<and> sp_month sp \<le> 12"
  shows "consumes (ParseDay p sp) p"
proof -
  obtain n where n: "MaxDaysInMonth (sp_year sp) (sp_month sp) = Some n"
    using assms MaxDaysInMonth_bounds [of "sp_month sp" "sp_year sp"] by (auto simp: MaxDaysInMonth_def UNDEFINED_def)
  have w: "length (fst (snd (ParseWeekDaySpec p sp))) \<le> length p"
    by (auto simp: ParseWeekDaySpec_def Let_def)
  have "consumes (parse_member upd (ParseNext int8 p c lo hi v) sp) p" for upd c lo hi v
    by (intro consumes_step(2) ParseNext_length)
  then show ?thesis using n w
    by (auto simp: ParseDay_def consumes_def split: prod.splits)
qed

lemma InitFromSpec_consumes: "consumes (InitFromSpec s sp_Clear) s"
proof -
  have day: "consumes (ParseDay p sp) p"
    if "parse_member sp_month_update (ParseNext int8 q (CHR ''M'') 1 12 (sp_month sp0)) sp0 = Some (sp, p, [])"
      "parse_member sp_year_update (ParseNext int32 s (CHR ''y'') 1970 INFINITY_INT (sp_year sp_Clear)) sp_Clear = Some (sp0, q, [])"
    for p q sp sp0
  proof (rule ParseDay_consumes)
    have "sp_month sp0 = UNDEFINED" using that(2) by (rule parse_member_SomeD) (simp add: sp_Clear_def)
    then show "sp_month sp = UNDEFINED \<or> 1 \<le> sp_month sp \<and> sp_month sp \<le> 12"
      using that(1) by (auto elim!: parse_member_SomeD)
  qed
  have week_day: "consumes (ParseDay p' sp') p'"
    if "parse_member sp_month_update (ParseNext int8 q (CHR ''M'') 1 12 (sp_month sp0)) sp0 = Some (sp, p, [])"
      "parse_member sp_week_in_year_update (ParseNext int8 p (CHR ''w'') 1 53 (sp_week_in_year sp)) sp = Some (sp', p', [])"
      "\<not> sp_month sp \<noteq> UNDEFINED" for p q sp sp0 p' sp'
  proof (rule ParseDay_consumes)
    have "sp_month sp' = sp_month sp" using that(2) by (rule parse_member_SomeD) simp
    then show "sp_month sp' = UNDEFINED \<or> 1 \<le> sp_month sp' \<and> sp_month sp' \<le> 12" using that(3) by simp
  qed
  have middle: "consumes (if sp_month sp \<noteq> UNDEFINED then ParseDay e sp
        else and_then
          (parse_member sp_week_in_year_update (ParseNext int8 e (CHR ''w'') 1 53 (sp_week_in_year sp)) sp)
          (\<lambda>sp e.
             if sp_week_in_year sp \<noteq> UNDEFINED then
               parse_member sp_day_in_week_update (ParseNext int8 e (CHR ''t'') 1 7 (sp_day_in_week sp)) sp
             else ParseDay e sp)) e"
    if r: "and_then (parse_member sp_year_update (ParseNext int32 s (CHR ''y'') 1970 INFINITY_INT (sp_year sp_Clear)) sp_Clear)
       (\<lambda>sp e. parse_member sp_month_update (ParseNext int8 e (CHR ''M'') 1 12 (sp_month sp)) sp) = Some (sp, e, [])" for sp e
  proof -
    obtain sp0 q where q: "parse_member sp_year_update (ParseNext int32 s (CHR ''y'') 1970 INFINITY_INT (sp_year sp_Clear)) sp_Clear = Some (sp0, q, [])"
      "parse_member sp_month_update (ParseNext int8 q (CHR ''M'') 1 12 (sp_month sp0)) sp0 = Some (sp, e, [])"
      using r by (rule and_then_SomeD)
    show ?thesis
    proof (cases "sp_month sp \<noteq> UNDEFINED")
      case True
      then show ?thesis using day [OF q(2,1)] by simp
    next
      case False
      have "consumes (if sp_week_in_year sp' \<noteq> UNDEFINED then
               parse_member sp_day_in_week_update (ParseNext int8 e' (CHR ''t'') 1 7 (sp_day_in_week sp')) sp'
             else ParseDay e' sp') e'"
        if "parse_member sp_week_in_year_update (ParseNext int8 e (CHR ''w'') 1 53 (sp_week_in_year sp)) sp = Some (sp', e', [])" for sp' e'
        using week_day [OF q(2) that False] consumes_step(2) [OF ParseNext_length] by simp
      then show ?thesis using False by (simp add: consumes_and_then consumes_step(2) ParseNext_length)
    qed
  qed
  show ?thesis unfolding InitFromSpec_def
    by (intro consumes_and_then middle) (auto intro: consumes_step(2) ParseNext_length)
qed

lemma sp_Init_consumes: "consumes (sp_Init s sp_Clear) s"
proof -
  obtain sp e msg where i: "InitFromSpec (SkipSpaces s) sp_Clear = Some (sp, e, msg)" "length e \<le> length (SkipSpaces s)"
    using InitFromSpec_consumes by (rule consumesE)
  have "msg = [] \<Longrightarrow> \<exists>sp'. SetDefaultValues sp = Some sp'"
    using SetDefaultValues_ok [OF InitFromSpec_ok] i(1) by blast
  then show ?thesis using i SkipSpaces_length [of s] by (auto simp: consumes_def sp_Init_def)
qed

text \<open>A tree parser that returns on every text of up to \<open>n\<close> characters, and reads something when it finds a tree.\<close>

definition progresses :: "'a option parsed option \<Rightarrow> string \<Rightarrow> bool" where
  "progresses r s \<longleftrightarrow> (\<exists>x e msg. r = Some (x, e, msg) \<and> length e \<le> length s \<and> (x \<noteq> None \<longrightarrow> length e < length s))"

lemma progresses_None: "progresses (Some (None, e, msg)) s \<longleftrightarrow> length e \<le> length s"
  by (simp add: progresses_def)

definition progressive :: "'p tree_parser \<Rightarrow> nat \<Rightarrow> bool" where
  "progressive p n \<longleftrightarrow> (\<forall>s. length s \<le> n \<longrightarrow> progresses (p s) s)"

lemma progressive_at:
  assumes "progressive p n" "length s \<le> n"
  obtains x e msg where "p s = Some (x, e, msg)" "length e \<le> length s" "x \<noteq> None \<longrightarrow> length e < length s"
  using assms unfolding progressive_def progresses_def by blast

lemma ParseTerm_loop_returns:
  "progressive p n \<Longrightarrow> length s < k \<Longrightarrow> length s \<le> n \<Longrightarrow> consumes (ParseTerm_loop k p t s) s"
proof (induction k arbitrary: t s)
  case (Suc k)
  let ?s = "SkipSpaces s"
  show ?case
  proof (cases "at_ptr ?s = CHR ''*''")
    case True
    then have ne: "?s \<noteq> []" by auto
    have l: "length (tl ?s) < length s" using ne SkipSpaces_length [of s] by (cases ?s) auto
    then have "length (tl ?s) \<le> n" using Suc.prems(3) by simp
    with Suc.prems(1) obtain x e msg where e: "p (tl ?s) = Some (x, e, msg)" "length e \<le> length (tl ?s)" by (rule progressive_at)
    have "length e < k" "length e \<le> n" using e(2) l Suc.prems by simp_all
    then have "consumes (ParseTerm_loop k p t' e) e" for t' using Suc.IH [OF Suc.prems(1)] by blast
    then have "consumes (ParseTerm_loop k p t' e) s" for t' using e(2) l by (fastforce simp: consumes_def)
    then show ?thesis using True e l by (cases x) (simp_all add: consumes_def)
  qed (simp add: consumes_def)
qed simp

lemma ParseExp_loop_returns:
  "progressive p n \<Longrightarrow> length s < k \<Longrightarrow> length s \<le> n \<Longrightarrow> consumes (ParseExp_loop k p t s) s"
proof (induction k arbitrary: t s)
  case (Suc k)
  let ?s = "SkipSpaces s"
  show ?case
  proof (cases "at_ptr ?s = CHR ''+'' \<or> at_ptr ?s = CHR ''-''")
    case True
    then have ne: "?s \<noteq> []" by auto
    have l: "length (tl ?s) < length s" using ne SkipSpaces_length [of s] by (cases ?s) auto
    then have "length (tl ?s) \<le> n" using Suc.prems(3) by simp
    with Suc.prems(1) obtain x e msg where e: "p (tl ?s) = Some (x, e, msg)" "length e \<le> length (tl ?s)" by (rule progressive_at)
    have "length e < k" "length e \<le> n" using e(2) l Suc.prems by simp_all
    then have "consumes (ParseExp_loop k p t' e) e" for t' using Suc.IH [OF Suc.prems(1)] by blast
    then have "consumes (ParseExp_loop k p t' e) s" for t' using e(2) l by (fastforce simp: consumes_def)
    then show ?thesis using True e l by (cases x) (simp_all add: consumes_def Let_def)
  qed (simp add: consumes_def)
qed simp

lemma ParseTerm_progressive:
  assumes "progressive p n" "n \<le> k" shows "progressive (ParseTerm (Suc k) p) n"
  unfolding progressive_def
proof (intro allI impI)
  fix s :: string assume s: "length s \<le> n"
  with assms(1) obtain x e msg where e: "p s = Some (x, e, msg)" "length e \<le> length s" "x \<noteq> None \<longrightarrow> length e < length s"
    by (rule progressive_at)
  show "progresses (ParseTerm (Suc k) p s) s"
  proof (cases x)
    case (Some t)
    then have "consumes (ParseTerm_loop (Suc k) p t e) e" using e s assms by (intro ParseTerm_loop_returns) auto
    then show ?thesis using Some e by (auto simp: ParseTerm_def consumes_def progresses_def)
  qed (use e in \<open>simp add: ParseTerm_def progresses_def\<close>)
qed

lemma ParseExp_step:
  assumes "progressive (ParseFactor P (ParseExp k P)) k" "length s \<le> k"
  shows "progresses (ParseExp (Suc k) P s) s"
proof -
  let ?p = "ParseTerm (Suc k) (ParseFactor P (ParseExp k P))"
  have p: "progressive ?p k" using assms(1) by (rule ParseTerm_progressive) simp
  obtain x e msg where e: "?p s = Some (x, e, msg)" "length e \<le> length s" "x \<noteq> None \<longrightarrow> length e < length s"
    using p assms(2) by (rule progressive_at)
  show ?thesis
  proof (cases x)
    case (Some t)
    then have "consumes (ParseExp_loop (Suc k) ?p t e) e" using e p assms(2) by (intro ParseExp_loop_returns) auto
    then show ?thesis using Some e by (auto simp: consumes_def progresses_def Let_def simp del: ParseExp_loop.simps)
  qed (use e in \<open>simp add: progresses_def Let_def\<close>)
qed

context consuming_point
begin

lemma tp_Init_consumes: "consumes (tp_Init P s (tp_new P)) s"
proof -
  obtain p e msg where p: "pt_Init P (SkipSpaces s) (pt_new P) = Some (p, e, msg)" "length e \<le> length (SkipSpaces s)"
    using consume_law [of "SkipSpaces s"] by blast
  have e: "length e \<le> length s" using p(2) SkipSpaces_length [of s] by simp
  obtain d e' msg' where d: "du_Init (tl e) zero_duration = Some (d, e', msg')" "length e' \<le> length (tl e)"
    using du_Init_consumes by (rule consumesE)
  show ?thesis using p(1) e d by (auto simp: tp_Init_def tp_new_def consumes_def Let_def)
qed

lemma Create_progresses: "progresses (Create P s) s"
proof -
  have skip: "length (SkipSpaces s) \<le> length s" by (rule SkipSpaces_length)
  let ?s = "tl (tl (SkipSpaces s))"
  obtain a e m where a: "tp_Init P ?s (tp_new P) = Some (a, e, m)" "length e \<le> length ?s" using tp_Init_consumes by (rule consumesE)
  obtain b e1 m1 where b: "tp_Init P (tl (tl e)) (tp_new P) = Some (b, e1, m1)" "length e1 \<le> length (tl (tl e))"
    using tp_Init_consumes by (rule consumesE)
  obtain d e2 m2 where d: "du_Init (tl (tl e)) zero_duration = Some (d, e2, m2)" "length e2 \<le> length (tl (tl e))"
    using du_Init_consumes by (rule consumesE)
  have le: "length e \<le> length s" "length e1 \<le> length s" "length e2 \<le> length s" "length (tl (SkipSpaces s)) \<le> length s"
    "length (tl e) \<le> length s" "length (tl e1) \<le> length s" "length (tl e2) \<le> length s"
    using a(2) b(2) d(2) skip by simp_all
  show ?thesis
  proof (cases "at_ptr (SkipSpaces s) = CHR ''[''")
    case False
    then show ?thesis using skip by (simp add: progresses_def Create_def)
  next
    case True
    then have "SkipSpaces s \<noteq> []" by auto
    then have "0 < length (SkipSpaces s)" by (rule length_greater_0_conv [THEN iffD2])
    then have "0 < length s" "length ?s < length s" using skip unfolding length_tl by linarith+
    then have lt: "length (tl (tl e1)) < length s" "length (tl (tl e2)) < length s" using a(2) b(2) d(2) by simp_all
    have e: "progresses (Some (Create_end x (tl e1))) s" "progresses (Some (Create_end x (tl e2))) s" for x :: "'a td_single"
      using lt le by (simp_all add: progresses_def Create_end_def)
    note none = progresses_None [THEN iffD2, OF le(1)] progresses_None [THEN iffD2, OF le(2)]
      progresses_None [THEN iffD2, OF le(3)] progresses_None [THEN iffD2, OF le(4)] progresses_None [THEN iffD2, OF le(5)]
    show ?thesis using True by (simp add: Create_def Let_def a(1) b(1) d(1) e none)
  qed
qed

lemma ParseFactor_progressive:
  assumes "n \<noteq> 0 \<Longrightarrow> progressive parse_exp (n - 1)"
  shows "progressive (ParseFactor P parse_exp) n"
  unfolding progressive_def
proof (intro allI impI)
  fix s :: string assume s: "length s \<le> n"
  let ?s = "SkipSpaces s"
  have skip: "length ?s \<le> length s" by (rule SkipSpaces_length)
  consider (none) "at_ptr ?s \<noteq> CHR ''[''" | (nested) "at_ptr ?s = CHR ''[''" "at_ptr (tl ?s) = CHR ''[''"
    | (single) "at_ptr ?s = CHR ''[''" "at_ptr (tl ?s) \<noteq> CHR ''[''" by blast
  then show "progresses (ParseFactor P parse_exp s) s"
  proof cases
    case none
    then show ?thesis using skip by (simp add: ParseFactor_def progresses_def)
  next
    case nested
    then have ne: "?s \<noteq> []" by auto
    then have l: "length (tl ?s) < length s" using skip by (cases ?s) auto
    then have n: "progressive parse_exp (n - 1)" "length (tl ?s) \<le> n - 1" using assms s by auto
    obtain x e msg where e: "parse_exp (tl ?s) = Some (x, e, msg)" "length e \<le> length (tl ?s)"
      using n by (rule progressive_at)
    have "length (SkipSpaces e) < length s" using SkipSpaces_length [of e] e(2) l by simp
    then show ?thesis using nested e l by (auto simp: ParseFactor_def progresses_def Let_def)
  next
    case single
    have "progresses (Create P ?s) ?s" by (rule Create_progresses)
    then show ?thesis using single skip by (auto simp: ParseFactor_def progresses_def split: option.splits)
  qed
qed

lemma ParseExp_progressive: "progressive (ParseExp (Suc k) P) k"
proof (induction k)
  case 0
  have f: "progressive (ParseFactor P (ParseExp 0 P)) 0" by (rule ParseFactor_progressive) simp
  show ?case unfolding progressive_def using ParseExp_step [OF f] by blast
next
  case (Suc k)
  have f: "progressive (ParseFactor P (ParseExp (Suc k) P)) (Suc k)" using Suc.IH
    by (intro ParseFactor_progressive) (simp del: ParseExp.simps)
  show ?case unfolding progressive_def using ParseExp_step [OF f] by blast
qed

lemma td_Init_returns: "progresses (td_Init P s) s"
  using ParseExp_progressive [of "length s"] unfolding td_Init_def progressive_def by blast

end

interpretation sharp_consuming: consuming_point sharp
  by unfold_locales (use sp_Init_consumes in \<open>auto simp: sharp_def consumes_def\<close>)


text \<open>
  C12. \<open>TimeDomain<SharpPoint>::Init\<close> returns for every text, without a failing assertion and within the
  fuel of the model, and never leaves the end pointer behind the start of the text; when it
  builds a tree it has read at least one character.
\<close>
theorem timedomain_parse_returns:
  "\<exists>root e msg. td_Init sharp s = Some (root, e, msg) \<and> length e \<le> length s \<and> (root \<noteq> None \<longrightarrow> length e < length s)"
  using sharp_consuming.td_Init_returns unfolding progresses_def .

theorem timedomain_parse_returns_witness:
  "\<exists>root e msg. td_Init sharp ''[(h21){h2}] * [['' = Some (root, e, msg) \<and>
     length e \<le> length ''[(h21){h2}] * [['' \<and> (root \<noteq> None \<longrightarrow> length e < length ''[(h21){h2}] * [['')"
  by (rule timedomain_parse_returns)

end
