(* ===== verification/TimeDomain_Set.thy ===== *)
theory TimeDomain_Set
  imports TimeDomain
begin

text \<open>
  What a time domain means: a set of times, given in seconds. The test of a time against a domain
  (\<open>CheckTime\<close> of \<open>timedomain_single.h\<close> and \<open>timedomain.h\<close>) is shown to decide membership in that set,
  and the searches built on it to find its true boundaries. Domains are \<^emph>\<open>regular\<close> when their points
  recur every year and their durations and offsets, given in days and smaller units, are at most a year.
\<close>

section \<open>The set of a domain\<close>

fun single_at :: "('p \<Rightarrow> int \<Rightarrow> bool) \<Rightarrow> 'p td_single \<Rightarrow> int \<Rightarrow> bool" where
  "single_at point_at (PointDuration start d) x \<longleftrightarrow> (\<exists>s. tp_at point_at start s \<and> s \<le> x \<and> x < s + du_secs d)"
| "single_at point_at (TwoPoints start end_tp) x \<longleftrightarrow>
     (\<exists>s. tp_at point_at start s \<and> s \<le> x \<and> (\<forall>e. tp_at point_at end_tp e \<longrightarrow> e \<le> s \<or> x < e))"

fun tree_at :: "('p \<Rightarrow> int \<Rightarrow> bool) \<Rightarrow> 'p td_tree \<Rightarrow> int \<Rightarrow> bool" where
  "tree_at point_at (TD_NONE x) t = single_at point_at x t"
| "tree_at point_at (TD_UNION a b) t = (tree_at point_at a t \<or> tree_at point_at b t)"
| "tree_at point_at (TD_INTERSECTION a b) t = (tree_at point_at a t \<and> tree_at point_at b t)"
| "tree_at point_at (TD_SUBTRACTION a b) t = (tree_at point_at a t \<and> \<not> tree_at point_at b t)"

text \<open>The times at which one of the single domains of an expression may begin or end.\<close>

fun single_mark :: "('p \<Rightarrow> int \<Rightarrow> bool) \<Rightarrow> 'p td_single \<Rightarrow> int \<Rightarrow> bool" where
  "single_mark point_at (PointDuration start d) x \<longleftrightarrow> tp_at point_at start x \<or> tp_at point_at start (x - du_secs d)"
| "single_mark point_at (TwoPoints start end_tp) x \<longleftrightarrow> tp_at point_at start x \<or> tp_at point_at end_tp x"

fun tree_mark :: "('p \<Rightarrow> int \<Rightarrow> bool) \<Rightarrow> 'p td_tree \<Rightarrow> int \<Rightarrow> bool" where
  "tree_mark point_at (TD_NONE x) t = single_mark point_at x t"
| "tree_mark point_at (TD_UNION a b) t = (tree_mark point_at a t \<or> tree_mark point_at b t)"
| "tree_mark point_at (TD_INTERSECTION a b) t = (tree_mark point_at a t \<or> tree_mark point_at b t)"
| "tree_mark point_at (TD_SUBTRACTION a b) t = (tree_mark point_at a t \<or> tree_mark point_at b t)"

fun single_regular :: "('p \<Rightarrow> bool) \<Rightarrow> 'p td_single \<Rightarrow> bool" where
  "single_regular regular (PointDuration start d) \<longleftrightarrow>
     tp_regular regular start \<and> du_fixed d \<and> 0 \<le> du_secs d \<and> du_secs d \<le> one_year"
| "single_regular regular (TwoPoints start end_tp) \<longleftrightarrow> tp_regular regular start \<and> tp_regular regular end_tp"

fun tree_regular :: "('p \<Rightarrow> bool) \<Rightarrow> 'p td_tree \<Rightarrow> bool" where
  "tree_regular regular (TD_NONE x) = single_regular regular x"
| "tree_regular regular (TD_UNION a b) = (tree_regular regular a \<and> tree_regular regular b)"
| "tree_regular regular (TD_INTERSECTION a b) = (tree_regular regular a \<and> tree_regular regular b)"
| "tree_regular regular (TD_SUBTRACTION a b) = (tree_regular regular a \<and> tree_regular regular b)"

section \<open>Answers about a set\<close>

text \<open>
  The answer of a test of \<open>t\<close> against a set \<open>A\<close>: whether \<open>t\<close> is in it, and on request a time at or
  before and a time after \<open>t\<close>, out of a set \<open>M\<close>, between which membership does not change.
\<close>

definition same_on :: "(int \<Rightarrow> bool) \<Rightarrow> int \<Rightarrow> int \<Rightarrow> bool" where
  "same_on A a b \<longleftrightarrow> (\<forall>x y. a \<le> x \<and> x < b \<and> a \<le> y \<and> y < b \<longrightarrow> A x = A y)"

definition prev_ok :: "(int \<Rightarrow> bool) \<Rightarrow> (int \<Rightarrow> bool) \<Rightarrow> localtime \<Rightarrow> localtime \<Rightarrow> bool" where
  "prev_ok A M t p \<longleftrightarrow> valid_time p \<and> M (raw_seconds p) \<and> raw_seconds p \<le> raw_seconds t \<and>
     raw_seconds t - 3 * one_year \<le> raw_seconds p \<and> same_on A (raw_seconds p) (raw_seconds t + 1)"

definition next_ok :: "(int \<Rightarrow> bool) \<Rightarrow> (int \<Rightarrow> bool) \<Rightarrow> localtime \<Rightarrow> localtime \<Rightarrow> bool" where
  "next_ok A M t n \<longleftrightarrow> valid_time n \<and> M (raw_seconds n) \<and> raw_seconds t < raw_seconds n \<and>
     raw_seconds n \<le> raw_seconds t + 3 * one_year \<and> same_on A (raw_seconds t) (raw_seconds n)"

definition answers :: "(int \<Rightarrow> bool) \<Rightarrow> (int \<Rightarrow> bool) \<Rightarrow> localtime \<Rightarrow> bool \<Rightarrow> bool \<Rightarrow> (bool \<times> bounds) option \<Rightarrow> bool" where
  "answers A M t wp wn r \<longleftrightarrow> (\<exists>p n. r = Some (A (raw_seconds t), wanted wp p, wanted wn n) \<and>
     (wp \<longrightarrow> prev_ok A M t p) \<and> (wn \<longrightarrow> next_ok A M t n))"

lemma answersI:
  "r = Some (A (raw_seconds t), wanted wp p, wanted wn n) \<Longrightarrow> (wp \<Longrightarrow> prev_ok A M t p) \<Longrightarrow> (wn \<Longrightarrow> next_ok A M t n) \<Longrightarrow>
   answers A M t wp wn r"
  unfolding answers_def by blast

lemma answersE:
  assumes "answers A M t wp wn r"
  obtains p n where "r = Some (A (raw_seconds t), wanted wp p, wanted wn n)" "wp \<longrightarrow> prev_ok A M t p" "wn \<longrightarrow> next_ok A M t n"
  using assms unfolding answers_def by blast

lemma same_onI:
  assumes "\<And>x. a \<le> x \<Longrightarrow> x < b \<Longrightarrow> A x = v" shows "same_on A a b"
  unfolding same_on_def
proof (intro allI impI, elim conjE)
  fix x y assume x: "a \<le> x" "x < b" and y: "a \<le> y" "y < b"
  from x have "A x = v" by (rule assms)
  moreover from y have "A y = v" by (rule assms)
  ultimately show "A x = A y" by simp
qed

lemma same_onD: "same_on A a b \<Longrightarrow> a \<le> x \<Longrightarrow> x < b \<Longrightarrow> a \<le> y \<Longrightarrow> y < b \<Longrightarrow> A x = A y"
  unfolding same_on_def by blast

lemma same_on_join:
  assumes "same_on A a b" "same_on A c d" "a \<le> x" "x < b" "c \<le> y" "y < d" "A x = A y" "c \<le> b"
  shows "same_on A a d"
proof (rule same_onI [where v = "A x"])
  fix z assume "a \<le> z" "z < d"
  then show "A z = A x" using same_onD [OF assms(1), of z x] same_onD [OF assms(2), of z y] assms(3-8) by fastforce
qed

subsection \<open>The answers for union, intersection and subtraction\<close>

lemma combine_wanted [simp]: "combine_options f (wanted w a) (wanted w b) = wanted w (f a b)"
  by (simp add: wanted_def)

lemma lt_min_cases:
  assumes "valid_time a" "valid_time b"
  shows "lt_min a b \<in> {a, b}" "raw_seconds (lt_min a b) = min (raw_seconds a) (raw_seconds b)"
  using lt_less_iff [OF assms(2,1)] by (auto simp: lt_min_def)

lemma lt_max_cases:
  assumes "valid_time a" "valid_time b"
  shows "lt_max a b \<in> {a, b}" "raw_seconds (lt_max a b) = max (raw_seconds a) (raw_seconds b)"
  using lt_less_iff [OF assms] by (auto simp: lt_max_def)

lemma prev_ok_same: "prev_ok A M t p \<Longrightarrow> raw_seconds p \<le> x \<Longrightarrow> x \<le> raw_seconds t \<Longrightarrow> A x = A (raw_seconds t)"
  unfolding prev_ok_def by (elim conjE, erule same_onD) simp_all

lemma next_ok_same: "next_ok A M t n \<Longrightarrow> raw_seconds t \<le> x \<Longrightarrow> x < raw_seconds n \<Longrightarrow> A x = A (raw_seconds t)"
  unfolding next_ok_def by (elim conjE, erule same_onD) simp_all

text \<open>
  A set that agrees with \<open>A\<close> where \<open>A\<close> does not change inherits its boundaries (one operand decides);
  both decide together when the value can only change where both change (outer) or either does (inner).
\<close>

lemma prev_ok_decides:
  assumes "prev_ok A M t p" "\<And>x. A x = A (raw_seconds t) \<Longrightarrow> C x = C (raw_seconds t)" "\<And>x. M x \<Longrightarrow> N x"
  shows "prev_ok C N t p"
proof -
  have "same_on C (raw_seconds p) (raw_seconds t + 1)"
    by (rule same_onI, rule assms(2), rule prev_ok_same [OF assms(1)]) simp_all
  then show ?thesis using assms(1,3) by (simp add: prev_ok_def)
qed

lemma next_ok_decides:
  assumes "next_ok A M t p" "\<And>x. A x = A (raw_seconds t) \<Longrightarrow> C x = C (raw_seconds t)" "\<And>x. M x \<Longrightarrow> N x"
  shows "next_ok C N t p"
proof -
  have "same_on C (raw_seconds t) (raw_seconds p)"
    by (rule same_onI, rule assms(2), rule next_ok_same [OF assms(1)]) simp_all
  then show ?thesis using assms(1,3) by (simp add: next_ok_def)
qed

lemma prev_ok_outer:
  assumes "prev_ok A M t p" "prev_ok B M' t q" "\<And>x. M x \<or> M' x \<Longrightarrow> N x"
    "\<And>x. A x = A (raw_seconds t) \<or> B x = B (raw_seconds t) \<Longrightarrow> C x = C (raw_seconds t)"
  shows "prev_ok C N t (lt_min p q)"
proof -
  have "prev_ok C N t p" "prev_ok C N t q" using assms by (auto intro: prev_ok_decides)
  then show ?thesis using lt_min_cases(1) [of p q] by (auto simp: prev_ok_def)
qed

lemma next_ok_outer:
  assumes "next_ok A M t p" "next_ok B M' t q" "\<And>x. M x \<or> M' x \<Longrightarrow> N x"
    "\<And>x. A x = A (raw_seconds t) \<or> B x = B (raw_seconds t) \<Longrightarrow> C x = C (raw_seconds t)"
  shows "next_ok C N t (lt_max p q)"
proof -
  have "next_ok C N t p" "next_ok C N t q" using assms by (auto intro: next_ok_decides)
  then show ?thesis using lt_max_cases(1) [of p q] by (auto simp: next_ok_def)
qed

lemma prev_ok_inner:
  assumes "prev_ok A M t p" "prev_ok B M' t q" "\<And>x. M x \<or> M' x \<Longrightarrow> N x"
    "\<And>x. A x = A (raw_seconds t) \<Longrightarrow> B x = B (raw_seconds t) \<Longrightarrow> C x = C (raw_seconds t)"
  shows "prev_ok C N t (lt_max p q)"
proof -
  have v: "valid_time p" "valid_time q" using assms(1,2) by (simp_all add: prev_ok_def)
  note m = lt_max_cases [OF v]
  have "C x = C (raw_seconds t)" if "raw_seconds (lt_max p q) \<le> x" "x < raw_seconds t + 1" for x
    using that prev_ok_same [OF assms(1), of x] prev_ok_same [OF assms(2), of x] unfolding m(2) by (intro assms(4)) simp_all
  then have "same_on C (raw_seconds (lt_max p q)) (raw_seconds t + 1)" by (rule same_onI)
  then show ?thesis using m assms(1-3) by (auto simp: prev_ok_def)
qed

lemma next_ok_inner:
  assumes "next_ok A M t p" "next_ok B M' t q" "\<And>x. M x \<or> M' x \<Longrightarrow> N x"
    "\<And>x. A x = A (raw_seconds t) \<Longrightarrow> B x = B (raw_seconds t) \<Longrightarrow> C x = C (raw_seconds t)"
  shows "next_ok C N t (lt_min p q)"
proof -
  have v: "valid_time p" "valid_time q" using assms(1,2) by (simp_all add: next_ok_def)
  note m = lt_min_cases [OF v]
  have "C x = C (raw_seconds t)" if "raw_seconds t \<le> x" "x < raw_seconds (lt_min p q)" for x
    using that next_ok_same [OF assms(1), of x] next_ok_same [OF assms(2), of x] unfolding m(2) by (intro assms(4)) simp_all
  then have "same_on C (raw_seconds t) (raw_seconds (lt_min p q))" by (rule same_onI)
  then show ?thesis using m assms(1-3) by (auto simp: next_ok_def)
qed

lemma answers_outer:
  assumes "answers A M t wp wn (Some (a, b1))" "answers B M' t wp wn (Some (b, b2))" "\<And>x. M x \<or> M' x \<Longrightarrow> N x"
    "\<And>x. A x = A (raw_seconds t) \<or> B x = B (raw_seconds t) \<Longrightarrow> C x = C (raw_seconds t)"
  shows "answers C N t wp wn (Some (C (raw_seconds t), bounds_outer b1 b2))"
proof -
  obtain p n where 1: "Some (a, b1) = Some (A (raw_seconds t), wanted wp p, wanted wn n)" "wp \<longrightarrow> prev_ok A M t p" "wn \<longrightarrow> next_ok A M t n"
    using assms(1) by (rule answersE)
  obtain q m where 2: "Some (b, b2) = Some (B (raw_seconds t), wanted wp q, wanted wn m)" "wp \<longrightarrow> prev_ok B M' t q" "wn \<longrightarrow> next_ok B M' t m"
    using assms(2) by (rule answersE)
  show ?thesis
  proof (rule answersI [where p = "lt_min p q" and n = "lt_max n m"])
    show "prev_ok C N t (lt_min p q)" if wp
      using 1(2) [THEN mp, OF that] 2(2) [THEN mp, OF that] assms(3,4) by (rule prev_ok_outer)
    show "next_ok C N t (lt_max n m)" if wn
      using 1(3) [THEN mp, OF that] 2(3) [THEN mp, OF that] assms(3,4) by (rule next_ok_outer)
  qed (use 1(1) 2(1) in \<open>simp add: bounds_outer_def\<close>)
qed

lemma answers_inner:
  assumes "answers A M t wp wn (Some (a, b1))" "answers B M' t wp wn (Some (b, b2))" "\<And>x. M x \<or> M' x \<Longrightarrow> N x"
    "\<And>x. A x = A (raw_seconds t) \<Longrightarrow> B x = B (raw_seconds t) \<Longrightarrow> C x = C (raw_seconds t)"
  shows "answers C N t wp wn (Some (C (raw_seconds t), bounds_inner b1 b2))"
proof -
  obtain p n where 1: "Some (a, b1) = Some (A (raw_seconds t), wanted wp p, wanted wn n)" "wp \<longrightarrow> prev_ok A M t p" "wn \<longrightarrow> next_ok A M t n"
    using assms(1) by (rule answersE)
  obtain q m where 2: "Some (b, b2) = Some (B (raw_seconds t), wanted wp q, wanted wn m)" "wp \<longrightarrow> prev_ok B M' t q" "wn \<longrightarrow> next_ok B M' t m"
    using assms(2) by (rule answersE)
  show ?thesis
  proof (rule answersI [where p = "lt_max p q" and n = "lt_min n m"])
    show "prev_ok C N t (lt_max p q)" if wp
      using 1(2) [THEN mp, OF that] 2(2) [THEN mp, OF that] assms(3,4) by (rule prev_ok_inner)
    show "next_ok C N t (lt_min n m)" if wn
      using 1(3) [THEN mp, OF that] 2(3) [THEN mp, OF that] assms(3,4) by (rule next_ok_inner)
  qed (use 1(1) 2(1) in \<open>simp add: bounds_inner_def\<close>)
qed

lemma answers_decides:
  assumes "answers A M t wp wn (Some (b, bs))" "\<And>x. A x = A (raw_seconds t) \<Longrightarrow> C x = C (raw_seconds t)" "\<And>x. M x \<Longrightarrow> N x"
  shows "answers C N t wp wn (Some (C (raw_seconds t), bs))"
proof -
  obtain p n where 1: "Some (b, bs) = Some (A (raw_seconds t), wanted wp p, wanted wn n)" "wp \<longrightarrow> prev_ok A M t p" "wn \<longrightarrow> next_ok A M t n"
    using assms(1) by (rule answersE)
  show ?thesis
  proof (rule answersI [where p = p and n = n])
    show "prev_ok C N t p" if wp using 1(2) [THEN mp, OF that] assms(2,3) by (rule prev_ok_decides)
    show "next_ok C N t n" if wn using 1(3) [THEN mp, OF that] assms(2,3) by (rule next_ok_decides)
  qed (use 1(1) in simp)
qed

lemma answers_Some: "answers A M t wp wn r \<Longrightarrow> \<exists>bs. r = Some (A (raw_seconds t), bs)"
  by (auto simp: answers_def)

lemma answers_union:
  assumes "answers A M t wp wn (Some r1)" "answers B M' t wp wn (Some r2)"
  shows "answers (\<lambda>x. A x \<or> B x) (\<lambda>x. M x \<or> M' x) t wp wn (Some (check_union r1 r2))" (is "answers ?C ?N _ _ _ _")
proof -
  obtain b1 b2 where r: "r1 = (A (raw_seconds t), b1)" "r2 = (B (raw_seconds t), b2)"
    using assms [THEN answers_Some] by auto
  consider "A (raw_seconds t)" "B (raw_seconds t)" | "A (raw_seconds t)" "\<not> B (raw_seconds t)"
    | "\<not> A (raw_seconds t)" "B (raw_seconds t)" | "\<not> A (raw_seconds t)" "\<not> B (raw_seconds t)" by blast
  then show ?thesis
  proof cases
    case 1
    then show ?thesis
      using answers_outer [OF assms [unfolded r], where C = ?C and N = ?N] by (simp add: r check_union_def)
  next
    case 2
    then show ?thesis using answers_decides [OF assms(1) [unfolded r], where C = ?C and N = ?N] by (simp add: r check_union_def)
  next
    case 3
    then show ?thesis using answers_decides [OF assms(2) [unfolded r], where C = ?C and N = ?N] by (simp add: r check_union_def)
  next
    case 4
    then show ?thesis
      using answers_inner [OF assms [unfolded r], where C = ?C and N = ?N] by (simp add: r check_union_def)
  qed
qed

lemma answers_intersection:
  assumes "answers A M t wp wn (Some r1)" "answers B M' t wp wn (Some r2)"
  shows "answers (\<lambda>x. A x \<and> B x) (\<lambda>x. M x \<or> M' x) t wp wn (Some (check_intersection r1 r2))" (is "answers ?C ?N _ _ _ _")
proof -
  obtain b1 b2 where r: "r1 = (A (raw_seconds t), b1)" "r2 = (B (raw_seconds t), b2)"
    using assms [THEN answers_Some] by auto
  consider "A (raw_seconds t)" "B (raw_seconds t)" | "A (raw_seconds t)" "\<not> B (raw_seconds t)"
    | "\<not> A (raw_seconds t)" "B (raw_seconds t)" | "\<not> A (raw_seconds t)" "\<not> B (raw_seconds t)" by blast
  then show ?thesis
  proof cases
    case 1
    then show ?thesis
      using answers_inner [OF assms [unfolded r], where C = ?C and N = ?N] by (simp add: r check_intersection_def)
  next
    case 2
    then show ?thesis using answers_decides [OF assms(2) [unfolded r], where C = ?C and N = ?N] by (simp add: r check_intersection_def)
  next
    case 3
    then show ?thesis using answers_decides [OF assms(1) [unfolded r], where C = ?C and N = ?N] by (simp add: r check_intersection_def)
  next
    case 4
    then show ?thesis
      using answers_outer [OF assms [unfolded r], where C = ?C and N = ?N] by (simp add: r check_intersection_def)
  qed
qed

lemma answers_Not:
  assumes "answers B M t wp wn (Some r)"
  shows "answers (\<lambda>x. \<not> B x) M t wp wn (Some (map_prod Not id r))"
proof -
  obtain bs where r: "r = (B (raw_seconds t), bs)" using assms [THEN answers_Some] by auto
  show ?thesis using answers_decides [OF assms [unfolded r], where C = "\<lambda>x. \<not> B x" and N = M] by (simp add: r)
qed

section \<open>Single domains\<close>

lemma GetNextSecond_ok:
  assumes "valid_time t"
  obtains s where "GetNextSecond t = Some s" "valid_time s" "raw_seconds s = raw_seconds t + 1"
  using IncrementSecond_ok [OF assms, of 1] valid_time_nonneg [OF assms] unfolding GetNextSecond_def by auto

lemma GetPrevSecond_ok:
  assumes "valid_time t" "0 < raw_seconds t"
  obtains s where "GetPrevSecond t = Some s" "valid_time s" "raw_seconds s = raw_seconds t - 1"
  using IncrementSecond_ok [OF assms(1), of "- 1"] assms(2) unfolding GetPrevSecond_def by auto

text \<open>The window in which the answers are guaranteed: 1981 to 2989.\<close>

definition domain_start :: int where "domain_start = year_secs 1981"

definition domain_end :: int where "domain_end = year_secs 2990"

lemma domain_window: "domain_start = 347155200" "domain_end = 32188147200"
  by (simp_all add: domain_start_def domain_end_def year_secs_def year_start_def)

text \<open>
  Both formats give \<open>CheckDomain\<close> the last start \<open>s\<close> at or before the time and the end \<open>e\<close> that
  belongs to it. The set then contains exactly the times from \<open>s\<close> to \<open>e\<close>, up to the next start.
\<close>

definition last_domain :: "(int \<Rightarrow> bool) \<Rightarrow> (int \<Rightarrow> bool) \<Rightarrow> localtime \<Rightarrow> localtime \<Rightarrow> localtime \<Rightarrow> bool" where
  "last_domain S A t s e \<longleftrightarrow> valid_time s \<and> valid_time e \<and> S (raw_seconds s) \<and> raw_seconds s \<le> raw_seconds t \<and>
     raw_seconds t - 2 * one_year \<le> raw_seconds s \<and> raw_seconds s \<le> raw_seconds e \<and> raw_seconds e \<le> raw_seconds s + 2 * one_year + 1 \<and>
     (\<forall>x. raw_seconds s \<le> x \<and> (\<forall>y. raw_seconds s < y \<and> y \<le> x \<longrightarrow> \<not> S y) \<longrightarrow> A x = (x < raw_seconds e)) \<and>
     (\<forall>x. raw_seconds s \<le> x \<and> x < raw_seconds e \<longrightarrow> A x) \<and> (\<forall>y. S y \<and> y \<le> raw_seconds t \<longrightarrow> y \<le> raw_seconds s)"

context recurring_point
begin

lemma next_start_ok:
  assumes "tp_regular regular start" "valid_time t" "domain_start \<le> raw_seconds t" "raw_seconds t < domain_end"
  obtains n where "next_start P start t data w = Some (wanted w n)" "valid_time n" "tp_at point_at start (raw_seconds n)"
    "raw_seconds t < raw_seconds n" "raw_seconds n \<le> raw_seconds t + 2 * one_year + 1"
    "\<forall>y. tp_at point_at start y \<and> raw_seconds t < y \<longrightarrow> raw_seconds n \<le> y"
proof -
  obtain s where s: "GetNextSecond t = Some s" "valid_time s" "raw_seconds s = raw_seconds t + 1"
    using assms(2) by (rule GetNextSecond_ok)
  have w: "window_start + one_year \<le> raw_seconds s" "raw_seconds s < window_end - one_year"
    using assms(3,4) s(3) by (simp_all add: domain_window window_values)
  obtain n where n: "tp_GetNext P start s data = Some (True, n)" "valid_time n" "tp_at point_at start (raw_seconds n)"
      "raw_seconds s \<le> raw_seconds n" "raw_seconds n \<le> raw_seconds s + 2 * one_year"
      "\<And>x. raw_seconds s \<le> x \<Longrightarrow> tp_at point_at start x \<Longrightarrow> raw_seconds n \<le> x"
    using tp_next [OF assms(1)] s(2) w unfolding finds_next_def by blast
  show thesis
  proof (rule that)
    show "next_start P start t data w = Some (wanted w n)" using s(1) n(1) by (simp add: next_start_def wanted_def)
    show "\<forall>y. tp_at point_at start y \<and> raw_seconds t < y \<longrightarrow> raw_seconds n \<le> y" using n(6) s(3) by simp
  qed (use n s(3) in simp_all)
qed

lemma CheckDomain_ok:
  assumes "tp_regular regular start" "valid_time t" "domain_start \<le> raw_seconds t" "raw_seconds t < domain_end"
    and d: "last_domain (tp_at point_at start) A t s e"
    and M: "\<And>x. tp_at point_at start x \<Longrightarrow> M x" "M (raw_seconds e)"
  shows "answers A M t wp wn (CheckDomain P start t data True s e wp wn)"
proof -
  note d' = d [unfolded last_domain_def]
  have se: "valid_time s" "valid_time e" "lt_less_eq s t"
    using d' lt_less_iff [OF assms(2), of s] by (simp_all add: lt_less_eq_iff)
  obtain n where n: "next_start P start t data wn = Some (wanted wn n)" "valid_time n" "tp_at point_at start (raw_seconds n)"
    "raw_seconds t < raw_seconds n" "raw_seconds n \<le> raw_seconds t + 2 * one_year + 1"
    "\<forall>y. tp_at point_at start y \<and> raw_seconds t < y \<longrightarrow> raw_seconds n \<le> y"
    using assms(1-4) by (rule next_start_ok [where w = wn])
  have A: "A x = (x < raw_seconds e)" if "raw_seconds s \<le> x" "x < raw_seconds n" for x
  proof -
    have "\<not> tp_at point_at start y" if y: "raw_seconds s < y" "y \<le> x" for y
    proof
      assume "tp_at point_at start y"
      then have "y \<le> raw_seconds t \<longrightarrow> y \<le> raw_seconds s" "raw_seconds t < y \<longrightarrow> raw_seconds n \<le> y" using n(6) d' by blast+
      then show False using y \<open>x < raw_seconds n\<close> by linarith
    qed
    then show ?thesis using d' that by blast
  qed
  have t: "A (raw_seconds t) = lt_less t e" using A [of "raw_seconds t"] d' n(4) lt_less_iff [OF assms(2) se(2)] by simp
  show ?thesis
  proof (cases "lt_less t e")
    case True
    then have l: "raw_seconds t < raw_seconds e" using lt_less_iff [OF assms(2) se(2)] by simp
    have in_e: "A x = True" if "raw_seconds s \<le> x" "x < raw_seconds e" for x using d' that by blast
    have "same_on A (raw_seconds s) (raw_seconds t + 1)" by (rule same_onI, rule in_e) (use l in simp_all)
    moreover have "same_on A (raw_seconds t) (raw_seconds e)" by (rule same_onI, rule in_e) (use d' in simp_all)
    ultimately have "prev_ok A M t s" "next_ok A M t e"
      using d' M l by (simp_all add: prev_ok_def next_ok_def window_values)
    then show ?thesis using True se(3) t by (intro answersI [where p = s and n = e]) (simp_all add: CheckDomain_def)
  next
    case False
    then have l: "raw_seconds e \<le> raw_seconds t" using lt_less_iff [OF assms(2) se(2)] by simp
    have out_e: "A x = False" if "raw_seconds e \<le> x" "x < raw_seconds n" for x using A [of x] d' that by simp
    have "same_on A (raw_seconds e) (raw_seconds t + 1)" by (rule same_onI, rule out_e) (use n(4) in simp_all)
    moreover have "same_on A (raw_seconds t) (raw_seconds n)" by (rule same_onI, rule out_e) (use l in simp_all)
    ultimately have "prev_ok A M t e" "next_ok A M t n"
      using d' M n(2-5) l by (simp_all add: prev_ok_def next_ok_def window_values)
    then show ?thesis using False se(3) t n(1) by (intro answersI [where p = e and n = n]) (simp_all add: CheckDomain_def)
  qed
qed

lemma single_CheckTime_ok:
  assumes "single_regular regular x" "valid_time t" "domain_start \<le> raw_seconds t" "raw_seconds t < domain_end"
  shows "answers (single_at point_at x) (single_mark point_at x) t wp wn (single_CheckTime P x t data wp wn)"
proof -
  have start: "tp_regular regular (start_time x)" using assms(1) by (cases x) simp_all
  have "window_start + 4 * one_year \<le> raw_seconds t" "raw_seconds t < window_end - one_year"
    using assms(3,4) by (simp_all add: domain_window window_values)
  then obtain s where s: "tp_GetPrevious P (start_time x) t data = Some (True, s)" "valid_time s" "tp_at point_at (start_time x) (raw_seconds s)"
      "raw_seconds s \<le> raw_seconds t" "raw_seconds t - 2 * one_year \<le> raw_seconds s"
      "\<And>y. y \<le> raw_seconds t \<Longrightarrow> tp_at point_at (start_time x) y \<Longrightarrow> y \<le> raw_seconds s"
    using tp_previous [OF start] assms(2) unfolding finds_previous_def by blast
  have nn: "0 \<le> raw_seconds s" "IsFinite s" using s(2,4,5) assms(3,4) by (simp_all add: IsFinite_iff domain_window window_values)
  have last: "\<forall>y. tp_at point_at (start_time x) y \<and> y \<le> raw_seconds t \<longrightarrow> y \<le> raw_seconds s" using s(6) by blast
  show ?thesis
  proof (cases x)
    case (PointDuration start d)
    then have d: "du_fixed d" "0 \<le> du_secs d" "du_secs d \<le> one_year" using assms(1) by simp_all
    obtain e where e: "plus_duration s d = Some e" "valid_time e" "raw_seconds e = raw_seconds s + du_secs d"
      using plus_duration_ok [OF s(2) nn(2) d(1)] nn(1) d(2) by auto
    have "single_at point_at x y = (y < raw_seconds e)"
      if "raw_seconds s \<le> y" "\<forall>z. raw_seconds s < z \<and> z \<le> y \<longrightarrow> \<not> tp_at point_at (start_time x) z" for y
      unfolding PointDuration single_at.simps using that s(3) e(3) unfolding PointDuration by force
    moreover have "single_at point_at x y" if "raw_seconds s \<le> y" "y < raw_seconds e" for y
      unfolding PointDuration using that s(3) e(3) by (auto simp: PointDuration)
    ultimately have "last_domain (tp_at point_at (start_time x)) (single_at point_at x) t s e"
      using s(2-5) e(2,3) d(2,3) last unfolding last_domain_def by (auto simp: window_values)
    from CheckDomain_ok [OF start assms(2-4) this, of "single_mark point_at x" wp wn]
    show ?thesis using s(1,3) e(1,3) by (simp add: PointDuration single_CheckTime_def)
  next
    case (TwoPoints start end_tp)
    have en: "tp_regular regular end_tp" using assms(1) TwoPoints by simp
    obtain s' where s': "GetNextSecond s = Some s'" "valid_time s'" "raw_seconds s' = raw_seconds s + 1"
      using s(2) by (rule GetNextSecond_ok)
    have "window_start + one_year \<le> raw_seconds s'" "raw_seconds s' < window_end - one_year"
      using assms(3,4) s(4,5) s'(3) by (simp_all add: domain_window window_values)
    then obtain e where e: "tp_GetNext P end_tp s' data = Some (True, e)" "valid_time e" "tp_at point_at end_tp (raw_seconds e)"
      "raw_seconds s' \<le> raw_seconds e" "raw_seconds e \<le> raw_seconds s' + 2 * one_year"
      "\<And>y. raw_seconds s' \<le> y \<Longrightarrow> tp_at point_at end_tp y \<Longrightarrow> raw_seconds e \<le> y"
      using tp_next [OF en] s'(2) unfolding finds_next_def by blast
    have e': "y \<le> raw_seconds s \<or> raw_seconds e \<le> y" if "tp_at point_at end_tp y" for y
      using e(6) [OF _ that] s'(3) by linarith
    have "single_at point_at x y" if "raw_seconds s \<le> y" "y < raw_seconds e" for y
      unfolding TwoPoints single_at.simps using that s(3) e' unfolding TwoPoints by force
    moreover have "y < raw_seconds e"
      if y: "\<forall>z. raw_seconds s < z \<and> z \<le> y \<longrightarrow> \<not> tp_at point_at (start_time x) z" "single_at point_at x y" for y
    proof -
      obtain z where z: "tp_at point_at start z" "z \<le> y" "\<And>e. tp_at point_at end_tp e \<Longrightarrow> e \<le> z \<or> y < e"
        using y(2) unfolding TwoPoints by auto
      then have "z \<le> raw_seconds s" using y(1) unfolding TwoPoints by force
      then show ?thesis using z(3) [OF e(3)] e(4) s'(3) by linarith
    qed
    ultimately have "last_domain (tp_at point_at (start_time x)) (single_at point_at x) t s e"
      using s(2-5) e(2,4,5) s'(3) last unfolding last_domain_def by (auto simp: window_values)
    from CheckDomain_ok [OF start assms(2-4) this, of "single_mark point_at x" wp wn]
    show ?thesis using s(1) s'(1) e(1,3) by (simp add: TwoPoints single_CheckTime_def)
  qed
qed

section \<open>Expressions\<close>

lemma CheckTime_Subtree_ok:
  assumes "tree_regular regular T" "valid_time t" "domain_start \<le> raw_seconds t" "raw_seconds t < domain_end"
  shows "answers (tree_at point_at T) (tree_mark point_at T) t wp wn (CheckTime_Subtree P T t data wp wn)"
  using assms(1)
proof (induction T)
  case (TD_NONE x)
  then show ?case using single_CheckTime_ok [of x t wp wn] assms(2-4) by simp
next
  case (TD_UNION a b)
  then obtain r1 r2 where "CheckTime_Subtree P a t data wp wn = Some r1" "CheckTime_Subtree P b t data wp wn = Some r2"
    using answers_Some by (metis tree_regular.simps(2))
  then show ?case using TD_UNION answers_union by simp
next
  case (TD_INTERSECTION a b)
  then obtain r1 r2 where "CheckTime_Subtree P a t data wp wn = Some r1" "CheckTime_Subtree P b t data wp wn = Some r2"
    using answers_Some by (metis tree_regular.simps(3))
  then show ?case using TD_INTERSECTION answers_intersection by simp
next
  case (TD_SUBTRACTION a b)
  then obtain r1 r2 where "CheckTime_Subtree P a t data wp wn = Some r1" "CheckTime_Subtree P b t data wp wn = Some r2"
    using answers_Some by (metis tree_regular.simps(4))
  then show ?case using TD_SUBTRACTION answers_intersection answers_Not by simp
qed

end

section \<open>The searches for the true boundaries\<close>

definition next_change :: "(int \<Rightarrow> bool) \<Rightarrow> localtime \<Rightarrow> localtime \<Rightarrow> bool" where
  "next_change A t v \<longleftrightarrow> valid_time v \<and> raw_seconds t < raw_seconds v \<and>
     (\<forall>x. raw_seconds t \<le> x \<and> x < raw_seconds v \<longrightarrow> A x = A (raw_seconds t)) \<and> A (raw_seconds v) \<noteq> A (raw_seconds t)"

definition prev_change :: "(int \<Rightarrow> bool) \<Rightarrow> localtime \<Rightarrow> localtime \<Rightarrow> bool" where
  "prev_change A t v \<longleftrightarrow> valid_time v \<and> raw_seconds v \<le> raw_seconds t \<and>
     (\<forall>x. raw_seconds v \<le> x \<and> x \<le> raw_seconds t \<longrightarrow> A x = A (raw_seconds t)) \<and> A (raw_seconds v - 1) \<noteq> A (raw_seconds t)"

definition marks :: "(int \<Rightarrow> bool) \<Rightarrow> int \<Rightarrow> int \<Rightarrow> nat" where
  "marks M a b = card ({a..b} \<inter> Collect M)"

lemma marks_mono: "c \<le> a \<Longrightarrow> b \<le> d \<Longrightarrow> marks M a b \<le> marks M c d"
  unfolding marks_def by (rule card_mono) auto

lemma marks_less:
  assumes "M u" "c \<le> u" "u \<le> d" "u < a \<or> b < u" "c \<le> a" "b \<le> d"
  shows "marks M a b < marks M c d"
proof -
  have "{a..b} \<inter> Collect M \<subseteq> {c..d} \<inter> Collect M" "u \<in> {c..d} \<inter> Collect M" "u \<notin> {a..b} \<inter> Collect M"
    using assms by auto
  then have "{a..b} \<inter> Collect M \<subset> {c..d} \<inter> Collect M" by blast
  then show ?thesis unfolding marks_def by (rule psubset_card_mono [rotated]) simp
qed

text \<open>What the search after a time reports: a true boundary, or nothing within 50 tries.\<close>

definition found_next :: "(int \<Rightarrow> bool) \<Rightarrow> (int \<Rightarrow> bool) \<Rightarrow> localtime \<Rightarrow> localtime \<Rightarrow> bool" where
  "found_next A M t v \<longleftrightarrow>
     next_change A t v \<and> raw_seconds v \<le> raw_seconds t + 153 * one_year \<or>
     v = lt_InfiniteFuture \<and> (\<forall>y. raw_seconds t < y \<and> A y \<noteq> A (raw_seconds t) \<longrightarrow> 50 < marks M (raw_seconds t + 1) y)"

text \<open>The first domain that starts after a time, or none reported.\<close>

definition first_domain :: "(int \<Rightarrow> bool) \<Rightarrow> localtime \<Rightarrow> localtime \<Rightarrow> localtime \<Rightarrow> bool" where
  "first_domain A t s e \<longleftrightarrow> valid_time s \<and> valid_time e \<and> raw_seconds t < raw_seconds s \<and> raw_seconds s < raw_seconds e \<and>
     (\<forall>x. raw_seconds s \<le> x \<and> x < raw_seconds e \<longrightarrow> A x) \<and> \<not> A (raw_seconds s - 1) \<and> \<not> A (raw_seconds e) \<and>
     (\<forall>x. raw_seconds t < x \<and> A x \<and> \<not> A (x - 1) \<longrightarrow> raw_seconds s \<le> x)"

definition next_domain :: "(int \<Rightarrow> bool) \<Rightarrow> (int \<Rightarrow> bool) \<Rightarrow> localtime \<Rightarrow> (localtime \<times> localtime) option \<Rightarrow> bool" where
  "next_domain A M t r \<longleftrightarrow> (case r of
     Some (s, e) \<Rightarrow> first_domain A t s e
   | None \<Rightarrow> \<forall>s e. raw_seconds t < s \<and> s < e \<and> A s \<and> \<not> A (s - 1) \<and> \<not> A e \<longrightarrow> 50 < marks M (raw_seconds t + 1) e)"

lemma next_domain_later:
  assumes "next_change A t w" "A (raw_seconds t)" "next_domain A M w r"
  shows "next_domain A M t r"
proof -
  have w: "raw_seconds t < raw_seconds w" "\<And>x. raw_seconds t \<le> x \<Longrightarrow> x < raw_seconds w \<Longrightarrow> A x"
    using assms(1,2) unfolding next_change_def by blast+
  have later: "raw_seconds w < x" if "raw_seconds t < x" "\<not> A (x - 1)" for x
    using w(2) [of "x - 1"] that by linarith
  show ?thesis
  proof (cases r)
    case None
    have "50 < marks M (raw_seconds t + 1) e" if "50 < marks M (raw_seconds w + 1) e" for e
      using that marks_mono [of "raw_seconds t + 1" "raw_seconds w + 1" e e M] w(1) by simp
    then show ?thesis using assms(3) later unfolding next_domain_def None by simp blast
  next
    case (Some se)
    then show ?thesis using assms(3) later w(1) unfolding next_domain_def first_domain_def by (cases se) auto
  qed
qed

lemma next_changeI:
  assumes "valid_time v" "raw_seconds t < raw_seconds v" "same_on A (raw_seconds t) (raw_seconds v)" "A (raw_seconds v) \<noteq> A (raw_seconds t)"
  shows "next_change A t v"
proof -
  have "A x = A (raw_seconds t)" if "raw_seconds t \<le> x" "x < raw_seconds v" for x
    by (rule same_onD [OF assms(3)]) (use that assms(2) in simp_all)
  then show ?thesis using assms(1,2,4) unfolding next_change_def by blast
qed

lemma prev_changeI:
  assumes "valid_time v" "raw_seconds v \<le> raw_seconds t" "same_on A (raw_seconds v) (raw_seconds t + 1)" "A (raw_seconds v - 1) \<noteq> A (raw_seconds t)"
  shows "prev_change A t v"
proof -
  have "A x = A (raw_seconds t)" if "raw_seconds v \<le> x" "x \<le> raw_seconds t" for x
    by (rule same_onD [OF assms(3)]) (use that assms(2) in simp_all)
  then show ?thesis using assms(1,2,4) unfolding prev_change_def by blast
qed

lemma marks_pos: "M u \<Longrightarrow> a \<le> u \<Longrightarrow> u \<le> b \<Longrightarrow> 0 < marks M a b"
  using marks_less [of M u a b "u + 1" u] by simp

context recurring_point
begin

lemma find_next:
  assumes T: "tree_regular regular T" and t: "domain_start \<le> raw_seconds t"
    and "valid_time u" "raw_seconds t < raw_seconds u" "same_on (tree_at point_at T) (raw_seconds t) (raw_seconds u)"
    "tree_mark point_at T (raw_seconds u)" "raw_seconds u + int n * (3 * one_year) < domain_end"
  shows "\<exists>v. find_next_boundary n P (Some T) (tree_at point_at T (raw_seconds t)) data u = Some v \<and>
    (next_change (tree_at point_at T) t v \<and> raw_seconds v \<le> raw_seconds u + int n * (3 * one_year) \<or> v = lt_InfiniteFuture \<and>
      (\<forall>y. raw_seconds t < y \<and> tree_at point_at T y \<noteq> tree_at point_at T (raw_seconds t) \<longrightarrow>
         n < marks (tree_mark point_at T) (raw_seconds u) y))"
  using assms(3-7)
proof (induction n arbitrary: u)
  case 0
  have "0 < marks (tree_mark point_at T) (raw_seconds u) y"
    if "raw_seconds t < y" "tree_at point_at T y \<noteq> tree_at point_at T (raw_seconds t)" for y
  proof (rule marks_pos [of _ "raw_seconds u"])
    show "raw_seconds u \<le> y" using same_onD [OF 0(3), of y "raw_seconds t"] that 0(2) by linarith
  qed (use 0 in simp_all)
  then show ?case by simp
next
  case (Suc n)
  let ?A = "tree_at point_at T" and ?M = "tree_mark point_at T"
  have y: "0 \<le> int n * (3 * one_year)" by (simp add: window_values)
  have w: "raw_seconds u < domain_end" "domain_start \<le> raw_seconds u" using Suc.prems(2,5) t y by (simp_all add: algebra_simps window_values)
  have fin: "IsFinite u" using w Suc.prems(1) by (simp add: IsFinite_iff domain_window)
  obtain p l where r: "CheckTime_Subtree P T u data False True = Some (?A (raw_seconds u), wanted False p, wanted True l)"
      "next_ok ?A ?M u l"
    using CheckTime_Subtree_ok [OF T Suc.prems(1) w(2,1), of False True] unfolding answers_def by blast
  have u_le: "raw_seconds u \<le> y" if "raw_seconds t < y" "?A y \<noteq> ?A (raw_seconds t)" for y
    using same_onD [OF Suc.prems(3), of y "raw_seconds t"] that Suc.prems(2) by linarith
  show ?case
  proof (cases "?A (raw_seconds u) = ?A (raw_seconds t)")
    case False
    have "next_change ?A t u" using Suc.prems(1-3) False by (rule next_changeI)
    then show ?thesis using fin r(1) False y by (auto simp: CheckTime_root_def window_values)
  next
    case True
    have l: "valid_time l" "?M (raw_seconds l)" "raw_seconds u < raw_seconds l" "raw_seconds l \<le> raw_seconds u + 3 * one_year"
      "same_on ?A (raw_seconds u) (raw_seconds l)" using r(2) by (simp_all add: next_ok_def)
    have "same_on ?A (raw_seconds t) (raw_seconds l)"
      by (rule same_on_join [OF Suc.prems(3) l(5), of "raw_seconds t" "raw_seconds u"]) (use Suc.prems(2) l(3) True in simp_all)
    then obtain v where v: "find_next_boundary n P (Some T) (?A (raw_seconds t)) data l = Some v"
        "next_change ?A t v \<and> raw_seconds v \<le> raw_seconds l + int n * (3 * one_year) \<or> v = lt_InfiniteFuture \<and>
        (\<forall>y. raw_seconds t < y \<and> ?A y \<noteq> ?A (raw_seconds t) \<longrightarrow> n < marks ?M (raw_seconds l) y)"
      using Suc.IH [of l] l Suc.prems(2,5) by (auto simp: algebra_simps)
    have "Suc n < marks ?M (raw_seconds u) y"
      if "raw_seconds t < y" "?A y \<noteq> ?A (raw_seconds t)" "n < marks ?M (raw_seconds l) y" for y
      using marks_less [of ?M "raw_seconds u" "raw_seconds u" y "raw_seconds l" y] Suc.prems(4) l(3) u_le [OF that(1,2)] that(3) by simp
    then have "next_change ?A t v \<and> raw_seconds v \<le> raw_seconds u + int (Suc n) * (3 * one_year) \<or> v = lt_InfiniteFuture \<and>
        (\<forall>y. raw_seconds t < y \<and> ?A y \<noteq> ?A (raw_seconds t) \<longrightarrow> Suc n < marks ?M (raw_seconds u) y)"
      using v(2) l(4) by (auto simp: algebra_simps)
    moreover have "find_next_boundary (Suc n) P (Some T) (?A (raw_seconds t)) data u = Some v"
      using fin r(1) True v(1) by (simp add: CheckTime_root_def wanted_def)
    ultimately show ?thesis by blast
  qed
qed

lemma find_prev:
  assumes T: "tree_regular regular T" and t: "raw_seconds t < domain_end"
    and y: "domain_start \<le> y" "y \<le> raw_seconds t" "tree_at point_at T y \<noteq> tree_at point_at T (raw_seconds t)"
    and "valid_time u" "raw_seconds u \<le> raw_seconds t" "same_on (tree_at point_at T) (raw_seconds u) (raw_seconds t + 1)"
    "tree_mark point_at T (raw_seconds u)"
  shows "\<exists>v. find_prev_boundary n P (Some T) (tree_at point_at T (raw_seconds t)) data u = Some v \<and>
    (prev_change (tree_at point_at T) t v \<or> v = lt_InfinitePast \<and> n < marks (tree_mark point_at T) y (raw_seconds u))"
  using assms(6-9)
proof (induction n arbitrary: u)
  case 0
  have "y \<le> raw_seconds u" using same_onD [OF 0(3), of y "raw_seconds t"] y 0(2) by linarith
  then have "0 < marks (tree_mark point_at T) y (raw_seconds u)" using 0(4) by (intro marks_pos [of _ "raw_seconds u"]) simp_all
  then show ?case by simp
next
  case (Suc n)
  let ?A = "tree_at point_at T" and ?M = "tree_mark point_at T"
  have yu: "y < raw_seconds u" using same_onD [OF Suc.prems(3), of y "raw_seconds t"] y Suc.prems(2) by linarith
  then have w: "domain_start < raw_seconds u" "raw_seconds u < domain_end" using y(1) Suc.prems(2) t by simp_all
  have fin: "IsFinite u" using w Suc.prems(1) by (simp add: IsFinite_iff domain_window)
  obtain s where s: "GetPrevSecond u = Some s" "valid_time s" "raw_seconds s = raw_seconds u - 1"
    using GetPrevSecond_ok [OF Suc.prems(1)] w(1) by (auto simp: domain_window)
  obtain e l where r: "CheckTime_Subtree P T s data True False = Some (?A (raw_seconds s), wanted True e, wanted False l)"
      "prev_ok ?A ?M s e"
    using CheckTime_Subtree_ok [OF T s(2), of True False] s(3) w unfolding answers_def by auto
  show ?case
  proof (cases "?A (raw_seconds s) = ?A (raw_seconds t)")
    case False
    have "prev_change ?A t u" using Suc.prems(1-3) False [unfolded s(3)] by (rule prev_changeI)
    then show ?thesis using fin s(1) r(1) False by (auto simp: CheckTime_root_def)
  next
    case True
    have e: "valid_time e" "?M (raw_seconds e)" "raw_seconds e \<le> raw_seconds s" "same_on ?A (raw_seconds e) (raw_seconds s + 1)"
      using r(2) by (simp_all add: prev_ok_def)
    have "same_on ?A (raw_seconds e) (raw_seconds t + 1)"
      by (rule same_on_join [OF e(4) Suc.prems(3), of "raw_seconds s" "raw_seconds t"]) (use Suc.prems(2) e(3) s(3) True in simp_all)
    then obtain v where v: "find_prev_boundary n P (Some T) (?A (raw_seconds t)) data e = Some v"
        "prev_change ?A t v \<or> v = lt_InfinitePast \<and> n < marks ?M y (raw_seconds e)"
      using Suc.IH [of e] e Suc.prems(2) s(3) by auto
    have "marks ?M y (raw_seconds e) < marks ?M y (raw_seconds u)"
      using Suc.prems(4) yu e(3) s(3) by (intro marks_less [of _ "raw_seconds u"]) simp_all
    moreover have "find_prev_boundary (Suc n) P (Some T) (?A (raw_seconds t)) data u = Some v"
      using fin s(1) r(1) True v(1) by (simp add: CheckTime_root_def wanted_def)
    ultimately show ?thesis using v(2) by auto
  qed
qed

lemma td_CheckTime_ok:
  assumes T: "tree_regular regular T" and t: "valid_time t" "domain_start \<le> raw_seconds t" "raw_seconds t + 153 * one_year < domain_end"
    and y: "wp \<Longrightarrow> domain_start \<le> y \<and> y \<le> raw_seconds t \<and> tree_at point_at T y \<noteq> tree_at point_at T (raw_seconds t)"
  shows "\<exists>p n. td_CheckTime P (Some T) t data wp wn = Some (tree_at point_at T (raw_seconds t), wanted wp p, wanted wn n) \<and>
    (wp \<longrightarrow> prev_change (tree_at point_at T) t p \<or>
      p = lt_InfinitePast \<and> 50 < marks (tree_mark point_at T) y (raw_seconds t)) \<and>
    (wn \<longrightarrow> found_next (tree_at point_at T) (tree_mark point_at T) t n)"
proof -
  let ?A = "tree_at point_at T" and ?M = "tree_mark point_at T"
  have t': "raw_seconds t < domain_end" using t(3) by (simp add: window_values)
  obtain p n where r: "CheckTime_Subtree P T t data wp wn = Some (?A (raw_seconds t), wanted wp p, wanted wn n)"
      "wp \<longrightarrow> prev_ok ?A ?M t p" "wn \<longrightarrow> next_ok ?A ?M t n"
    using CheckTime_Subtree_ok [OF T t(1,2) t'] by (rule answersE)
  have "\<exists>v. find_prev_boundary 50 P (Some T) (?A (raw_seconds t)) data p = Some v \<and>
      (prev_change ?A t v \<or> v = lt_InfinitePast \<and> 50 < marks ?M y (raw_seconds t))" if w: wp
  proof -
    have p: "valid_time p" "raw_seconds p \<le> raw_seconds t" "same_on ?A (raw_seconds p) (raw_seconds t + 1)" "?M (raw_seconds p)"
      using r(2) w by (simp_all add: prev_ok_def)
    obtain v where "find_prev_boundary 50 P (Some T) (?A (raw_seconds t)) data p = Some v"
        "prev_change ?A t v \<or> v = lt_InfinitePast \<and> 50 < marks ?M y (raw_seconds p)"
      using find_prev [OF T t' _ _ _ p, of y 50] y [OF w] by blast
    then show ?thesis using marks_mono [of y y "raw_seconds p" "raw_seconds t" ?M] p(2) by auto
  qed
  then obtain v where v: "wp \<longrightarrow> find_prev_boundary 50 P (Some T) (?A (raw_seconds t)) data p = Some v \<and>
      (prev_change ?A t v \<or> v = lt_InfinitePast \<and> 50 < marks ?M y (raw_seconds t))" by blast
  have "\<exists>u. find_next_boundary 50 P (Some T) (?A (raw_seconds t)) data n = Some u \<and> found_next ?A ?M t u" if w: wn
  proof -
    have n: "valid_time n" "raw_seconds t < raw_seconds n" "same_on ?A (raw_seconds t) (raw_seconds n)" "?M (raw_seconds n)"
      "raw_seconds n \<le> raw_seconds t + 3 * one_year" using r(3) w by (simp_all add: next_ok_def)
    have m: "raw_seconds n + int 50 * (3 * one_year) < domain_end" using n(5) t(3) by (simp add: window_values)
    obtain u where u: "find_next_boundary 50 P (Some T) (?A (raw_seconds t)) data n = Some u"
        "next_change ?A t u \<and> raw_seconds u \<le> raw_seconds n + int 50 * (3 * one_year) \<or> u = lt_InfiniteFuture \<and>
         (\<forall>y. raw_seconds t < y \<and> ?A y \<noteq> ?A (raw_seconds t) \<longrightarrow> 50 < marks ?M (raw_seconds n) y)"
      using find_next [OF T t(2) n(1-4) m] by blast
    moreover have "marks ?M (raw_seconds n) y \<le> marks ?M (raw_seconds t + 1) y" for y using n(2) by (intro marks_mono) simp_all
    ultimately have "found_next ?A ?M t u" using n(5) unfolding found_next_def by (fastforce simp: window_values intro: less_le_trans)
    with u(1) show ?thesis by blast
  qed
  then obtain u where u: "wn \<longrightarrow> find_next_boundary 50 P (Some T) (?A (raw_seconds t)) data n = Some u \<and> found_next ?A ?M t u" by blast
  have "td_CheckTime P (Some T) t data wp wn = Some (?A (raw_seconds t), wanted wp v, wanted wn u)"
    using r(1) u v by (cases wp; cases wn) (simp_all add: td_CheckTime_def CheckTime_root_def wanted_def)
  then show ?thesis using u v by blast
qed

lemma ForwardIntoDomain_ok:
  assumes "tree_regular regular T" "valid_time t" "domain_start \<le> raw_seconds t" "raw_seconds t + 153 * one_year < domain_end"
  shows "\<exists>v. ForwardIntoDomain P (Some T) t data = Some v \<and>
    (if tree_at point_at T (raw_seconds t) then v = t
     else next_change (tree_at point_at T) t v \<or> v = lt_InfiniteFuture \<and>
       (\<forall>y. raw_seconds t < y \<and> tree_at point_at T y \<longrightarrow> 50 < marks (tree_mark point_at T) (raw_seconds t + 1) y))"
proof -
  obtain n where n: "td_CheckTime P (Some T) t data False True = Some (tree_at point_at T (raw_seconds t), None, Some n)" "found_next (tree_at point_at T) (tree_mark point_at T) t n"
    using td_CheckTime_ok [OF assms, of False 0 True] by (auto simp: wanted_def)
  show ?thesis
  proof (cases "tree_at point_at T (raw_seconds t)")
    case False
    then show ?thesis using n by (simp add: ForwardIntoDomain_def found_next_def) blast
  qed (use n(1) in \<open>simp add: ForwardIntoDomain_def\<close>)
qed

lemma ReverseIntoDomain_ok:
  assumes T: "tree_regular regular T" and t: "valid_time t" "domain_start \<le> raw_seconds t" "raw_seconds t + 153 * one_year < domain_end"
    and y: "domain_start \<le> y" "y \<le> raw_seconds t" "tree_at point_at T y \<noteq> tree_at point_at T (raw_seconds t)"
    "marks (tree_mark point_at T) y (raw_seconds t) \<le> 50"
  shows "\<exists>v. ReverseIntoDomain P (Some T) t data = Some v \<and> valid_time v \<and> tree_at point_at T (raw_seconds v) \<and>
    raw_seconds v \<le> raw_seconds t \<and> (\<forall>x. raw_seconds v < x \<and> x \<le> raw_seconds t \<longrightarrow> \<not> tree_at point_at T x)"
proof -
  let ?A = "tree_at point_at T"
  obtain p where p: "td_CheckTime P (Some T) t data True False = Some (?A (raw_seconds t), Some p, None)" "prev_change ?A t p"
    using td_CheckTime_ok [OF T t, of True y False] y by (auto simp: wanted_def)
  show ?thesis
  proof (cases "?A (raw_seconds t)")
    case True
    then show ?thesis using p(1) t(1) by (auto simp: ReverseIntoDomain_def)
  next
    case False
    have p': "valid_time p" "raw_seconds p \<le> raw_seconds t" "?A (raw_seconds p - 1)"
      "\<And>x. raw_seconds p \<le> x \<Longrightarrow> x \<le> raw_seconds t \<Longrightarrow> \<not> ?A x" using p(2) False by (auto simp: prev_change_def)
    have "y < raw_seconds p" using p'(4) [of y] y(2,3) False by linarith
    then have "0 < raw_seconds p" using y(1) by (simp add: domain_window)
    then obtain v where v: "GetPrevSecond p = Some v" "valid_time v" "raw_seconds v = raw_seconds p - 1"
      using GetPrevSecond_ok [OF p'(1)] by blast
    then show ?thesis using p(1) p'(2-4) False by (simp add: ReverseIntoDomain_def)
  qed
qed

text \<open>The end of a domain with a duration is the start before the time plus the duration.\<close>

lemma CheckTime_inside:
  assumes "single_regular regular (PointDuration start d)" "valid_time t" "domain_start \<le> raw_seconds t" "raw_seconds t < domain_end"
    and s: "tp_at point_at start s" "s \<le> raw_seconds t" "raw_seconds t < s + du_secs d"
      "\<And>y. tp_at point_at start y \<Longrightarrow> y \<le> raw_seconds t \<Longrightarrow> y \<le> s"
  shows "\<exists>e. CheckTime_Subtree P (TD_NONE (PointDuration start d)) t data False True = Some (True, None, Some e) \<and>
    valid_time e \<and> raw_seconds e = s + du_secs d"
proof -
  have start: "tp_regular regular start" and d: "du_fixed d" "0 \<le> du_secs d" using assms(1) by simp_all
  have "window_start + 4 * one_year \<le> raw_seconds t" "raw_seconds t < window_end - one_year"
    using assms(3,4) by (simp_all add: domain_window window_values)
  then obtain u where u: "tp_GetPrevious P start t data = Some (True, u)" "valid_time u" "tp_at point_at start (raw_seconds u)"
      "raw_seconds u \<le> raw_seconds t" "raw_seconds t - 2 * one_year \<le> raw_seconds u"
      "\<And>y. y \<le> raw_seconds t \<Longrightarrow> tp_at point_at start y \<Longrightarrow> y \<le> raw_seconds u"
    using tp_previous [OF start] assms(2) unfolding finds_previous_def by blast
  have us: "raw_seconds u = s" using u(6) [OF s(2,1)] s(4) [OF u(3,4)] by simp
  have fin: "IsFinite u" "0 \<le> raw_seconds u + du_secs d" using u(2,4,5) assms(3,4) d(2) by (simp_all add: IsFinite_iff domain_window window_values)
  obtain e where e: "plus_duration u d = Some e" "valid_time e" "raw_seconds e = raw_seconds u + du_secs d"
    using plus_duration_ok [OF u(2) fin(1) d(1) fin(2)] by blast
  have "lt_less_eq u t" "lt_less t e"
    using lt_less_iff [OF assms(2) u(2)] lt_less_iff [OF assms(2) e(2)] u(4) e(3) us s(3) by (simp_all add: lt_less_eq_iff)
  then show ?thesis using u(1) e us by (simp add: single_CheckTime_def CheckDomain_def wanted_def)
qed

lemma found_next_cases:
  assumes "found_next A M t v" "domain_start \<le> raw_seconds t" "raw_seconds t + 153 * one_year < domain_end"
  obtains "next_change A t v" "\<not> IsInfinite v" "raw_seconds v \<le> raw_seconds t + 153 * one_year"
  | "v = lt_InfiniteFuture" "IsInfinite v"
      "\<forall>y. raw_seconds t < y \<and> A y \<noteq> A (raw_seconds t) \<longrightarrow> 50 < marks M (raw_seconds t + 1) y"
proof -
  have "IsInfinite lt_InfiniteFuture" by (simp add: IsInfinite_def IsFinite_def lt_InfiniteFuture_def IsInfiniteFuture_def)
  moreover have "\<not> IsInfinite v" if "next_change A t v" "raw_seconds v \<le> raw_seconds t + 153 * one_year"
  proof -
    have "IsFinite v" using that assms(2,3) by (simp add: next_change_def IsFinite_iff domain_window window_values)
    then show ?thesis by (auto simp: IsInfinite_def IsFinite_def IsInfiniteFuture_def IsInfinitePast_def)
  qed
  ultimately show thesis using assms(1) that unfolding found_next_def by blast
qed

lemma domain_from_outside:
  assumes T: "tree_regular regular T" and t: "valid_time t" "domain_start \<le> raw_seconds t" "raw_seconds t + 306 * one_year < domain_end"
    and out: "\<not> tree_at point_at T (raw_seconds t)" and f: "found_next (tree_at point_at T) (tree_mark point_at T) t st"
  shows "\<exists>r. (if IsInfinite st then Some None
      else do {
        (inside, _, next_end) \<leftarrow> td_CheckTime P (Some T) st data True True;
        ASSERT inside;
        next_end \<leftarrow> next_end;
        Some (if IsInfinite next_end then None else Some (st, next_end))
      }) = Some r \<and> next_domain (tree_at point_at T) (tree_mark point_at T) t r"
proof -
  let ?A = "tree_at point_at T" and ?M = "tree_mark point_at T"
  have t': "raw_seconds t + 153 * one_year < domain_end" using t(3) by (simp add: window_values)
  show ?thesis
    using f t(2) t'
  proof (cases rule: found_next_cases)
    case 1
    then have st: "valid_time st" "raw_seconds t < raw_seconds st" "?A (raw_seconds st)" "\<not> ?A (raw_seconds st - 1)"
      "\<And>x. raw_seconds t \<le> x \<Longrightarrow> x < raw_seconds st \<Longrightarrow> \<not> ?A x" using out by (auto simp: next_change_def)
    have w: "domain_start \<le> raw_seconds st" "raw_seconds st + 153 * one_year < domain_end"
      using st(2) 1(3) t(2,3) by (simp_all add: window_values)
    have "domain_start \<le> raw_seconds t \<and> raw_seconds t \<le> raw_seconds st \<and> ?A (raw_seconds t) \<noteq> ?A (raw_seconds st)"
      using t(2) st(2,3) out by simp
    then obtain p n where n: "td_CheckTime P (Some T) st data True True = Some (True, p, Some n)" "found_next ?A ?M st n"
      using td_CheckTime_ok [OF T st(1) w, of True "raw_seconds t" True] st(3) by (auto simp: wanted_def)
    show ?thesis
      using n(2) w
    proof (cases rule: found_next_cases)
      case 1
      have "raw_seconds st \<le> x" if "raw_seconds t < x" "?A x" for x using st(5) [of x] that by linarith
      then have "first_domain ?A t st n" using 1(1) st unfolding first_domain_def next_change_def by auto
      then show ?thesis using n(1) 1(2) \<open>\<not> IsInfinite st\<close> by (simp add: next_domain_def)
    next
      case 2
      have "50 < marks ?M (raw_seconds t + 1) e" if s: "raw_seconds t < s" "s < e" "?A s" "\<not> ?A e" for s e
      proof -
        have "raw_seconds st \<le> s" using st(5) [of s] s by linarith
        then have "50 < marks ?M (raw_seconds st + 1) e" using 2(3) s st(3) by auto
        then show ?thesis using marks_mono [of "raw_seconds t + 1" "raw_seconds st + 1" e e ?M] st(2) by simp
      qed
      then have "next_domain ?A ?M t None" by (auto simp: next_domain_def)
      then show ?thesis using n(1) 2(2) \<open>\<not> IsInfinite st\<close> by simp
    qed
  next
    case 2
    have "50 < marks ?M (raw_seconds t + 1) e" if "raw_seconds t < s" "s < e" "?A s" for s e
      using 2(3) out that marks_mono [of "raw_seconds t + 1" "raw_seconds t + 1" s e ?M] by fastforce
    then have "next_domain ?A ?M t None" by (auto simp: next_domain_def)
    then show ?thesis using 2(2) by simp
  qed
qed

lemma GetNextDomain_ok:
  assumes T: "tree_regular regular T" and t: "valid_time t" "domain_start \<le> raw_seconds t" "raw_seconds t + 459 * one_year < domain_end"
    and y: "domain_start \<le> y" "y \<le> raw_seconds t" "tree_at point_at T y \<noteq> tree_at point_at T (raw_seconds t)"
  shows "\<exists>r. GetNextDomain P (Some T) t data = Some r \<and> next_domain (tree_at point_at T) (tree_mark point_at T) t r"
proof -
  let ?A = "tree_at point_at T" and ?M = "tree_mark point_at T"
  have w: "raw_seconds t + 153 * one_year < domain_end" "raw_seconds t + 306 * one_year < domain_end" using t(3) by (simp_all add: window_values)
  obtain p n where n: "td_CheckTime P (Some T) t data True True = Some (?A (raw_seconds t), p, Some n)" "found_next ?A ?M t n"
    using td_CheckTime_ok [OF T t(1,2) w(1), of True y True] y by (auto simp: wanted_def)
  show ?thesis
  proof (cases "?A (raw_seconds t)")
    case False
    then show ?thesis using domain_from_outside [OF T t(1,2) w(2) False n(2)] n(1) by (simp add: GetNextDomain_def)
  next
    case True
    show ?thesis
      using n(2) t(2) w(1)
    proof (cases rule: found_next_cases)
      case 1
      then have n': "valid_time n" "raw_seconds t < raw_seconds n" "\<not> ?A (raw_seconds n)" using True by (auto simp: next_change_def)
      have w': "domain_start \<le> raw_seconds n" "raw_seconds n + 153 * one_year < domain_end" "raw_seconds n + 306 * one_year < domain_end"
        using n'(2) 1(3) t(2,3) by (simp_all add: window_values)
      have "domain_start \<le> raw_seconds t \<and> raw_seconds t \<le> raw_seconds n \<and> ?A (raw_seconds t) \<noteq> ?A (raw_seconds n)"
        using t(2) n'(2,3) True by simp
      then obtain q st where st: "td_CheckTime P (Some T) n data True True = Some (False, q, Some st)" "found_next ?A ?M n st"
        using td_CheckTime_ok [OF T n'(1) w'(1,2), of True "raw_seconds t" True] n'(3) by (auto simp: wanted_def)
      show ?thesis
        using domain_from_outside [OF T n'(1) w'(1,3) n'(3) st(2)] n(1) st(1) True 1(2) next_domain_later [OF 1(1) True]
        by (auto simp: GetNextDomain_def)
    next
      case 2
      then have "next_domain ?A ?M t None" using True by (auto simp: next_domain_def)
      then show ?thesis using n(1) 2(2) True by (simp add: GetNextDomain_def)
    qed
  qed
qed

end

end
