(* ===== verification/TimeDomain_Sharp.thy ===== *)
theory TimeDomain_Sharp
  imports TimeDomain_Set
begin

text \<open>
  The results on time domains for \<open>TimeDomain<SharpPoint>\<close>, the instance the repository uses: the
  contract of \<open>CheckTime\<close>, \<open>ForwardIntoDomain\<close>, \<open>ReverseIntoDomain\<close> and \<open>GetNextDomain\<close> on the years 1981 to
  2800 (2500), and two examples at which the boundary search of \<open>CheckTime\<close> goes wrong.
\<close>

section \<open>Domains of sharp points\<close>

lemma year_window:
  assumes "valid_time t" "1981 \<le> ld_y t"
  shows "domain_start \<le> raw_seconds t"
    "ld_y t \<le> 2800 \<Longrightarrow> raw_seconds t + 153 * one_year < domain_end"
    "ld_y t \<le> 2500 \<Longrightarrow> raw_seconds t + 459 * one_year < domain_end"
proof -
  have "year_secs 2801 = 26223868800" "year_secs 2501 = 16756761600" by (simp_all add: year_secs_def year_start_def)
  then show "domain_start \<le> raw_seconds t"
    "ld_y t \<le> 2800 \<Longrightarrow> raw_seconds t + 153 * one_year < domain_end"
    "ld_y t \<le> 2500 \<Longrightarrow> raw_seconds t + 459 * one_year < domain_end"
    using assms ld_y_iff(1) [OF assms(1), of 1981] ld_y_iff(2) [OF assms(1), of 2801] ld_y_iff(2) [OF assms(1), of 2501]
    by (simp_all add: domain_start_def domain_window window_values)
qed

lemma valid_time_exists:
  assumes "0 \<le> x" obtains v where "valid_time v" "raw_seconds v = x"
  using IncrementSecond_ok [OF sample_valid_ok(1), of "x - raw_seconds sample_valid"] assms by auto

text \<open>A point that recurs every day at a full hour.\<close>

definition daily :: "int \<Rightarrow> sharppoint timepoint" where
  "daily h = \<lparr>tp_point = sp_Clear\<lparr>sp_hour := h, sp_minute := 0, sp_second := 0\<rparr>, tp_offset = zero_duration\<rparr>"

lemma daily_regular: "0 \<le> h \<Longrightarrow> h < 24 \<Longrightarrow> tp_regular yearly (daily h)"
  by (simp add: tp_regular_def yearly_def daily_def sp_ok_def opt_range_def day_fits_month_def sp_Clear_def UNDEFINED_def
      du_fixed_def du_secs_def zero_duration_def one_year_def)

lemma clock_hour:
  assumes "valid_time v" "clock v = h * 3600"
  shows "lt_h v = h \<and> lt_mn v = 0 \<and> lt_s v = 0"
proof -
  have c: "lt_h v * 3600 + (lt_mn v * 60 + lt_s v) = h * 3600 + 0" using assms(2) by (simp add: clock_def)
  have r: "0 \<le> lt_mn v * 60 + lt_s v" "lt_mn v * 60 + lt_s v < 3600" "0 \<le> lt_mn v" "0 \<le> lt_s v"
    using assms(1) by (auto simp: valid_time_def)
  have "lt_h v = h \<and> lt_mn v * 60 + lt_s v = 0" using lex_eq_iff [of "lt_mn v * 60 + lt_s v" 3600 0 "lt_h v" h] r c by simp
  then show ?thesis using r(3,4) by linarith
qed

lemma daily_at:
  assumes "0 \<le> h" "h < 24"
  shows "tp_at sp_at (daily h) x \<longleftrightarrow> 31536000 \<le> x \<and> x mod 86400 = h * 3600"
proof -
  have m: "sp_matches (tp_point (daily h)) v \<longleftrightarrow> lt_h v = h \<and> lt_mn v = 0 \<and> lt_s v = 0" for v
    using assms by (simp add: sp_matches_def daily_def sp_Clear_def UNDEFINED_def fits_year_def fits_month_def fits_week_def fits_day_def
        fits_hour_def fits_minute_def fits_second_def)
  have "sp_at (tp_point (daily h)) x \<longleftrightarrow> 31536000 \<le> x \<and> x mod 86400 = h * 3600"
  proof
    assume "sp_at (tp_point (daily h)) x"
    then obtain v where v: "valid_time v" "raw_seconds v = x" "1970 < ld_y v" "lt_h v = h" "lt_mn v = 0" "lt_s v = 0"
      using m unfolding sp_at_def by blast
    then show "31536000 \<le> x \<and> x mod 86400 = h * 3600"
      using ld_y_iff(1) [OF v(1), of 1971] valid_time_split [OF v(1)] clock_bounds [OF v(1)] by (auto simp: window_values clock_def)
  next
    assume x: "31536000 \<le> x \<and> x mod 86400 = h * 3600"
    then obtain v where v: "valid_time v" "raw_seconds v = x" using valid_time_exists [of x] by auto
    have "x = x div 86400 * 86400 + h * 3600" using x by (metis div_mult_mod_eq)
    then have "clock v = h * 3600" using raw_eq_dn [OF v(1), of "x div 86400" "h * 3600"] v(2) assms by simp
    then show "sp_at (tp_point (daily h)) x"
      using clock_hour [OF v(1)] v m x ld_y_iff(1) [OF v(1), of 1971] unfolding sp_at_def by (force simp: window_values)
  qed
  then show ?thesis by (simp add: tp_at_def daily_def du_secs_def zero_duration_def)
qed

text \<open>The example of \<open>timedomain.h\<close>: 8am to 5pm, except 12 noon to 1pm.\<close>

definition office_hours :: "sharppoint td_tree" where
  "office_hours = TD_SUBTRACTION (TD_NONE (PointDuration (daily 8) (zero_duration\<lparr>du_hours := 9\<rparr>)))
     (TD_NONE (PointDuration (daily 12) (zero_duration\<lparr>du_hours := 1\<rparr>)))"

lemma office_hours_parsed: "td_Init sharp ''[(h8){h9}] - [(h12){h1}]'' = Some (Some office_hours, [], [])"
  by code_simp

lemma office_hours_regular: "tree_regular yearly office_hours"
  using daily_regular [of 8] daily_regular [of 12]
  by (simp add: office_hours_def du_fixed_def du_secs_def zero_duration_def one_year_def)

lemma daily_hours_at:
  assumes "0 \<le> h" "0 < k" "h + k \<le> 24" "31622400 \<le> x"
  shows "single_at sp_at (PointDuration (daily h) (zero_duration\<lparr>du_hours := k\<rparr>)) x \<longleftrightarrow>
    h * 3600 \<le> x mod 86400 \<and> x mod 86400 < (h + k) * 3600"
proof -
  have h: "h < 24" using assms(2,3) by simp
  have x: "x = x div 86400 * 86400 + x mod 86400" "0 \<le> x mod 86400" "x mod 86400 < 86400" by simp_all
  have du: "du_secs (zero_duration\<lparr>du_hours := k\<rparr>) = k * 3600" by (simp add: du_secs_def zero_duration_def)
  show ?thesis
  proof
    assume "single_at sp_at (PointDuration (daily h) (zero_duration\<lparr>du_hours := k\<rparr>)) x"
    then obtain s where s: "s mod 86400 = h * 3600" "s \<le> x" "x < s + k * 3600"
      using daily_at [OF assms(1) h] du by auto
    have "x - s < 86400 - h * 3600" "0 \<le> x - s" using s assms(3) by linarith+
    moreover have "x = s div 86400 * 86400 + (h * 3600 + (x - s))" using s(1) by (metis div_mult_mod_eq add.assoc add_diff_cancel_left' diff_add_cancel add.commute)
    ultimately have "x div 86400 = s div 86400 \<and> x mod 86400 = h * 3600 + (x - s)"
      using lex_eq_iff [of "x mod 86400" 86400 "h * 3600 + (x - s)" "x div 86400" "s div 86400"] x assms(1) by simp
    then show "h * 3600 \<le> x mod 86400 \<and> x mod 86400 < (h + k) * 3600" using s by (simp add: algebra_simps)
  next
    assume m: "h * 3600 \<le> x mod 86400 \<and> x mod 86400 < (h + k) * 3600"
    let ?s = "x - (x mod 86400 - h * 3600)"
    have "?s = x div 86400 * 86400 + h * 3600" using x(1) by linarith
    then have "?s mod 86400 = (x div 86400 * 86400 + h * 3600) mod 86400" by (rule arg_cong)
    then have "?s mod 86400 = h * 3600" using assms(1) h by simp
    moreover have "31536000 \<le> ?s" using assms(1,4) x(3) by linarith
    moreover have "?s \<le> x" "x < ?s + k * 3600" using m by (simp_all add: algebra_simps)
    ultimately show "single_at sp_at (PointDuration (daily h) (zero_duration\<lparr>du_hours := k\<rparr>)) x"
      using daily_at [OF assms(1) h, of ?s] du by auto
  qed
qed

lemma office_hours_at:
  assumes "31622400 \<le> x"
  shows "tree_at sp_at office_hours x \<longleftrightarrow>
    28800 \<le> x mod 86400 \<and> x mod 86400 < 61200 \<and> \<not> (43200 \<le> x mod 86400 \<and> x mod 86400 < 46800)"
  using daily_hours_at [of 8 9 x] daily_hours_at [of 12 1 x] assms by (auto simp: office_hours_def)

text \<open>A noon and a time ten seconds before it.\<close>

definition noon :: localtime where
  "noon = \<lparr>ld_y = 2014, ld_m = 7, ld_d = 1, lt_h = 12, lt_mn = 0, lt_s = 0, lt_is_dst = - 1\<rparr>"

lemma noon_ok: "valid_time noon" "raw_seconds noon = 1404216000"
proof -
  show v: "valid_time noon"
    by (simp add: valid_time_def noon_def valid_date_def MaxDaysInMonth_def num_days_def)
  have "day_number 2014 7 1 = 16252"
    by (simp add: day_number_def year_start_def day_of_year_def day_1_seq_def IsLeapYear_def)
  then show "raw_seconds noon = 1404216000" using valid_time_raw [OF v] by (simp add: noon_def)
qed

lemma office_at_noon:
  "domain_start \<le> 1404215990" "1404215990 \<le> raw_seconds noon"
  "tree_at sp_at office_hours 1404215990 \<noteq> tree_at sp_at office_hours (raw_seconds noon)"
  "marks (tree_mark sp_at office_hours) 1404215990 (raw_seconds noon) \<le> 50"
proof -
  show "domain_start \<le> 1404215990" "1404215990 \<le> raw_seconds noon" by (simp_all add: domain_window noon_ok)
  show "tree_at sp_at office_hours 1404215990 \<noteq> tree_at sp_at office_hours (raw_seconds noon)"
    by (simp add: office_hours_at noon_ok)
  have "marks (tree_mark sp_at office_hours) 1404215990 (raw_seconds noon) \<le> card {1404215990..1404216000::int}"
    unfolding marks_def noon_ok by (rule card_mono) auto
  then show "marks (tree_mark sp_at office_hours) 1404215990 (raw_seconds noon) \<le> 50" by simp
qed

text \<open>
  C2. \<open>TimeDomain<SharpPoint>::CheckTime\<close> decides membership in the set the expression denotes and finds its
  true boundaries. For an expression whose points recur every year, with offsets and durations of at most a
  year, and a time between 1981 and 2800 before which membership has changed at least once since 1981:
  the call returns, without a failing assertion; the result says whether the time is in the set; the
  previous boundary is the time from which on membership has been the same, the next boundary the first time
  at which it changes. Only when more than 50 starts and ends of single domains lie between the time
  and the change does the search give up and report infinity.
\<close>
theorem timedomain_check_ok:
  assumes "tree_regular yearly T" "valid_time t" "1981 \<le> ld_y t" "ld_y t \<le> 2800"
    and "domain_start \<le> y" "y \<le> raw_seconds t" "tree_at sp_at T y \<noteq> tree_at sp_at T (raw_seconds t)"
  shows "\<exists>p n. td_CheckTime sharp (Some T) t () True True = Some (tree_at sp_at T (raw_seconds t), Some p, Some n) \<and>
    (prev_change (tree_at sp_at T) t p \<or>
      p = lt_InfinitePast \<and> 50 < marks (tree_mark sp_at T) y (raw_seconds t)) \<and>
    (next_change (tree_at sp_at T) t n \<or>
      n = lt_InfiniteFuture \<and> (\<forall>z. raw_seconds t < z \<and> tree_at sp_at T z \<noteq> tree_at sp_at T (raw_seconds t) \<longrightarrow>
        50 < marks (tree_mark sp_at T) (raw_seconds t + 1) z))"
  using sharp_points.td_CheckTime_ok [OF assms(1,2) year_window(1,2) [OF assms(2,3)], of True y True] assms(4-7)
  by (auto simp: wanted_def found_next_def)

theorem timedomain_check_ok_witness:
  "\<exists>p n. td_CheckTime sharp (Some office_hours) noon () True True = Some (tree_at sp_at office_hours (raw_seconds noon), Some p, Some n) \<and>
    (prev_change (tree_at sp_at office_hours) noon p \<or>
      p = lt_InfinitePast \<and> 50 < marks (tree_mark sp_at office_hours) 1404215990 (raw_seconds noon)) \<and>
    (next_change (tree_at sp_at office_hours) noon n \<or>
      n = lt_InfiniteFuture \<and> (\<forall>z. raw_seconds noon < z \<and> tree_at sp_at office_hours z \<noteq> tree_at sp_at office_hours (raw_seconds noon) \<longrightarrow>
        50 < marks (tree_mark sp_at office_hours) (raw_seconds noon + 1) z))"
  by (rule timedomain_check_ok [OF office_hours_regular noon_ok(1) _ _ office_at_noon(1-3)]) (simp_all add: noon_def)

text \<open>
  C6. \<open>ForwardIntoDomain\<close> returns, for times between 1981 and 2800, the time itself when it is inside, and
  otherwise the earliest later time inside the domain, unless more than 50 starts and ends of
  single domains come before every such time.
\<close>
theorem timedomain_forward_ok:
  assumes "tree_regular yearly T" "valid_time t" "1981 \<le> ld_y t" "ld_y t \<le> 2800"
  shows "\<exists>v. ForwardIntoDomain sharp (Some T) t () = Some v \<and>
    (if tree_at sp_at T (raw_seconds t) then v = t
     else next_change (tree_at sp_at T) t v \<or> v = lt_InfiniteFuture \<and>
       (\<forall>y. raw_seconds t < y \<and> tree_at sp_at T y \<longrightarrow> 50 < marks (tree_mark sp_at T) (raw_seconds t + 1) y))"
  using sharp_points.ForwardIntoDomain_ok [OF assms(1,2) year_window(1,2) [OF assms(2,3)]] assms(4) by blast

theorem timedomain_forward_ok_witness:
  "\<exists>v. ForwardIntoDomain sharp (Some office_hours) noon () = Some v \<and>
    (if tree_at sp_at office_hours (raw_seconds noon) then v = noon
     else next_change (tree_at sp_at office_hours) noon v \<or> v = lt_InfiniteFuture \<and>
       (\<forall>y. raw_seconds noon < y \<and> tree_at sp_at office_hours y \<longrightarrow> 50 < marks (tree_mark sp_at office_hours) (raw_seconds noon + 1) y))"
  by (rule timedomain_forward_ok [OF office_hours_regular noon_ok(1)]) (simp_all add: noon_def)

text \<open>
  C7. \<open>ReverseIntoDomain\<close> returns the latest time inside the domain at or before the given one, when membership
  has changed since 1981 with at most 50 starts and ends of single domains since then.
\<close>
theorem timedomain_reverse_ok:
  assumes "tree_regular yearly T" "valid_time t" "1981 \<le> ld_y t" "ld_y t \<le> 2800"
    and "domain_start \<le> y" "y \<le> raw_seconds t" "tree_at sp_at T y \<noteq> tree_at sp_at T (raw_seconds t)"
    "marks (tree_mark sp_at T) y (raw_seconds t) \<le> 50"
  shows "\<exists>v. ReverseIntoDomain sharp (Some T) t () = Some v \<and> valid_time v \<and> tree_at sp_at T (raw_seconds v) \<and>
    raw_seconds v \<le> raw_seconds t \<and> (\<forall>x. raw_seconds v < x \<and> x \<le> raw_seconds t \<longrightarrow> \<not> tree_at sp_at T x)"
  using sharp_points.ReverseIntoDomain_ok [OF assms(1,2) year_window(1,2) [OF assms(2,3)]] assms(4-8) by blast

theorem timedomain_reverse_ok_witness:
  "\<exists>v. ReverseIntoDomain sharp (Some office_hours) noon () = Some v \<and> valid_time v \<and> tree_at sp_at office_hours (raw_seconds v) \<and>
    raw_seconds v \<le> raw_seconds noon \<and> (\<forall>x. raw_seconds v < x \<and> x \<le> raw_seconds noon \<longrightarrow> \<not> tree_at sp_at office_hours x)"
  by (rule timedomain_reverse_ok [OF office_hours_regular noon_ok(1) _ _ office_at_noon]) (simp_all add: noon_def)

text \<open>
  C5. \<open>GetNextDomain\<close> never trips its assertions: for a time between 1981 and 2500 before which membership has
  changed since 1981 it returns, and reports the start and the end of the first domain that starts after
  the time, unless more than 50 starts and ends of single domains lie before the end of every later domain.
\<close>
theorem timedomain_next_domain_ok:
  assumes "tree_regular yearly T" "valid_time t" "1981 \<le> ld_y t" "ld_y t \<le> 2500"
    and "domain_start \<le> y" "y \<le> raw_seconds t" "tree_at sp_at T y \<noteq> tree_at sp_at T (raw_seconds t)"
  shows "\<exists>r. GetNextDomain sharp (Some T) t () = Some r \<and> next_domain (tree_at sp_at T) (tree_mark sp_at T) t r"
  by (rule sharp_points.GetNextDomain_ok [OF assms(1,2) year_window(1,3) [OF assms(2,3)]]) (use assms(4-7) in simp_all)

theorem timedomain_next_domain_ok_witness:
  "\<exists>r. GetNextDomain sharp (Some office_hours) noon () = Some r \<and>
     next_domain (tree_at sp_at office_hours) (tree_mark sp_at office_hours) noon r"
  by (rule timedomain_next_domain_ok [OF office_hours_regular noon_ok(1) _ _ office_at_noon(1-3)]) (simp_all add: noon_def)

section \<open>Where the search gives up\<close>

text \<open>Every day but Christmas Day, and the first midnight of July 2014.\<close>

definition christmas :: "sharppoint timepoint" where
  "christmas = \<lparr>tp_point = sp_Clear\<lparr>sp_month := 12, sp_day_in_month := 25, sp_hour := 0, sp_minute := 0, sp_second := 0\<rparr>,
     tp_offset = zero_duration\<rparr>"

definition all_but_christmas :: "sharppoint td_tree" where
  "all_but_christmas = TD_SUBTRACTION (TD_NONE (PointDuration (daily 0) (zero_duration\<lparr>du_days := 1\<rparr>)))
     (TD_NONE (PointDuration christmas (zero_duration\<lparr>du_days := 1\<rparr>)))"

lemma all_but_christmas_parsed: "td_Init sharp ''[(h0){d1}] - [(M12d25){d1}]'' = Some (Some all_but_christmas, [], [])"
  by code_simp

definition first_of_july :: localtime where
  "first_of_july = noon\<lparr>lt_h := 0\<rparr>"

definition christmas_2014 :: localtime where
  "christmas_2014 = \<lparr>ld_y = 2014, ld_m = 12, ld_d = 25, lt_h = 0, lt_mn = 0, lt_s = 0, lt_is_dst = - 1\<rparr>"

lemma first_of_july_ok: "valid_time first_of_july" "raw_seconds first_of_july = 1404172800"
proof -
  show v: "valid_time first_of_july" using noon_ok(1) by (simp add: valid_time_def first_of_july_def noon_def)
  then show "raw_seconds first_of_july = 1404172800"
    using noon_ok(2) valid_time_raw [OF v] valid_time_raw [OF noon_ok(1)] by (simp add: first_of_july_def noon_def)
qed

lemma christmas_2014_ok: "valid_time christmas_2014" "raw_seconds christmas_2014 = 1419465600"
proof -
  show v: "valid_time christmas_2014"
    by (simp add: valid_time_def christmas_2014_def valid_date_def MaxDaysInMonth_def num_days_def)
  have "day_number 2014 12 25 = 16429"
    by (simp add: day_number_def year_start_def day_of_year_def day_1_seq_def IsLeapYear_def)
  then show "raw_seconds christmas_2014 = 1419465600" using valid_time_raw [OF v] by (simp add: christmas_2014_def)
qed

lemma all_but_christmas_regular: "tree_regular yearly all_but_christmas"
proof -
  have "tp_regular yearly christmas"
    by (simp add: tp_regular_def yearly_def christmas_def sp_ok_def opt_range_def day_fits_month_def sp_Clear_def UNDEFINED_def
        MaxDaysInMonth_def num_days_def du_fixed_def du_secs_def zero_duration_def one_year_def)
  then show ?thesis using daily_regular [of 0]
    by (simp add: all_but_christmas_def du_fixed_def du_secs_def zero_duration_def one_year_def)
qed

lemma christmas_at_2014:
  assumes "tp_at sp_at christmas x" "1404172800 - 86400 \<le> x" "x < 1419552000" shows "x = 1419465600"
proof -
  have m: "sp_matches (tp_point christmas) v \<longleftrightarrow> ld_m v = 12 \<and> ld_d v = 25 \<and> lt_h v = 0 \<and> lt_mn v = 0 \<and> lt_s v = 0" for v
    by (simp add: sp_matches_def christmas_def sp_Clear_def UNDEFINED_def fits_year_def fits_month_def fits_week_def fits_day_def
        fits_hour_def fits_minute_def fits_second_def)
  have "sp_at (tp_point christmas) x" using assms(1) by (simp add: tp_at_def christmas_def du_secs_def zero_duration_def)
  then obtain v where v: "valid_time v" "raw_seconds v = x" "ld_m v = 12" "ld_d v = 25" "lt_h v = 0" "lt_mn v = 0" "lt_s v = 0"
    using m unfolding sp_at_def by blast
  have "year_secs 2014 = 1388534400" "year_secs 2015 = 1420070400" by (simp_all add: year_secs_def year_start_def)
  then have "ld_y v = 2014" using ld_y_iff(1) [OF v(1), of 2014] ld_y_iff(2) [OF v(1), of 2015] v(2) assms(2,3) by simp
  then have "raw_seconds v = raw_seconds christmas_2014"
    using v valid_time_raw [OF v(1)] valid_time_raw [OF christmas_2014_ok(1)] by (simp add: christmas_2014_def)
  then show ?thesis using v(2) christmas_2014_ok(2) by simp
qed

text \<open>At each of the midnights the test suggests the next one.\<close>

lemma all_but_christmas_step:
  assumes "valid_time u" "raw_seconds u = 1404172800 + int k * 86400" "k \<le> 100"
  shows "\<exists>w. CheckTime_Subtree sharp all_but_christmas u () False True = Some (True, None, Some w) \<and>
    valid_time w \<and> raw_seconds w = 1404172800 + int (Suc k) * 86400"
proof -
  have u: "domain_start \<le> raw_seconds u" "raw_seconds u < domain_end" "raw_seconds u \<le> 1412812800" "1404172800 \<le> raw_seconds u"
    using assms(2,3) by (simp_all add: domain_window)
  have mod0: "raw_seconds u mod 86400 = 0"
  proof -
    have "1404172800 + int k * 86400 = (16252 + int k) * 86400" by simp
    then show ?thesis unfolding assms(2) by (metis mod_mult_self2_is_0)
  qed
  have d: "du_secs (zero_duration\<lparr>du_days := 1\<rparr>) = 86400" by (simp add: du_secs_def zero_duration_def)
  have r: "single_regular yearly (PointDuration (daily 0) (zero_duration\<lparr>du_days := 1\<rparr>))"
    "tree_regular yearly (TD_NONE (PointDuration christmas (zero_duration\<lparr>du_days := 1\<rparr>)))"
    using all_but_christmas_regular by (simp_all add: all_but_christmas_def)
  obtain n1 where n1: "CheckTime_Subtree sharp (TD_NONE (PointDuration (daily 0) (zero_duration\<lparr>du_days := 1\<rparr>))) u () False True =
      Some (True, None, Some n1)" "valid_time n1" "raw_seconds n1 = raw_seconds u + 86400"
    using sharp_points.CheckTime_inside [OF r(1) assms(1) u(1,2), of "raw_seconds u"] daily_at [of 0 "raw_seconds u"] mod0 u(4) d by auto
  let ?B = "tree_at sp_at (TD_NONE (PointDuration christmas (zero_duration\<lparr>du_days := 1\<rparr>)))"
  have B: "\<not> ?B (raw_seconds u)"
  proof
    assume "?B (raw_seconds u)"
    then obtain s where s: "tp_at sp_at christmas s" "s \<le> raw_seconds u" "raw_seconds u < s + 86400" using d by auto
    then have "s = 1419465600" using christmas_at_2014 [of s] u(3,4) by linarith
    then show False using s(2) u(3) by simp
  qed
  obtain p n2 where n2: "CheckTime_Subtree sharp (TD_NONE (PointDuration christmas (zero_duration\<lparr>du_days := 1\<rparr>))) u () False True =
      Some (False, None, Some n2)"
      "next_ok ?B (tree_mark sp_at (TD_NONE (PointDuration christmas (zero_duration\<lparr>du_days := 1\<rparr>)))) u n2"
    using sharp_points.CheckTime_Subtree_ok [OF r(2) assms(1) u(1,2), of False True] B unfolding answers_def by (auto simp: wanted_def)
  have v2: "valid_time n2" using n2(2) by (simp add: next_ok_def)
  have "raw_seconds n1 < raw_seconds n2"
  proof -
    have "raw_seconds u < raw_seconds n2" "tp_at sp_at christmas (raw_seconds n2) \<or> tp_at sp_at christmas (raw_seconds n2 - 86400)"
      using n2(2) d by (simp_all add: next_ok_def)
    then show ?thesis using christmas_at_2014 [of "raw_seconds n2"] christmas_at_2014 [of "raw_seconds n2 - 86400"] n1(3) u(3,4)
      by linarith
  qed
  then have "lt_min n1 n2 = n1" using lt_less_iff [OF v2 n1(2)] by (simp add: lt_min_def)
  then show ?thesis using n1 n2(1) assms(2)
    by (simp add: all_but_christmas_def check_intersection_def bounds_inner_def del: CheckTime_Subtree.simps(1))
qed

lemma all_but_christmas_gives_up:
  assumes "valid_time u" "raw_seconds u = 1404172800 + int k * 86400" "k + n \<le> 100"
  shows "find_next_boundary n sharp (Some all_but_christmas) True () u = Some lt_InfiniteFuture"
  using assms
proof (induction n arbitrary: u k)
  case (Suc n)
  obtain w where w: "CheckTime_Subtree sharp all_but_christmas u () False True = Some (True, None, Some w)"
      "valid_time w" "raw_seconds w = 1404172800 + int (Suc k) * 86400"
    using all_but_christmas_step [OF Suc.prems(1,2)] Suc.prems(3) by auto
  have "IsFinite u" using Suc.prems by (simp add: IsFinite_iff)
  moreover have "find_next_boundary n sharp (Some all_but_christmas) True () w = Some lt_InfiniteFuture"
    using Suc.IH [OF w(2,3)] Suc.prems(3) by simp
  ultimately show ?case using w(1) by (simp add: CheckTime_root_def)
qed simp

text \<open>
  C33. The limit of 50 tries is met by a plain domain: for every day but Christmas Day, \<open>CheckTime\<close> on the
  first of July 2014 reports that the domain never ends, although Christmas Day 2014 is outside.
\<close>
theorem timedomain_gives_up_after_50_tries:
  "td_Init sharp ''[(h0){d1}] - [(M12d25){d1}]'' = Some (Some all_but_christmas, [], []) \<and>
   td_CheckTime sharp (Some all_but_christmas) first_of_july () False True = Some (True, None, Some lt_InfiniteFuture) \<and>
   lt_less first_of_july christmas_2014 \<and> \<not> tree_at sp_at all_but_christmas (raw_seconds christmas_2014)"
proof (intro conjI)
  show "td_Init sharp ''[(h0){d1}] - [(M12d25){d1}]'' = Some (Some all_but_christmas, [], [])" by (rule all_but_christmas_parsed)
  obtain w where w: "CheckTime_Subtree sharp all_but_christmas first_of_july () False True = Some (True, None, Some w)"
      "valid_time w" "raw_seconds w = 1404172800 + int 1 * 86400"
    using all_but_christmas_step [OF first_of_july_ok(1), of 0] first_of_july_ok(2) by auto
  show "td_CheckTime sharp (Some all_but_christmas) first_of_july () False True = Some (True, None, Some lt_InfiniteFuture)"
    using all_but_christmas_gives_up [OF w(2,3), of 50] w(1) by (simp add: td_CheckTime_def CheckTime_root_def)
  show "lt_less first_of_july christmas_2014"
    using lt_less_iff [OF first_of_july_ok(1) christmas_2014_ok(1)] first_of_july_ok(2) christmas_2014_ok(2) by simp
  have "sp_at (tp_point christmas) (raw_seconds christmas_2014)"
    unfolding sp_at_def using christmas_2014_ok(1)
    by (intro exI [of _ christmas_2014]) (simp add: christmas_2014_def sp_matches_def christmas_def sp_Clear_def UNDEFINED_def
        fits_year_def fits_month_def fits_week_def fits_day_def fits_hour_def fits_minute_def fits_second_def)
  then have "tp_at sp_at christmas (raw_seconds christmas_2014)"
    by (simp add: tp_at_def christmas_def du_secs_def zero_duration_def)
  then show "\<not> tree_at sp_at all_but_christmas (raw_seconds christmas_2014)"
    by (auto simp: all_but_christmas_def du_secs_def zero_duration_def)
qed

definition first_of_1971 :: localtime where
  "first_of_1971 = \<lparr>ld_y = 1971, ld_m = 1, ld_d = 1, lt_h = 0, lt_mn = 0, lt_s = 0, lt_is_dst = - 1\<rparr>"

lemma first_of_1971_ok: "valid_time first_of_1971" "raw_seconds first_of_1971 = 31536000"
proof -
  show v: "valid_time first_of_1971"
    by (simp add: valid_time_def first_of_1971_def valid_date_def MaxDaysInMonth_def num_days_def)
  have "day_number 1971 1 1 = 365"
    by (simp add: day_number_def year_start_def day_of_year_def day_1_seq_def)
  then show "raw_seconds first_of_1971 = 31536000" using valid_time_raw [OF v] by (simp add: first_of_1971_def)
qed

lemma previous_midnight: "tp_GetPrevious sharp (daily 0) first_of_1971 () = Some (True, first_of_1971)"
proof -
  let ?t = first_of_1971
  have fin: "IsFinite ?t" by (simp add: first_of_1971_def IsFinite_def)
  have off: "tp_offset (daily 0) = zero_duration" "du_fixed zero_duration" "du_secs zero_duration = 0"
    by (simp_all add: daily_def du_fixed_def du_secs_def zero_duration_def)
  have same: "u = ?t" if "valid_time u" "raw_seconds u = raw_seconds ?t" "lt_is_dst u = - 1" for u
    using that SameLocalTime_iff [OF that(1) first_of_1971_ok(1)] same_time_eq [of u ?t] by (simp add: first_of_1971_def)
  have m: "minus_duration ?t zero_duration = Some ?t"
    using minus_duration_ok [OF first_of_1971_ok(1) fin off(2)] off(3) same first_of_1971_ok(2) by auto
  have p: "plus_duration ?t zero_duration = Some ?t"
    using plus_duration_ok [OF first_of_1971_ok(1) fin off(2)] off(3) same first_of_1971_ok(2) by auto
  have "ModifyTime_pass (tp_point (daily 0)) False ?t = Some Unchanged"
    by (simp add: ModifyTime_pass_def otherwise_def adjust_1970_def adjust_year_def adjust_month_def adjust_week_def adjust_day_def
        adjust_hour_def adjust_minute_def adjust_second_def daily_def sp_Clear_def UNDEFINED_def first_of_1971_def)
  then have "ModifyTime_loop (tp_point (daily 0)) False ?t = Some (True, ?t)" by (subst ModifyTime_loop.simps) simp
  then have "sp_GetPrevious (tp_point (daily 0)) ?t = Some (True, ?t)" using fin by (simp add: sp_GetPrevious_def ModifyTime_def)
  then show ?thesis using fin m p off(1) by (simp add: tp_GetPrevious_def sharp_def)
qed

text \<open>
  C34. Near the beginning of 1971 the search for the previous boundary runs into the infinite past: for a domain
  that covers every day, \<open>CheckTime\<close> on the first of January 1971 with the previous boundary requested steps back to
  the last second of 1970, which counts as infinite, and a failing assertion aborts the program.
\<close>
theorem timedomain_check_aborts_in_1971:
  "td_Init sharp ''[(h0){d1}]'' = Some (Some (TD_NONE (PointDuration (daily 0) (zero_duration\<lparr>du_days := 1\<rparr>))), [], []) \<and>
   valid_time first_of_1971 \<and> IsFinite first_of_1971 \<and>
   td_CheckTime sharp (Some (TD_NONE (PointDuration (daily 0) (zero_duration\<lparr>du_days := 1\<rparr>)))) first_of_1971 () True False = None"
proof (intro conjI)
  let ?x = "PointDuration (daily 0) (zero_duration\<lparr>du_days := 1\<rparr>)"
  show "td_Init sharp ''[(h0){d1}]'' = Some (Some (TD_NONE ?x), [], [])" by code_simp
  show v: "valid_time first_of_1971" by (rule first_of_1971_ok)
  show fin: "IsFinite first_of_1971" by (simp add: first_of_1971_def IsFinite_def)
  obtain e where e: "plus_duration first_of_1971 (zero_duration\<lparr>du_days := 1\<rparr>) = Some e" "valid_time e" "raw_seconds e = 31536000 + 86400"
    using plus_duration_ok [OF v fin, of "zero_duration\<lparr>du_days := 1\<rparr>"] first_of_1971_ok(2)
    by (auto simp: du_fixed_def du_secs_def zero_duration_def)
  have "lt_less_eq first_of_1971 first_of_1971" "lt_less first_of_1971 e"
    using lt_less_iff [OF v v] lt_less_iff [OF v e(2)] e(3) first_of_1971_ok(2) by (simp_all add: lt_less_eq_iff)
  then have c: "CheckTime_root sharp (Some (TD_NONE ?x)) first_of_1971 () True False = Some (True, Some first_of_1971, None)"
    using previous_midnight e(1) by (simp add: CheckTime_root_def single_CheckTime_def CheckDomain_def wanted_def)
  obtain s where s: "GetPrevSecond first_of_1971 = Some s" "valid_time s" "raw_seconds s = 31535999"
    using GetPrevSecond_ok [OF v] first_of_1971_ok(2) by auto
  then have "\<not> IsFinite s" by (simp add: IsFinite_iff)
  then have "CheckTime_root sharp (Some (TD_NONE ?x)) s () True False = None"
    by (simp add: CheckTime_root_def single_CheckTime_def tp_GetPrevious_def)
  then have "find_prev_boundary (Suc 49) sharp (Some (TD_NONE ?x)) True () first_of_1971 = None"
    unfolding find_prev_boundary.simps using fin s(1) by simp
  then show "td_CheckTime sharp (Some (TD_NONE ?x)) first_of_1971 () True False = None"
    using c by (simp add: td_CheckTime_def numeral_nat)
qed
end
