(* ===== verification/StrUtil.thy ===== *)
theory StrUtil
  imports StrEscape
begin

text \<open>
  The scanning, trimming, case and name functions of \<open>util/string/strutil.h\<close> and
  \<open>strutil.cc\<close>. A function that takes a \<open>const char *\<close> gets a list without a zero byte;
  one that takes a \<open>string\<close> and reads its \<open>c_str()\<close> cuts it at the first zero byte.
\<close>

section \<open>Scanning and trimming\<close>

definition SkipAlphaNumeric :: "string \<Rightarrow> string" where
  "SkipAlphaNumeric s = dropWhile IS_ALPHANUMERIC_INTL s"

definition SkipNonAlphaNumeric :: "string \<Rightarrow> string" where
  "SkipNonAlphaNumeric s = dropWhile (\<lambda>c. c \<noteq> NUL \<and> \<not> IS_ALPHANUMERIC_INTL c) s"

definition Trim :: "string \<Rightarrow> string" where
  "Trim str =
     (if list_all (\<lambda>c. c = CHR '' '') str then []
      else dropWhile (\<lambda>c. c = CHR '' '') (rev (dropWhile (\<lambda>c. c = CHR '' '') (rev str))))"

definition RemoveTrailingSpaces :: "string \<Rightarrow> string" where
  "RemoveTrailingSpaces s = rev (dropWhile spacelike (rev s))"

definition GetTrimmedString :: "string \<Rightarrow> string" where
  "GetTrimmedString s = rev (dropWhile spacelike (rev (dropWhile spacelike s)))"

definition TrimLines :: "string \<Rightarrow> string" where
  "TrimLines s =
     (let lead = takeWhile spacelike s;
          s1 = rev (takeWhile (\<lambda>c. c = CHR '' '') (rev lead)) @ dropWhile spacelike s;
          trailing_newline = list_ex (\<lambda>c. c = CHR 0x0A) (takeWhile spacelike (rev s1));
          newstring = rev (dropWhile spacelike (rev s1))
      in if trailing_newline then newstring @ [CHR 0x0D, CHR 0x0A] else newstring)"

definition RemoveAllSpaces :: "string \<Rightarrow> string" where
  "RemoveAllSpaces input = filter (\<lambda>c. \<not> spacelike c) input"

definition AlphaNumericContent :: "string \<Rightarrow> string" where
  "AlphaNumericContent input = filter IS_ALPHANUMERIC_INTL input"

definition IsEmpty :: "string \<Rightarrow> bool" where
  "IsEmpty input = list_all spacelike input"

definition RemoveLastWord :: "string \<Rightarrow> string" where
  "RemoveLastWord s =
     rev (dropWhile spacelike (dropWhile (\<lambda>c. \<not> spacelike c) (dropWhile spacelike (rev s))))"

definition IsNumeric :: "string \<Rightarrow> bool" where
  "IsNumeric str = list_all IS_DIGIT str"

definition ErrorMsg :: "string \<Rightarrow> int \<Rightarrow> string" where
  "ErrorMsg message offset = ''Error at char '' @ print_int offset @ '': '' @ message"

fun Indent_loop :: "nat \<Rightarrow> bool \<Rightarrow> string \<Rightarrow> string" where
  "Indent_loop num_indent is_new_line [] = []"
| "Indent_loop num_indent is_new_line (c # s) =
     (if is_new_line then replicate num_indent (CHR '' '') else []) @ c #
     Indent_loop num_indent (c = CHR 0x0A) s"

definition Indent :: "string \<Rightarrow> nat \<Rightarrow> string" where
  "Indent original num_indent = Indent_loop num_indent True original"

text \<open>Only the removal is modelled; on the empty string the code forms an iterator before the begin.\<close>

fun StripTags_loop :: "bool \<Rightarrow> string \<Rightarrow> string \<Rightarrow> string \<Rightarrow> string" where
  "StripTags_loop found_tag_end tag kept [] = tag @ kept"
| "StripTags_loop found_tag_end tag kept (c # rs) =
     (if \<not> found_tag_end \<and> c = CHR ''>'' then StripTags_loop True [c] kept rs
      else if found_tag_end \<and> c = CHR ''<'' then StripTags_loop False [] kept rs
      else if found_tag_end then StripTags_loop True (c # tag) kept rs
      else StripTags_loop False [] (c # kept) rs)"

definition StripTags :: "string \<Rightarrow> string" where
  "StripTags html_str = StripTags_loop False [] [] (rev html_str)"

section \<open>Case\<close>

definition ToUpper :: "string \<Rightarrow> string" where
  "ToUpper input = map toupper input"

definition ToLower :: "string \<Rightarrow> string" where
  "ToLower input = map tolower input"

definition ContainsLowerCase :: "string \<Rightarrow> bool" where
  "ContainsLowerCase input = list_ex (\<lambda>c. 97 \<le> byte c \<and> byte c \<le> 122) input"

fun EqualIgnoreCase_loop :: "string \<Rightarrow> string \<Rightarrow> bool" where
  "EqualIgnoreCase_loop (c # s1) (d # s2) = (if tolower c \<noteq> tolower d then False else EqualIgnoreCase_loop s1 s2)"
| "EqualIgnoreCase_loop _ _ = True"

definition EqualIgnoreCase :: "string \<Rightarrow> string \<Rightarrow> bool" where
  "EqualIgnoreCase s1 s2 = (if length s1 \<noteq> length s2 then False else EqualIgnoreCase_loop s1 s2)"

fun IsPrefix_ptr :: "string \<Rightarrow> string \<Rightarrow> bool" where
  "IsPrefix_ptr (c # s1) (d # s2) = (if toupper c \<noteq> toupper d then False else IsPrefix_ptr s1 s2)"
| "IsPrefix_ptr s1 s2 = (at_ptr s1 = NUL)"

definition IsPrefix :: "string \<Rightarrow> string \<Rightarrow> bool" where
  "IsPrefix s1 s2 = IsPrefix_ptr (c_str s1) (c_str s2)"

definition FixSpecialCapitalization :: "string \<Rightarrow> string \<Rightarrow> nat \<Rightarrow> string \<Rightarrow> string option" where
  "FixSpecialCapitalization from to end_index s = do {
     let len = length from;
     ASSERT (len = length to);
     if len \<le> end_index + 1 then do {
       let start = end_index + 1 - len;
       if start = 0 \<or> \<not> IS_LETTER (s ! (start - 1)) then
         if list_all (\<lambda>i. tolower (s ! (start + i)) = tolower (from ! i)) [0..<len] then
           Some (fold (\<lambda>i s. s[start + i := to ! i]) [0..<len] s)
         else Some s
       else Some s
     }
     else Some s
   }"

definition special_words :: "(string \<times> string) list" where
  "special_words = [(''us'', ''US''), (''usa'', ''USA''), (''de'', ''de''), (''del'', ''del''),
     (''and'', ''and''), (''at'', ''at''), (''of'', ''of''), (''the'', ''the''), (''to'', ''to''),
     (''la'', ''la''), (''nw'', ''NW''), (''ne'', ''NE''), (''sw'', ''SW''), (''se'', ''SE''),
     (''id'', ''ID''), (''aaa'', ''AAA''), (''caa'', ''CAA''), (''aarp'', ''AARP''), (''ada'', ''ADA''),
     (''usd'', ''USD''), (''cad'', ''CAD''), (''eur'', ''EUR''), (''jpy'', ''JPY'')]"

fun fix_all :: "(string \<times> string) list \<Rightarrow> nat \<Rightarrow> string \<Rightarrow> string option" where
  "fix_all [] i s = Some s"
| "fix_all ((from, to) # ws) i s = do {
     s \<leftarrow> FixSpecialCapitalization from to i s;
     fix_all ws i s
   }"

definition Capitalize_step :: "nat \<Rightarrow> string \<Rightarrow> string option" where
  "Capitalize_step i s =
     (let prev = (if i = 0 then CHR '' '' else s ! (i - 1));
          s = (if IS_LETTER (s ! i) \<and> \<not> IS_LETTER prev \<and> \<not> IS_DIGIT prev \<and> prev \<noteq> CHR 0x27
               then s[i := toupper (s ! i)] else s[i := tolower (s ! i)])
      in if i = length s - 1 \<or> (IS_LETTER (s ! i) \<and> \<not> IS_LETTER (s ! (i + 1)))
         then fix_all special_words i s else Some s)"

fun Capitalize_loop :: "nat list \<Rightarrow> string \<Rightarrow> string option" where
  "Capitalize_loop [] s = Some s"
| "Capitalize_loop (i # is) s = do { s \<leftarrow> Capitalize_step i s; Capitalize_loop is s }"

definition Capitalize :: "string \<Rightarrow> string option" where
  "Capitalize input = Capitalize_loop [0..<length input] input"

definition FixCapitalization :: "string \<Rightarrow> string option" where
  "FixCapitalization input =
     (if input \<noteq> [] \<and> \<not> ContainsLowerCase input then Capitalize input else Some input)"

fun AllUpperToAllLower_loop :: "bool \<Rightarrow> string \<Rightarrow> string" where
  "AllUpperToAllLower_loop beginning [] = []"
| "AllUpperToAllLower_loop beginning (c # s) =
     (if c = CHR ''.'' then c # AllUpperToAllLower_loop True s
      else if 65 \<le> byte c \<and> byte c \<le> 90 then
        if beginning then c # AllUpperToAllLower_loop False s
        else tolower c # AllUpperToAllLower_loop beginning s
      else c # AllUpperToAllLower_loop beginning s)"

definition AllUpperToAllLower :: "string \<Rightarrow> string" where
  "AllUpperToAllLower input = (if \<not> ContainsLowerCase input then AllUpperToAllLower_loop True input else input)"

section \<open>Names and words\<close>

function SameName_ptr :: "string \<Rightarrow> string \<Rightarrow> bool option" where
  "SameName_ptr s1 s2 =
     (let s1 = dropWhile (\<lambda>c. c \<noteq> NUL \<and> \<not> IS_DIGIT c \<and> \<not> IS_LETTER c) s1;
          s2 = dropWhile (\<lambda>c. c \<noteq> NUL \<and> \<not> IS_DIGIT c \<and> \<not> IS_LETTER c) s2
      in if toupper (at_ptr s1) \<noteq> toupper (at_ptr s2) then Some False
         else if at_ptr s1 = NUL then do { ASSERT (at_ptr s2 = NUL); Some True }
         else do { ASSERT (at_ptr s2 \<noteq> NUL); SameName_ptr (drop 1 s1) (drop 1 s2) })"
  by pat_completeness auto
termination
proof (relation "measure (\<lambda>(s1, s2). length s1)")
  fix s1 s2 t1 t2 u
  assume t: "t1 = dropWhile (\<lambda>c. c \<noteq> NUL \<and> \<not> IS_DIGIT c \<and> \<not> IS_LETTER c) s1" and ne: "at_ptr t1 \<noteq> NUL"
  from ne have "0 < length t1" by (cases t1) simp_all
  moreover have "length t1 \<le> length s1" unfolding t by (rule length_dropWhile_le)
  ultimately have "length t1 - 1 < length s1" by linarith
  then show "((drop 1 t1, drop 1 t2), s1, s2) \<in> measure (\<lambda>(s1, s2). length s1)"
    by (simp only: in_measure case_prod_conv length_drop)
qed auto

declare SameName_ptr.simps [simp del]

definition SameName :: "string \<Rightarrow> string \<Rightarrow> bool option" where
  "SameName str1 str2 = SameName_ptr (c_str str1) (c_str str2)"

definition strncasecmp_eq :: "string \<Rightarrow> string \<Rightarrow> nat \<Rightarrow> bool" where
  "strncasecmp_eq s t n \<longleftrightarrow> map tolower (take n s) = map tolower (take n t)"

function ContainsWord_ptr :: "string \<Rightarrow> nat \<Rightarrow> string \<Rightarrow> bool" where
  "ContainsWord_ptr needle needle_len s =
     (let s = dropWhile (\<lambda>c. \<not> IS_ALPHANUMERIC c) s
      in if s = [] then False
         else if strncasecmp_eq s needle needle_len \<and> \<not> IS_ALPHANUMERIC (at_ptr (drop needle_len s)) then True
         else ContainsWord_ptr needle needle_len (dropWhile IS_ALPHANUMERIC s))"
  by pat_completeness auto
termination
proof (relation "measure (\<lambda>(n, k, s). length s)")
  fix needle needle_len s t
  assume t: "t = dropWhile (\<lambda>c. \<not> IS_ALPHANUMERIC c) s" and ne: "t \<noteq> []"
  have "IS_ALPHANUMERIC (hd t)" using ne hd_dropWhile unfolding t by blast
  then have "length (dropWhile IS_ALPHANUMERIC t) < length t"
    using ne by (cases t) (auto simp: le_imp_less_Suc length_dropWhile_le)
  also have "\<dots> \<le> length s" unfolding t by (rule length_dropWhile_le)
  finally show "((needle, needle_len, dropWhile IS_ALPHANUMERIC t), needle, needle_len, s) \<in> measure (\<lambda>(n, k, s). length s)"
    by simp
qed auto

declare ContainsWord_ptr.simps [simp del]

definition ContainsWord :: "string \<Rightarrow> string \<Rightarrow> bool" where
  "ContainsWord haystack needle = ContainsWord_ptr (c_str needle) (length needle) (c_str haystack)"

lemma length_SkipNonAlphaNumeric: "length (SkipNonAlphaNumeric s) \<le> length s"
  by (simp add: SkipNonAlphaNumeric_def length_dropWhile_le)

function NormalizeName_loop :: "string \<Rightarrow> string" where
  "NormalizeName_loop [] = []"
| "NormalizeName_loop (c # s) =
     (if IS_ALPHANUMERIC_INTL c then c # NormalizeName_loop s
      else if c = NUL then []
      else let s' = SkipNonAlphaNumeric (c # s)
           in (if s' \<noteq> [] then [CHR '' ''] else []) @ NormalizeName_loop s')"
  by pat_completeness auto
termination
proof (relation "measure length")
  fix c s s'
  assume "\<not> IS_ALPHANUMERIC_INTL c" "c \<noteq> NUL" "s' = SkipNonAlphaNumeric (c # s)"
  then have "s' = SkipNonAlphaNumeric s" by (simp add: SkipNonAlphaNumeric_def)
  then show "(s', c # s) \<in> measure length" using length_SkipNonAlphaNumeric [of s] by simp
qed auto

definition NormalizeName :: "string \<Rightarrow> string" where
  "NormalizeName str = NormalizeName_loop (SkipNonAlphaNumeric (c_str str))"

function NormalizeNameIntoWords_loop :: "string \<Rightarrow> string list" where
  "NormalizeNameIntoWords_loop s =
     (if s = [] \<or> \<not> IS_ALPHANUMERIC_INTL (at_ptr s) then []
      else takeWhile IS_ALPHANUMERIC_INTL s #
           NormalizeNameIntoWords_loop (SkipNonAlphaNumeric (SkipAlphaNumeric s)))"
  by pat_completeness auto
termination
proof (relation "measure length")
  fix s assume a: "\<not> (s = [] \<or> \<not> IS_ALPHANUMERIC_INTL (at_ptr s))"
  then have "length (SkipAlphaNumeric s) < length s"
    by (cases s) (auto simp: SkipAlphaNumeric_def le_imp_less_Suc length_dropWhile_le)
  then show "(SkipNonAlphaNumeric (SkipAlphaNumeric s), s) \<in> measure length"
    using length_SkipNonAlphaNumeric [of "SkipAlphaNumeric s"] by simp
qed simp

declare NormalizeNameIntoWords_loop.simps [simp del]

definition NormalizeNameIntoWords :: "string \<Rightarrow> string list" where
  "NormalizeNameIntoWords str = NormalizeNameIntoWords_loop (SkipNonAlphaNumeric (c_str str))"

fun ExtractText_loop :: "char \<Rightarrow> string \<Rightarrow> bool \<Rightarrow> string \<Rightarrow> string \<times> bool" where
  "ExtractText_loop dummy [] was_dummy ret = (ret, was_dummy)"
| "ExtractText_loop dummy (c # s) was_dummy ret =
     (if 97 \<le> byte c \<and> byte c \<le> 122 \<or> 128 \<le> byte c then ExtractText_loop dummy s False (ret @ [c])
      else if 65 \<le> byte c \<and> byte c \<le> 90 then ExtractText_loop dummy s False (ret @ [char_of (byte c + 32)])
      else ExtractText_loop dummy s True (if \<not> was_dummy then ret @ [dummy] else ret))"

definition ExtractText :: "string \<Rightarrow> char \<Rightarrow> string" where
  "ExtractText s dummy =
     (let (ret, was_dummy) = ExtractText_loop dummy s True []
      in if was_dummy \<and> ret \<noteq> [] then butlast ret else ret)"

definition ToHex :: "string \<Rightarrow> string" where
  "ToHex str = concat (map (\<lambda>c. CHR 0x5C # CHR ''x'' # TwoDigitHex (byte c)) str)"

section \<open>Buffers\<close>

definition AppendDataToString :: "string \<Rightarrow> int \<Rightarrow> int \<Rightarrow> string \<Rightarrow> int \<times> string" where
  "AppendDataToString data len result_size_limit res =
     (if len \<le> 0 then (0, res)
      else if result_size_limit < 0 then (len, res @ take (nat len) data)
      else
        let free_space = result_size_limit - int (length res) in
        if len \<le> free_space then (len, res @ take (nat len) data)
        else (free_space, if 0 < free_space then res @ take (nat free_space) data else res))"

text \<open>
  \<open>GetFixedWidthInteger<int>\<close> on a field that lies inside the buffer: the state of the loop is
  (\<open>started\<close>, \<open>seen_digit\<close>, \<open>negative\<close>, \<open>r\<close>).
\<close>

fun GetFixedWidthInt_loop :: "string \<Rightarrow> bool \<Rightarrow> bool \<Rightarrow> bool \<Rightarrow> int \<Rightarrow> bool \<times> bool \<times> int" where
  "GetFixedWidthInt_loop [] started seen_digit negative r = (seen_digit, negative, r)"
| "GetFixedWidthInt_loop (c # p) started seen_digit negative r =
     (if \<not> spacelike c then
        if c = CHR ''-'' \<and> \<not> started then GetFixedWidthInt_loop p True seen_digit True r
        else if c = CHR ''+'' \<and> \<not> started then GetFixedWidthInt_loop p True seen_digit False r
        else if IS_DIGIT c then GetFixedWidthInt_loop p True True negative (int32 (r * 10 + digit_val c))
        else (seen_digit, negative, r)
      else GetFixedWidthInt_loop p started seen_digit negative r)"

definition GetFixedWidthInt :: "string \<Rightarrow> nat \<Rightarrow> int \<times> bool" where
  "GetFixedWidthInt input len =
     (let (seen_digit, negative, r) = GetFixedWidthInt_loop (take len input) False False False 0
      in if seen_digit then (if negative then int32 (- r) else r, True) else (0, False))"

section \<open>Comparing names\<close>

lemma filter_dropWhile_not: "filter A (dropWhile (\<lambda>c. \<not> A c) s) = filter A s"
  by (induction s) simp_all

lemma skip_to_alnum:
  assumes "NUL \<notin> set s"
  shows "dropWhile (\<lambda>c. c \<noteq> NUL \<and> \<not> IS_DIGIT c \<and> \<not> IS_LETTER c) s = dropWhile (\<lambda>c. \<not> IS_ALPHANUMERIC c) s"
  using assms by (induction s) (auto simp: IS_ALPHANUMERIC_def)

lemma at_ptr_NUL_iff: "NUL \<notin> set s \<Longrightarrow> at_ptr s = NUL \<longleftrightarrow> s = []"
  by (cases s) auto

lemma dropWhile_shape: "dropWhile (\<lambda>c. \<not> A c) s = [] \<or> (\<exists>c r. dropWhile (\<lambda>c. \<not> A c) s = c # r \<and> A c)"
  by (induction s) auto

lemma alnum_not_NUL: "IS_ALPHANUMERIC c \<Longrightarrow> c \<noteq> NUL"
  by (auto simp: IS_ALPHANUMERIC_def IS_DIGIT_def IS_LETTER_def)

text \<open>The comparison key: the letters and digits, in upper case.\<close>

definition name_key :: "string \<Rightarrow> string" where
  "name_key s = map toupper (filter IS_ALPHANUMERIC s)"

lemma name_key_cases:
  obtains (empty) "dropWhile (\<lambda>c. \<not> IS_ALPHANUMERIC c) s = []" "name_key s = []"
  | (next_char) c r where "dropWhile (\<lambda>c. \<not> IS_ALPHANUMERIC c) s = c # r" "IS_ALPHANUMERIC c"
      "name_key s = toupper c # name_key r" "set r \<subseteq> set s"
proof -
  let ?d = "dropWhile (\<lambda>c. \<not> IS_ALPHANUMERIC c) s"
  have k: "name_key s = name_key ?d" by (simp add: name_key_def filter_dropWhile_not)
  show ?thesis
  proof (cases "?d = []")
    case True
    with k show ?thesis by (intro empty) (simp_all add: name_key_def)
  next
    case False
    then obtain c r where d: "?d = c # r" "IS_ALPHANUMERIC c" using dropWhile_shape by blast
    have "set r \<subseteq> set s" using d(1) set_dropWhileD [of _ "\<lambda>c. \<not> IS_ALPHANUMERIC c" s] by (metis list.set_intros(2) subsetI)
    with d k show ?thesis by (intro next_char [OF d]) (simp_all add: name_key_def)
  qed
qed

lemma SameName_ptr_iff:
  "NUL \<notin> set s1 \<Longrightarrow> NUL \<notin> set s2 \<Longrightarrow> SameName_ptr s1 s2 = Some (name_key s1 = name_key s2)"
proof (induction "length s1" arbitrary: s1 s2 rule: less_induct)
  case less
  note unfold = SameName_ptr.simps [of s1 s2] skip_to_alnum [OF less.prems(1)] skip_to_alnum [OF less.prems(2)]
  show ?case
  proof (cases s1 rule: name_key_cases)
    case empty
    then show ?thesis
    proof (cases s2 rule: name_key_cases)
      case (next_char c r)
      then have "toupper c \<noteq> NUL" using alnum_not_NUL by simp
      with empty next_char show ?thesis by (simp add: unfold Let_def del: dropWhile_eq_Nil_conv)
    qed (simp add: unfold Let_def del: dropWhile_eq_Nil_conv)
  next
    case one: (next_char c r)
    have c: "toupper c \<noteq> NUL" "c \<noteq> NUL" using one(2) alnum_not_NUL by auto
    show ?thesis
    proof (cases s2 rule: name_key_cases)
      case empty
      with one c show ?thesis by (simp add: unfold Let_def del: dropWhile_eq_Nil_conv)
    next
      case two: (next_char d q)
      have d: "d \<noteq> NUL" using two(2) alnum_not_NUL by auto
      have "length (c # r) \<le> length s1" using length_dropWhile_le [of "\<lambda>c. \<not> IS_ALPHANUMERIC c" s1] one(1) by simp
      then have "SameName_ptr r q = Some (name_key r = name_key q)"
        using less.hyps [of r q] one(4) two(4) less.prems by auto
      with one two c d show ?thesis by (simp add: unfold Let_def del: dropWhile_eq_Nil_conv)
    qed
  qed
qed

lemma IsPrefix_ptr_iff:
  "NUL \<notin> set s1 \<Longrightarrow> IsPrefix_ptr s1 s2 \<longleftrightarrow> map toupper s1 = take (length s1) (map toupper s2)"
  by (induction s1 s2 rule: IsPrefix_ptr.induct) (auto simp: at_ptr_NUL_iff)

section \<open>Normalized names\<close>

fun join_words :: "string list \<Rightarrow> string" where
  "join_words [] = []"
| "join_words [w] = w"
| "join_words (w # ws) = w @ [CHR '' ''] @ join_words ws"

lemma skip_to_intl:
  "NUL \<notin> set s \<Longrightarrow> SkipNonAlphaNumeric s = dropWhile (\<lambda>c. \<not> IS_ALPHANUMERIC_INTL c) s"
  by (induction s) (auto simp: SkipNonAlphaNumeric_def)

lemma NormalizeName_loop_word:
  assumes "NUL \<notin> set s"
  shows "NormalizeName_loop s = takeWhile IS_ALPHANUMERIC_INTL s @
    (if dropWhile IS_ALPHANUMERIC_INTL s = [] then []
     else let r = SkipNonAlphaNumeric (dropWhile IS_ALPHANUMERIC_INTL s)
          in (if r \<noteq> [] then [CHR '' ''] else []) @ NormalizeName_loop r)"
  using assms by (induction s) (auto simp: Let_def)

lemma set_SkipNonAlphaNumeric: "set (SkipNonAlphaNumeric s) \<subseteq> set s"
  using set_dropWhileD by (fastforce simp: SkipNonAlphaNumeric_def)

lemma words_Nil_iff:
  "s = [] \<or> IS_ALPHANUMERIC_INTL (at_ptr s) \<Longrightarrow> NormalizeNameIntoWords_loop s = [] \<longleftrightarrow> s = []"
  by (subst NormalizeNameIntoWords_loop.simps) auto

lemma NormalizeName_loop_words:
  "NUL \<notin> set s \<Longrightarrow> s = [] \<or> IS_ALPHANUMERIC_INTL (at_ptr s) \<Longrightarrow>
   NormalizeName_loop s = join_words (NormalizeNameIntoWords_loop s)"
proof (induction s rule: NormalizeNameIntoWords_loop.induct)
  case (1 s)
  show ?case
  proof (cases "s = []")
    case True
    then show ?thesis by (subst NormalizeNameIntoWords_loop.simps) simp
  next
    case False
    with 1 have a: "\<not> (s = [] \<or> \<not> IS_ALPHANUMERIC_INTL (at_ptr s))" by simp
    let ?d = "SkipAlphaNumeric s" and ?w = "takeWhile IS_ALPHANUMERIC_INTL s"
    let ?r = "SkipNonAlphaNumeric ?d"
    have d: "NUL \<notin> set ?d" using "1.prems"(1) set_dropWhileD by (fastforce simp: SkipAlphaNumeric_def)
    have r: "NUL \<notin> set ?r" using d set_SkipNonAlphaNumeric by blast
    have rs: "?r = [] \<or> IS_ALPHANUMERIC_INTL (at_ptr ?r)"
      using dropWhile_shape [of IS_ALPHANUMERIC_INTL ?d] skip_to_intl [OF d] by auto
    have words: "NormalizeNameIntoWords_loop s = ?w # NormalizeNameIntoWords_loop ?r"
      using a by (subst NormalizeNameIntoWords_loop.simps) simp
    have IH: "NormalizeName_loop ?r = join_words (NormalizeNameIntoWords_loop ?r)"
      using "1.IH" [OF a r rs] .
    show ?thesis
    proof (cases "?r = []")
      case True
      then show ?thesis
        using NormalizeName_loop_word [OF "1.prems"(1)] words words_Nil_iff [of "[]"]
        by (auto simp: SkipAlphaNumeric_def)
    next
      case False
      then have "?d \<noteq> []" by (auto simp: SkipNonAlphaNumeric_def)
      moreover obtain v vs where "NormalizeNameIntoWords_loop ?r = v # vs"
        using words_Nil_iff [OF rs] False by (cases "NormalizeNameIntoWords_loop ?r") auto
      ultimately show ?thesis
        using NormalizeName_loop_word [OF "1.prems"(1)] words IH False by (simp add: SkipAlphaNumeric_def)
    qed
  qed
qed

section \<open>Capitalization\<close>

lemma toupper_tolower [simp]: "toupper (tolower c) = toupper c"
  by (auto simp: toupper_def tolower_def)

lemma tolower_eq_imp_toupper: "tolower c = tolower d \<Longrightarrow> toupper c = toupper d"
  by (metis toupper_tolower)

definition same_but_case :: "string \<Rightarrow> string \<Rightarrow> bool" where
  "same_but_case s t \<longleftrightarrow> map toupper s = map toupper t"

lemma same_but_case_length: "same_but_case s t \<Longrightarrow> length s = length t"
  by (simp add: same_but_case_def) (metis length_map)

lemma same_but_case_trans: "same_but_case s t \<Longrightarrow> same_but_case t u \<Longrightarrow> same_but_case s u"
  by (simp add: same_but_case_def)

lemma same_but_case_update:
  "i < length s \<Longrightarrow> toupper c = toupper (s ! i) \<Longrightarrow> same_but_case (s[i := c]) s"
  by (simp add: same_but_case_def map_update) (metis list_update_id nth_map length_map)

lemma fold_update_case:
  assumes "\<forall>i \<in> set is. start + i < length s \<and> toupper (to ! i) = toupper (s ! (start + i))"
  shows "same_but_case (fold (\<lambda>i s. s[start + i := to ! i]) is s) s"
  using assms
proof (induction "is" arbitrary: s)
  case (Cons i "is")
  let ?s = "s[start + i := to ! i]"
  have c: "same_but_case ?s s" using Cons.prems by (intro same_but_case_update) auto
  have "toupper (?s ! j) = toupper (s ! j)" if "j < length s" for j
    using c that unfolding same_but_case_def by (metis length_list_update nth_map)
  then have "same_but_case (fold (\<lambda>i s. s[start + i := to ! i]) is ?s) ?s"
    using Cons.prems by (intro Cons.IH) auto
  then show ?case using c same_but_case_trans by simp
qed (simp add: same_but_case_def)

lemma FixSpecialCapitalization_ok:
  assumes "map tolower from = map tolower to" "end_index < length s"
  shows "\<exists>s'. FixSpecialCapitalization from to end_index s = Some s' \<and> same_but_case s' s"
proof -
  define start where "start = end_index + 1 - length from"
  have len: "length from = length to" using assms(1) by (metis length_map)
  have "same_but_case (fold (\<lambda>i s. s[start + i := to ! i]) [0..<length from] s) s"
    if l: "length from \<le> end_index + 1"
      and m: "list_all (\<lambda>i. tolower (s ! (start + i)) = tolower (from ! i)) [0..<length from]"
  proof (rule fold_update_case, intro ballI)
    fix i assume "i \<in> set [0..<length from]"
    then have i: "i < length from" by simp
    then have "start + i < length s" using l assms(2) by (simp add: start_def)
    moreover have "tolower (from ! i) = tolower (to ! i)" using assms(1) i len by (metis nth_map)
    then have "tolower (to ! i) = tolower (s ! (start + i))" using m i by (simp add: list_all_iff)
    ultimately show "start + i < length s \<and> toupper (to ! i) = toupper (s ! (start + i))"
      using tolower_eq_imp_toupper by blast
  qed
  moreover have "same_but_case s s" by (simp add: same_but_case_def)
  ultimately show ?thesis
    unfolding FixSpecialCapitalization_def Let_def start_def [symmetric] using len
    by (cases "start = 0") simp_all
qed

lemma fix_all_ok:
  assumes "\<forall>w \<in> set ws. map tolower (fst w) = map tolower (snd w)" "i < length s"
  shows "\<exists>s'. fix_all ws i s = Some s' \<and> same_but_case s' s"
  using assms
proof (induction ws arbitrary: s)
  case Nil
  then show ?case by (simp add: same_but_case_def)
next
  case (Cons w ws)
  obtain s1 where s1: "FixSpecialCapitalization (fst w) (snd w) i s = Some s1" "same_but_case s1 s"
    using FixSpecialCapitalization_ok [of "fst w" "snd w" i s] Cons.prems by auto
  obtain s2 where "fix_all ws i s1 = Some s2" "same_but_case s2 s1"
    using Cons.IH [of s1] Cons.prems same_but_case_length [OF s1(2)] by auto
  with s1 show ?case using same_but_case_trans [of s2 s1 s] by (cases w) simp
qed

lemma special_words_case: "\<forall>w \<in> set special_words. map tolower (fst w) = map tolower (snd w)"
  by code_simp

lemma Capitalize_step_ok:
  assumes "i < length s"
  shows "\<exists>s'. Capitalize_step i s = Some s' \<and> same_but_case s' s"
proof -
  define t where "t = (let prev = (if i = 0 then CHR '' '' else s ! (i - 1)) in
    if IS_LETTER (s ! i) \<and> \<not> IS_LETTER prev \<and> \<not> IS_DIGIT prev \<and> prev \<noteq> CHR 0x27
    then s[i := toupper (s ! i)] else s[i := tolower (s ! i)])"
  have c: "same_but_case t s" using assms by (auto simp: t_def Let_def intro: same_but_case_update)
  moreover have "Capitalize_step i s =
      (if i = length t - 1 \<or> (IS_LETTER (t ! i) \<and> \<not> IS_LETTER (t ! (i + 1))) then fix_all special_words i t else Some t)"
    unfolding Capitalize_step_def t_def Let_def ..
  moreover have "\<exists>s'. fix_all special_words i t = Some s' \<and> same_but_case s' t"
    using fix_all_ok [OF special_words_case, of i t] assms same_but_case_length [OF c] by simp
  ultimately show ?thesis using same_but_case_trans by auto
qed

lemma Capitalize_loop_ok:
  "\<forall>i \<in> set is. i < length s \<Longrightarrow> \<exists>s'. Capitalize_loop is s = Some s' \<and> same_but_case s' s"
proof (induction "is" s rule: Capitalize_loop.induct)
  case (2 i "is" s)
  then obtain s1 where s1: "Capitalize_step i s = Some s1" "same_but_case s1 s" using Capitalize_step_ok [of i s] by auto
  with 2 obtain s2 where "Capitalize_loop is s1 = Some s2" "same_but_case s2 s1"
    using same_but_case_length [OF s1(2)] by fastforce
  with s1 show ?case using same_but_case_trans by auto
qed (simp add: same_but_case_def)

section \<open>Properties\<close>

text \<open>
  \<open>SameName\<close> always returns, trips neither of its assertions, and says whether the letters and
  digits of the two strings agree up to case; \<open>IsPrefix\<close> is the prefix order up to case.
\<close>

theorem same_name_ok:
  "SameName s1 s2 = Some (map toupper (filter IS_ALPHANUMERIC (c_str s1)) =
     map toupper (filter IS_ALPHANUMERIC (c_str s2))) \<and>
   IsPrefix s1 s2 = (map toupper (c_str s1) = take (length (c_str s1)) (map toupper (c_str s2)))"
  using SameName_ptr_iff [of "c_str s1" "c_str s2"] IsPrefix_ptr_iff [of "c_str s1" "c_str s2"]
  by (simp add: SameName_def IsPrefix_def name_key_def)

text \<open>
  The normalized form of a name is the list of its words, joined by single blanks: the
  one-pass \<open>NormalizeName\<close> agrees with \<open>NormalizeNameIntoWords\<close>.
\<close>

theorem normalize_name_ok: "NormalizeName s = join_words (NormalizeNameIntoWords s)"
proof -
  have n: "NUL \<notin> set (SkipNonAlphaNumeric (c_str s))" using set_SkipNonAlphaNumeric c_str_no_NUL by blast
  moreover have "SkipNonAlphaNumeric (c_str s) = [] \<or> IS_ALPHANUMERIC_INTL (at_ptr (SkipNonAlphaNumeric (c_str s)))"
    using dropWhile_shape [of IS_ALPHANUMERIC_INTL "c_str s"] skip_to_intl [of "c_str s"] by auto
  ultimately show ?thesis
    unfolding NormalizeName_def NormalizeNameIntoWords_def by (rule NormalizeName_loop_words)
qed

text \<open>
  \<open>Capitalize\<close> (with its list of special words) stays inside the string, trips no assertion,
  and changes nothing but the case of letters.
\<close>

theorem capitalize_ok:
  "\<exists>s'. Capitalize s = Some s' \<and> length s' = length s \<and> map toupper s' = map toupper s"
proof -
  obtain s' where "Capitalize s = Some s'" "same_but_case s' s"
    using Capitalize_loop_ok [of "[0..<length s]" s] by (auto simp: Capitalize_def)
  moreover from this(2) have "length s' = length s" by (rule same_but_case_length)
  ultimately show ?thesis by (simp add: same_but_case_def)
qed

text \<open>
  Appending to a string that is within its limit reports exactly the bytes it appends and never
  goes over the limit. On a string that is already over the limit it reports a negative number.
\<close>

theorem append_data_ok:
  assumes "0 \<le> limit" "0 < len" "nat len \<le> length data"
  shows "case AppendDataToString data len limit res of (n, res') \<Rightarrow>
    (int (length res) \<le> limit \<longrightarrow>
       res' = res @ take (nat n) data \<and> n = int (length res') - int (length res) \<and>
       int (length res') \<le> limit \<and> n \<le> len) \<and>
    (limit < int (length res) \<longrightarrow> res' = res \<and> n < 0)"
proof -
  let ?free = "limit - int (length res)"
  consider (fits) "len \<le> ?free" | (part) "0 \<le> ?free" "?free < len" | (full) "?free < 0" by linarith
  then show ?thesis
  proof cases
    case fits
    then show ?thesis using assms by (simp add: AppendDataToString_def)
  next
    case part
    then have "nat ?free \<le> length data" using assms(3) by linarith
    with part show ?thesis using assms(1,2) by (simp add: AppendDataToString_def Let_def)
  next
    case full
    then show ?thesis using assms(1,2) by (simp add: AppendDataToString_def Let_def)
  qed
qed

theorem append_data_ok_witness:
  "case AppendDataToString ''abcdef'' 6 5 ''xyz'' of (n, res') \<Rightarrow>
     res' = ''xyz'' @ take (nat n) ''abcdef'' \<and> n = int (length res') - 3 \<and> int (length res') \<le> 5"
  using append_data_ok [of 5 6 "''abcdef''" "''xyz''"] by (simp add: AppendDataToString_def)

text \<open>
  A \<open>char\<close> is signed, so every byte from 128 on passes the test \<open>c <= ' '\<close>: text that
  consists of such bytes (all of it, in a non-Latin script) counts as empty, is trimmed away and is
  removed as if it were blank.
\<close>

theorem non_ascii_text_is_dropped:
  assumes "\<forall>c \<in> set s. 128 \<le> byte c"
  shows "IsEmpty s \<and> RemoveAllSpaces s = [] \<and> GetTrimmedString s = [] \<and> SkipSpaces s = []"
proof -
  have sp: "\<forall>c \<in> set s. spacelike c \<and> c \<noteq> NUL" using assms by (auto simp: spacelike_def)
  then have "dropWhile spacelike s = []" "dropWhile (\<lambda>c. spacelike c \<and> c \<noteq> NUL) s = []" by simp_all
  with sp show ?thesis
    by (simp add: IsEmpty_def RemoveAllSpaces_def GetTrimmedString_def SkipSpaces_def list_all_iff del: dropWhile_eq_Nil_conv)
qed

theorem non_ascii_text_is_dropped_witness:
  "RemoveAllSpaces [CHR 0xC3, CHR 0xA9] = [] \<and> GetTrimmedString [CHR 0xC3, CHR 0xA9] = []"
  using non_ascii_text_is_dropped [of "[CHR 0xC3, CHR 0xA9]"] by simp

end
