(* ===== verification/StrSplit.thy ===== *)
theory StrSplit
  imports StrUtil "HOL-Library.Sublist"
begin

text \<open>
  Splitting, joining, replacing and comparing in \<open>util/string/strutil.h\<close> and
  \<open>strutil.cc\<close>. A position in a \<open>string\<close> is the suffix that starts there. The result of a
  split is appended to the vector the caller passes in.
\<close>

section \<open>Joining and splitting\<close>

fun Join_loop :: "string \<Rightarrow> bool \<Rightarrow> string list \<Rightarrow> string" where
  "Join_loop separator first [] = []"
| "Join_loop separator first (e # es) =
     (if \<not> first then separator else []) @ e @ Join_loop separator False es"

definition Join :: "string list \<Rightarrow> string \<Rightarrow> string" where
  "Join list separator = Join_loop separator True list"

fun JoinString_loop :: "string \<Rightarrow> bool \<Rightarrow> bool \<Rightarrow> string list \<Rightarrow> string" where
  "JoinString_loop separator allow_empty first [] = []"
| "JoinString_loop separator allow_empty first (e # es) =
     (if \<not> allow_empty \<and> e = [] then JoinString_loop separator allow_empty first es
      else (if \<not> first then separator else []) @ e @ JoinString_loop separator allow_empty False es)"

definition JoinString :: "string list \<Rightarrow> string \<Rightarrow> bool \<Rightarrow> string" where
  "JoinString list separator allow_empty = JoinString_loop separator allow_empty True list"

definition JoinTwoStrings :: "string \<Rightarrow> string \<Rightarrow> string \<Rightarrow> bool \<Rightarrow> string" where
  "JoinTwoStrings left right separator allow_empty = JoinString [left, right] separator allow_empty"

definition ParseStringPair :: "string \<Rightarrow> char \<Rightarrow> string \<times> string" where
  "ParseStringPair line delimiter =
     (let rest = dropWhile (\<lambda>c. c \<noteq> delimiter) line
      in if rest = [] then (line, []) else (takeWhile (\<lambda>c. c \<noteq> delimiter) line, drop 1 rest))"

lemma drop1_dropWhile_less: "dropWhile P s \<noteq> [] \<Longrightarrow> length (drop 1 (dropWhile P s)) < length s"
  using length_dropWhile_le [of P s] by (cases "dropWhile P s") auto

function Split_loop :: "string \<Rightarrow> string \<Rightarrow> string list" where
  "Split_loop delimiters s =
     (let rest = dropWhile (\<lambda>c. c \<notin> set delimiters) s
      in takeWhile (\<lambda>c. c \<notin> set delimiters) s #
         (if rest = [] then [] else Split_loop delimiters (drop 1 rest)))"
  by pat_completeness auto
termination
proof (relation "measure (\<lambda>(d, s). length s)")
  fix d s r
  assume r: "r = dropWhile (\<lambda>c. c \<notin> set d) s" and ne: "r \<noteq> []"
  have "length (drop 1 r) < length s" using ne unfolding r by (rule drop1_dropWhile_less)
  then show "((d, drop 1 r), d, s) \<in> measure (\<lambda>(d, s). length s)" by simp
qed simp

definition Split :: "string \<Rightarrow> string list \<Rightarrow> string \<Rightarrow> string list" where
  "Split str tokens delimiters = tokens @ Split_loop delimiters str"

function SplitSkip_loop :: "string \<Rightarrow> string \<Rightarrow> string list" where
  "SplitSkip_loop delimiters s =
     (let s' = dropWhile (\<lambda>c. c \<in> set delimiters) s
      in if s' = [] then []
         else takeWhile (\<lambda>c. c \<notin> set delimiters) s' #
              SplitSkip_loop delimiters (dropWhile (\<lambda>c. c \<notin> set delimiters) s'))"
  by pat_completeness auto
termination
proof (relation "measure (\<lambda>(d, s). length s)")
  fix d s s'
  assume s': "s' = dropWhile (\<lambda>c. c \<in> set d) s" and ne: "s' \<noteq> []"
  have "hd s' \<notin> set d" using ne hd_dropWhile [of "\<lambda>c. c \<in> set d" s] unfolding s' by blast
  then have "length (dropWhile (\<lambda>c. c \<notin> set d) s') < length s'"
    using ne by (cases s') (auto simp: le_imp_less_Suc length_dropWhile_le)
  also have "\<dots> \<le> length s" unfolding s' by (rule length_dropWhile_le)
  finally show "((d, dropWhile (\<lambda>c. c \<notin> set d) s'), d, s) \<in> measure (\<lambda>(d, s). length s)" by simp
qed simp

declare Split_loop.simps [simp del] SplitSkip_loop.simps [simp del]

definition SplitSkip :: "string \<Rightarrow> string list \<Rightarrow> string \<Rightarrow> string list" where
  "SplitSkip str tokens delimiters = tokens @ SplitSkip_loop delimiters str"

function SplitStringNParts_loop :: "string \<Rightarrow> bool \<Rightarrow> nat \<Rightarrow> string \<Rightarrow> string list" where
  "SplitStringNParts_loop separators allow_empty n s =
     (if s \<noteq> [] \<and> 0 < n then
        if \<not> allow_empty \<and> hd s \<in> set separators then SplitStringNParts_loop separators allow_empty n (drop 1 s)
        else takeWhile (\<lambda>c. c \<notin> set separators) s #
             SplitStringNParts_loop separators allow_empty (n - 1) (drop 1 (dropWhile (\<lambda>c. c \<notin> set separators) s))
      else if s \<noteq> [] then [s]
      else [])"
  by pat_completeness auto
termination
proof (relation "measure (\<lambda>(d, b, n, s). length s)")
  fix d :: string and b :: bool and n :: nat and s :: string
  assume "s \<noteq> [] \<and> 0 < n"
  then have "0 < length s" by simp
  then show "((d, b, n - 1, drop 1 (dropWhile (\<lambda>c. c \<notin> set d) s)), d, b, n, s) \<in> measure (\<lambda>(d, b, n, s). length s)"
    using length_dropWhile_le [of "\<lambda>c. c \<notin> set d" s] by (simp only: in_measure case_prod_conv length_drop)
  from \<open>0 < length s\<close> show "((d, b, n, drop 1 s), d, b, n, s) \<in> measure (\<lambda>(d, b, n, s). length s)" by simp
qed simp

declare SplitStringNParts_loop.simps [simp del]

definition SplitStringNParts :: "string \<Rightarrow> string \<Rightarrow> string list \<Rightarrow> nat \<Rightarrow> bool \<Rightarrow> string list" where
  "SplitStringNParts str separators v n allow_empty = v @ SplitStringNParts_loop separators allow_empty n str"

text \<open>The default number of parts is the largest \<open>int\<close>.\<close>

definition SplitString :: "string \<Rightarrow> string \<Rightarrow> string list \<Rightarrow> bool \<Rightarrow> string list" where
  "SplitString str separators v allow_empty = SplitStringNParts str separators v 2147483647 allow_empty"

text \<open>\<open>RSplitStringNParts\<close> walks from the end and inserts in front: the same loop on the reversed string.\<close>

definition RSplitStringNParts :: "string \<Rightarrow> string \<Rightarrow> string list \<Rightarrow> nat \<Rightarrow> bool \<Rightarrow> string list" where
  "RSplitStringNParts str separators v n allow_empty =
     rev (map rev (SplitStringNParts_loop separators allow_empty n (rev str))) @ v"

definition BreakUpString :: "string \<Rightarrow> char \<Rightarrow> string list" where
  "BreakUpString str separator =
     (let v = map GetTrimmedString (Split_loop [separator] str)
      in if length v = 1 \<and> hd v = [] then [] else v)"

function Tokenize_loop :: "string \<Rightarrow> string list" where
  "Tokenize_loop s =
     (let s' = dropWhile isspace s
      in if s' = [] then []
         else takeWhile (\<lambda>c. \<not> isspace c) s' # Tokenize_loop (dropWhile (\<lambda>c. \<not> isspace c) s'))"
  by pat_completeness auto
termination
proof (relation "measure length")
  fix s s'
  assume s': "s' = dropWhile isspace s" and ne: "s' \<noteq> []"
  have "\<not> isspace (hd s')" using ne hd_dropWhile [of isspace s] unfolding s' by blast
  then have "length (dropWhile (\<lambda>c. \<not> isspace c) s') < length s'"
    using ne by (cases s') (auto simp: le_imp_less_Suc length_dropWhile_le)
  also have "\<dots> \<le> length s" unfolding s' by (rule length_dropWhile_le)
  finally show "(dropWhile (\<lambda>c. \<not> isspace c) s', s) \<in> measure length" by simp
qed simp

declare Tokenize_loop.simps [simp del]

text \<open>The vector and the counting forms of \<open>Tokenize\<close>; \<open>norm_token\<close> changes one token in place.\<close>

definition Tokenize :: "string \<Rightarrow> string list \<Rightarrow> (string \<Rightarrow> string) \<Rightarrow> string list" where
  "Tokenize s tokens norm_token = tokens @ map norm_token (Tokenize_loop s)"

definition Tokenize_count :: "string \<Rightarrow> (string \<Rightarrow> int) \<Rightarrow> (string \<Rightarrow> string) \<Rightarrow> string \<Rightarrow> int" where
  "Tokenize_count s tokens norm_token = fold (\<lambda>t m. m(t := m t + 1)) (map norm_token (Tokenize_loop s)) tokens"

section \<open>Replacing\<close>

text \<open>
  \<open>None\<close>: the loop never ends (an empty \<open>from\<close>), or it steps over the end of the string (a
  \<open>from\<close> with a zero byte inside).
\<close>

partial_function (option) ReplaceAll_loop :: "string \<Rightarrow> nat \<Rightarrow> string \<Rightarrow> string \<Rightarrow> string option" where
  "ReplaceAll_loop from_s len to s =
     (if s = [] then Some []
      else if strncmp_eq s from_s len then
        if length s < len then None
        else do { r \<leftarrow> ReplaceAll_loop from_s len to (drop len s); Some (to @ r) }
      else do { r \<leftarrow> ReplaceAll_loop from_s len to (tl s); Some (hd s # r) })"

definition ReplaceAll :: "string \<Rightarrow> string \<Rightarrow> string \<Rightarrow> string option" where
  "ReplaceAll src from to = ReplaceAll_loop (c_str from) (length from) to (c_str src)"

section \<open>Edit distance\<close>

type_synonym table = "nat \<Rightarrow> nat \<Rightarrow> int"

definition set_cell :: "nat \<Rightarrow> nat \<Rightarrow> int \<Rightarrow> table \<Rightarrow> table" where
  "set_cell i j v d = d(i := (d i)(j := v))"

definition edit_cell :: "'a list \<Rightarrow> 'a list \<Rightarrow> nat \<Rightarrow> nat \<Rightarrow> table \<Rightarrow> table" where
  "edit_cell s1 s2 i j d =
     set_cell i j (min (min (d (i - 1) j + 1) (d i (j - 1) + 1))
       (d (i - 1) (j - 1) + (if s1 ! (i - 1) = s2 ! (j - 1) then 0 else 1))) d"

definition edit_row :: "'a list \<Rightarrow> 'a list \<Rightarrow> nat \<Rightarrow> table \<Rightarrow> table" where
  "edit_row s1 s2 i d = fold (edit_cell s1 s2 i) [1..<length s2 + 1] d"

definition EditDistance :: "'a list \<Rightarrow> 'a list \<Rightarrow> int" where
  "EditDistance s1 s2 =
     (let l1 = length s1;
          l2 = length s2;
          d = (\<lambda>_ _. 0);
          d = set_cell 0 0 0 d;
          d = fold (\<lambda>i. set_cell i 0 (int i)) [1..<l1 + 1] d;
          d = fold (\<lambda>i. set_cell 0 i (int i)) [1..<l2 + 1] d;
          d = fold (edit_row s1 s2) [1..<l1 + 1] d
      in d l1 l2)"

section \<open>Splitting and joining are inverse\<close>

lemma Join_loop_False: "Join_loop sep False xs = concat (map (\<lambda>e. sep @ e) xs)"
  by (induction xs) simp_all

lemma Join_Cons: "Join (x # xs) sep = x @ concat (map (\<lambda>e. sep @ e) xs)"
  by (simp add: Join_def Join_loop_False)

lemma Split_loop_not_Nil: "Split_loop d s \<noteq> []"
  by (subst Split_loop.simps) (simp add: Let_def)

lemma Split_loop_plain: "\<forall>x \<in> set s. x \<notin> set d \<Longrightarrow> Split_loop d s = [s]"
proof -
  assume a: "\<forall>x \<in> set s. x \<notin> set d"
  then have "dropWhile (\<lambda>c. c \<notin> set d) s = []" "takeWhile (\<lambda>c. c \<notin> set d) s = s" by simp_all
  then show ?thesis by (subst Split_loop.simps) (simp add: Let_def del: dropWhile_eq_Nil_conv)
qed

lemma Split_loop_step:
  assumes "\<forall>x \<in> set t. x \<notin> set d" "c \<in> set d"
  shows "Split_loop d (t @ c # r) = t # Split_loop d r"
  using assms by (subst Split_loop.simps) (simp add: Let_def)

lemma split_shape:
  obtains (plain) "\<forall>x \<in> set s. x \<notin> D" | (more) t c r where "s = t @ c # r" "\<forall>x \<in> set t. x \<notin> D" "c \<in> D"
proof (cases "\<exists>x \<in> set s. x \<in> D")
  case True
  then obtain t c r where "s = t @ c # r" "c \<in> D" "\<forall>x \<in> set t. x \<notin> D"
    using split_list_first_prop [of s "\<lambda>x. x \<in> D"] by blast
  then show ?thesis by (intro more)
next
  case False
  then show ?thesis by (intro plain) blast
qed

lemma Join_Split: "Join (Split_loop [c] s) [c] = s"
proof (induction "length s" arbitrary: s rule: less_induct)
  case less
  show ?case
  proof (cases s "set [c]" rule: split_shape)
    case plain
    then show ?thesis using Split_loop_plain [of s "[c]"] by (simp add: Join_Cons)
  next
    case (more t d r)
    then have "Split_loop [c] s = t # Split_loop [c] r" using Split_loop_step [of t "[c]" c r] by simp
    moreover obtain y ys where y: "Split_loop [c] r = y # ys" using Split_loop_not_Nil by (cases "Split_loop [c] r") auto
    moreover have "Join (Split_loop [c] r) [c] = r" using less more by simp
    ultimately show ?thesis using more by (simp add: Join_Cons)
  qed
qed

lemma Split_Join:
  assumes "ts \<noteq> []" "\<forall>t \<in> set ts. c \<notin> set t"
  shows "Split_loop [c] (Join ts [c]) = ts"
  using assms
proof (induction ts)
  case (Cons t ts)
  show ?case
  proof (cases ts)
    case Nil
    with Cons.prems show ?thesis using Split_loop_plain [of t "[c]"] by (auto simp: Join_Cons)
  next
    case (Cons u us)
    then have "Join (t # ts) [c] = t @ c # Join ts [c]" by (simp add: Join_Cons)
    then show ?thesis using Cons.IH Cons.prems Cons Split_loop_step [of t "[c]" c "Join ts [c]"] by auto
  qed
qed simp

lemma Split_tokens: "t \<in> set (Split_loop d s) \<Longrightarrow> x \<in> set t \<Longrightarrow> x \<notin> set d"
proof (induction "length s" arbitrary: s rule: less_induct)
  case less
  show ?case
  proof (cases s "set d" rule: split_shape)
    case plain
    with less.prems show ?thesis by (auto simp: Split_loop_plain)
  next
    case (more u c r)
    then have "Split_loop d s = u # Split_loop d r" using Split_loop_step [of u d c r] by simp
    then show ?thesis using less.prems less.hyps [of r] more by auto
  qed
qed

lemma SplitStringNParts_loop_skip:
  "length s \<le> n \<Longrightarrow> SplitStringNParts_loop d False n s = SplitSkip_loop d s"
proof (induction "length s" arbitrary: s n rule: less_induct)
  case less
  show ?case
  proof (cases s)
    case Nil
    then show ?thesis by (subst SplitStringNParts_loop.simps, subst SplitSkip_loop.simps) simp
  next
    case (Cons c r)
    then have n: "0 < n" using less.prems by simp
    show ?thesis
    proof (cases "c \<in> set d")
      case True
      have "SplitStringNParts_loop d False n s = SplitStringNParts_loop d False n r"
        using Cons n True by (subst SplitStringNParts_loop.simps) simp
      moreover have "SplitSkip_loop d s = SplitSkip_loop d r"
        using Cons True SplitSkip_loop.simps [of d s] SplitSkip_loop.simps [of d r] by (simp add: Let_def)
      moreover have "SplitStringNParts_loop d False n r = SplitSkip_loop d r"
        using Cons less.prems by (intro less.hyps) simp_all
      ultimately show ?thesis by simp
    next
      case False
      let ?r = "dropWhile (\<lambda>c. c \<notin> set d) s"
      have len: "length ?r < length s" using Cons False by (simp add: le_imp_less_Suc length_dropWhile_le)
      have "SplitStringNParts_loop d False n s =
          takeWhile (\<lambda>c. c \<notin> set d) s # SplitStringNParts_loop d False (n - 1) (drop 1 ?r)"
        using Cons n False by (subst SplitStringNParts_loop.simps) simp
      moreover have "SplitSkip_loop d s = takeWhile (\<lambda>c. c \<notin> set d) s # SplitSkip_loop d ?r"
        using Cons False by (subst SplitSkip_loop.simps) (simp add: Let_def)
      moreover have "SplitSkip_loop d ?r = SplitSkip_loop d (drop 1 ?r)"
      proof (cases ?r)
        case Nil
        then show ?thesis by (simp only: drop_Nil)
      next
        case (Cons x xs)
        then have "x \<in> set d" using hd_dropWhile [of "\<lambda>c. c \<notin> set d" s] by fastforce
        then show ?thesis
          using Cons SplitSkip_loop.simps [of d ?r] SplitSkip_loop.simps [of d xs] by (simp add: Let_def)
      qed
      moreover have "SplitStringNParts_loop d False (n - 1) (drop 1 ?r) = SplitSkip_loop d (drop 1 ?r)"
        using len less.prems by (intro less.hyps) simp_all
      ultimately show ?thesis by simp
    qed
  qed
qed

section \<open>Replacing\<close>

lemma ReplaceAll_loop_ok:
  assumes "from_s \<noteq> []" "len = length from_s"
  shows "\<exists>r. ReplaceAll_loop from_s len to s = Some r \<and> (to = from_s \<longrightarrow> r = s) \<and> (\<not> sublist from_s s \<longrightarrow> r = s)"
proof (induction "length s" arbitrary: s rule: less_induct)
  case less
  show ?case
  proof (cases "s = []")
    case True
    then show ?thesis by (subst ReplaceAll_loop.simps) simp
  next
    case ne: False
    show ?thesis
    proof (cases "take len s = from_s")
      case True
      then have l: "len \<le> length s" using assms(2) by (metis length_take min.absorb_iff2 min.commute)
      have "length (drop len s) < length s" using ne assms by simp
      then obtain r where r: "ReplaceAll_loop from_s len to (drop len s) = Some r" "to = from_s \<longrightarrow> r = drop len s"
        using less by blast
      have "sublist from_s s" using True by (metis append_Nil append_take_drop_id sublist_appendI)
      moreover have "ReplaceAll_loop from_s len to s = Some (to @ r)"
        using ne True l r(1) assms(2) by (subst ReplaceAll_loop.simps) (simp add: strncmp_eq_def)
      moreover have "to = from_s \<longrightarrow> to @ r = s" using r(2) True by (metis append_take_drop_id)
      ultimately show ?thesis by blast
    next
      case False
      have "length (tl s) < length s" using ne by simp
      then obtain r where r: "ReplaceAll_loop from_s len to (tl s) = Some r" "to = from_s \<longrightarrow> r = tl s"
        "\<not> sublist from_s (tl s) \<longrightarrow> r = tl s"
        using less by blast
      have "ReplaceAll_loop from_s len to s = Some (hd s # r)"
        using ne False r(1) assms(2) by (subst ReplaceAll_loop.simps) (simp add: strncmp_eq_def)
      moreover have "sublist from_s (tl s) \<Longrightarrow> sublist from_s s"
        using ne by (metis list.collapse sublist_Cons_right)
      ultimately show ?thesis using r ne by auto
    qed
  qed
qed

lemma ReplaceAll_empty_from:
  assumes "ReplaceAll_loop [] 0 to s = Some r"
  shows "s = []"
proof -
  have "from_s = [] \<longrightarrow> len = 0 \<longrightarrow> s = []" if "ReplaceAll_loop from_s len to s = Some r" for from_s len s
  proof (rule ReplaceAll_loop.raw_induct [where P = "\<lambda>from_s len to s r. from_s = [] \<longrightarrow> len = 0 \<longrightarrow> s = []", OF _ that])
    fix loop from_s len to s r
    assume IH: "\<And>from_s len to s r. loop from_s len to s = Some r \<Longrightarrow> from_s = [] \<longrightarrow> len = 0 \<longrightarrow> s = []"
      and b: "(if s = [] then Some []
        else if strncmp_eq s from_s len then
          if length s < len then None else loop from_s len to (drop len s) \<bind> (\<lambda>r. Some (to @ r))
        else loop from_s len to (tl s) \<bind> (\<lambda>r. Some (hd s # r))) = Some r"
    then show "from_s = [] \<longrightarrow> len = 0 \<longrightarrow> s = []"
      using IH [of from_s len to s] by (auto simp: strncmp_eq_def bind_eq_Some_conv split: if_splits)
  qed
  then show ?thesis using assms by blast
qed

section \<open>Edit distance\<close>

text \<open>
  An edit script from one string to another: characters are dropped, added, kept or exchanged; all
  but keeping cost 1.
\<close>

inductive edits :: "'a list \<Rightarrow> 'a list \<Rightarrow> int \<Rightarrow> bool" where
  nothing: "edits [] [] 0"
| delete: "edits s t n \<Longrightarrow> edits (s @ [x]) t (n + 1)"
| insert: "edits s t n \<Longrightarrow> edits s (t @ [y]) (n + 1)"
| keep: "edits s t n \<Longrightarrow> edits (s @ [x]) (t @ [x]) n"
| exchange: "edits s t n \<Longrightarrow> edits (s @ [x]) (t @ [y]) (n + 1)"

fun lev :: "'a list \<Rightarrow> 'a list \<Rightarrow> nat \<Rightarrow> nat \<Rightarrow> int" where
  "lev s t 0 j = int j"
| "lev s t (Suc i) 0 = int (Suc i)"
| "lev s t (Suc i) (Suc j) =
     min (min (lev s t i (Suc j) + 1) (lev s t (Suc i) j + 1)) (lev s t i j + (if s ! i = t ! j then 0 else 1))"

lemma lev_0 [simp]: "lev s t i 0 = int i"
  by (cases i) simp_all

lemma edits_prefixes:
  "i \<le> length s \<Longrightarrow> j \<le> length t \<Longrightarrow> edits (take i s) (take j t) (lev s t i j)"
proof (induction s t i j rule: lev.induct)
  case (1 s t j)
  then show ?case
  proof (induction j)
    case (Suc j)
    then show ?case using edits.insert [of "[]" "take j t" "int j" "t ! j"] by (simp add: take_Suc_conv_app_nth add.commute)
  qed (simp add: edits.nothing)
next
  case (2 s t i)
  then show ?case
  proof (induction i)
    case (Suc i)
    then show ?case using edits.delete [of "take (Suc i) s" "[]" "int (Suc i)" "s ! Suc i"]
      by (simp add: take_Suc_conv_app_nth add.commute)
  qed (use edits.delete [OF edits.nothing, of "s ! 0"] in \<open>simp add: take_Suc_conv_app_nth Suc_le_eq\<close>)
next
  case (3 s t i j)
  let ?s = "take i s @ [s ! i]" and ?t = "take j t @ [t ! j]"
  have T: "take (Suc i) s = ?s" "take (Suc j) t = ?t" using 3 by (simp_all add: take_Suc_conv_app_nth)
  have "edits ?s ?t (lev s t i (Suc j) + 1)" using edits.delete 3 T by fastforce
  moreover have "edits ?s ?t (lev s t (Suc i) j + 1)" using edits.insert 3 T by fastforce
  moreover have "edits ?s ?t (lev s t i j + (if s ! i = t ! j then 0 else 1))"
    using 3 edits.keep [of "take i s" "take j t" "lev s t i j"] edits.exchange [of "take i s" "take j t" "lev s t i j"] by auto
  ultimately show ?case unfolding T by (simp add: min_def)
qed

lemma lev_prefix:
  "i \<le> length s \<Longrightarrow> j \<le> length t \<Longrightarrow> lev (s @ u) (t @ v) i j = lev s t i j"
  by (induction s t i j rule: lev.induct) (simp_all add: nth_append)

lemma lev_delete: "lev s t (Suc i) j \<le> lev s t i j + 1"
  by (cases j) simp_all

lemma lev_insert: "lev s t i (Suc j) \<le> lev s t i j + 1"
  by (cases i) simp_all

lemma lev_exchange: "lev s t (Suc i) (Suc j) \<le> lev s t i j + 1"
  by (simp add: min.coboundedI2)

lemma edits_lower_bound: "edits s t n \<Longrightarrow> lev s t (length s) (length t) \<le> n"
proof (induction rule: edits.induct)
  case nothing
  then show ?case by simp
next
  case (delete s t n x)
  have "lev (s @ [x]) t (Suc (length s)) (length t) \<le> lev (s @ [x]) t (length s) (length t) + 1"
    by (rule lev_delete)
  then show ?case using delete.IH lev_prefix [of "length s" s "length t" t "[x]" "[]"] by simp
next
  case (insert s t n y)
  have "lev s (t @ [y]) (length s) (Suc (length t)) \<le> lev s (t @ [y]) (length s) (length t) + 1"
    by (rule lev_insert)
  then show ?case using insert.IH lev_prefix [of "length s" s "length t" t "[]" "[y]"] by simp
next
  case (keep s t n x)
  then show ?case using lev_prefix [of "length s" s "length t" t "[x]" "[x]"] by simp
next
  case (exchange s t n x y)
  then show ?case
    using lev_prefix [of "length s" s "length t" t "[x]" "[y]"] lev_exchange [of "s @ [x]" "t @ [y]" "length s" "length t"]
    by (simp del: lev.simps)
qed

lemma fold_first_column:
  "fold (\<lambda>i. set_cell i 0 (int i)) [1..<n + 1] d i j = (if j = 0 \<and> 1 \<le> i \<and> i \<le> n then int i else d i j)"
  by (induction n) (auto simp: set_cell_def)

lemma fold_first_row:
  "fold (\<lambda>i. set_cell 0 i (int i)) [1..<n + 1] d i j = (if i = 0 \<and> 1 \<le> j \<and> j \<le> n then int j else d i j)"
  by (induction n) (auto simp: set_cell_def)

lemma edit_cell_other:
  "j' \<noteq> j \<Longrightarrow> edit_cell s1 s2 i j d i j' = d i j'" "i' \<noteq> i \<Longrightarrow> edit_cell s1 s2 i j d i' = d i'"
  by (simp_all add: edit_cell_def set_cell_def)

lemma edit_cell_here:
  "d i0 (Suc j) = lev s1 s2 i0 (Suc j) \<Longrightarrow> d (Suc i0) j = lev s1 s2 (Suc i0) j \<Longrightarrow> d i0 j = lev s1 s2 i0 j \<Longrightarrow>
   edit_cell s1 s2 (Suc i0) (Suc j) d (Suc i0) (Suc j) = lev s1 s2 (Suc i0) (Suc j)"
  by (simp add: edit_cell_def set_cell_def)

lemma edit_row_prefix:
  assumes "1 \<le> i" "\<forall>j \<le> length s2. d (i - 1) j = lev s1 s2 (i - 1) j" "d i 0 = int i" "k \<le> length s2"
  shows "(\<forall>j \<le> k. fold (edit_cell s1 s2 i) [1..<k + 1] d i j = lev s1 s2 i j) \<and>
    (\<forall>i'. i' \<noteq> i \<longrightarrow> fold (edit_cell s1 s2 i) [1..<k + 1] d i' = d i')"
  using assms(4)
proof (induction k)
  case 0
  then show ?case using assms(3) by simp
next
  case (Suc k)
  define d' where "d' = fold (edit_cell s1 s2 i) [1..<k + 1] d"
  have e: "fold (edit_cell s1 s2 i) [1..<Suc k + 1] d = edit_cell s1 s2 i (Suc k) d'" by (simp add: d'_def)
  have IH: "\<And>j. j \<le> k \<Longrightarrow> d' i j = lev s1 s2 i j" "\<And>i'. i' \<noteq> i \<Longrightarrow> d' i' = d i'"
    using Suc unfolding d'_def by auto
  obtain i0 where i0: "i = Suc i0" using assms(1) by (cases i) auto
  have "d' i0 j = lev s1 s2 i0 j" if "j \<le> length s2" for j
    using IH(2) [of i0] assms(2) i0 that by simp
  then have "edit_cell s1 s2 i (Suc k) d' i (Suc k) = lev s1 s2 i (Suc k)"
    using IH(1) [of k] Suc.prems unfolding i0 by (intro edit_cell_here) simp_all
  then have "\<forall>j \<le> Suc k. edit_cell s1 s2 i (Suc k) d' i j = lev s1 s2 i j"
    using IH(1) edit_cell_other(1) by (metis le_Suc_eq)
  moreover have "\<forall>i'. i' \<noteq> i \<longrightarrow> edit_cell s1 s2 i (Suc k) d' i' = d i'"
    using IH(2) edit_cell_other(2) by metis
  ultimately show ?case unfolding e by blast
qed

lemma edit_rows:
  assumes "\<forall>j \<le> length s2. d 0 j = int j" "\<forall>i \<le> n. d i 0 = int i"
  shows "(\<forall>i \<le> n. \<forall>j \<le> length s2. fold (edit_row s1 s2) [1..<n + 1] d i j = lev s1 s2 i j) \<and>
    (\<forall>i > n. fold (edit_row s1 s2) [1..<n + 1] d i = d i)"
  using assms
proof (induction n)
  case 0
  then show ?case by simp
next
  case (Suc n)
  let ?d = "fold (edit_row s1 s2) [1..<n + 1] d"
  have e: "fold (edit_row s1 s2) [1..<Suc n + 1] d = edit_row s1 s2 (Suc n) ?d" by simp
  have IH: "\<forall>i \<le> n. \<forall>j \<le> length s2. ?d i j = lev s1 s2 i j" "\<forall>i > n. ?d i = d i"
    using Suc.IH Suc.prems by auto
  have "?d (Suc n) 0 = int (Suc n)" using IH(2) Suc.prems(2) by simp
  then have r: "\<forall>j \<le> length s2. edit_row s1 s2 (Suc n) ?d (Suc n) j = lev s1 s2 (Suc n) j"
    "\<forall>i'. i' \<noteq> Suc n \<longrightarrow> edit_row s1 s2 (Suc n) ?d i' = ?d i'"
    using edit_row_prefix [of "Suc n" s2 ?d s1 "length s2"] IH(1) by (simp_all add: edit_row_def del: lev.simps)
  show ?case unfolding e
  proof (intro conjI allI impI)
    fix i j assume "i \<le> Suc n" "j \<le> length s2"
    then show "edit_row s1 s2 (Suc n) ?d i j = lev s1 s2 i j" using r IH(1) by (cases "i = Suc n") simp_all
  next
    fix i assume "Suc n < i"
    then show "edit_row s1 s2 (Suc n) ?d i = d i" using r(2) IH(2) by simp
  qed
qed

lemma EditDistance_lev: "EditDistance s1 s2 = lev s1 s2 (length s1) (length s2)"
proof -
  let ?d0 = "fold (\<lambda>i. set_cell 0 i (int i)) [1..<length s2 + 1]
    (fold (\<lambda>i. set_cell i 0 (int i)) [1..<length s1 + 1] (set_cell 0 0 0 (\<lambda>_ _. 0)))"
  have "\<forall>j \<le> length s2. ?d0 0 j = int j" "\<forall>i \<le> length s1. ?d0 i 0 = int i"
    unfolding fold_first_row fold_first_column by (auto simp: set_cell_def)
  then show ?thesis
    using edit_rows [of s2 ?d0 "length s1" s1] unfolding EditDistance_def Let_def by blast
qed

section \<open>Properties\<close>

text \<open>
  C21. The dynamic program computes the least cost of an edit script: a script of that cost exists
  and none is cheaper.
\<close>

theorem edit_distance_optimal:
  "edits s1 s2 (EditDistance s1 s2) \<and> (\<forall>n. edits s1 s2 n \<longrightarrow> EditDistance s1 s2 \<le> n)"
  using edits_prefixes [of "length s1" s1 "length s2" s2] edits_lower_bound [of s1 s2]
  by (simp add: EditDistance_lev)

theorem edit_distance_optimal_witness:
  "edits ''ab'' ''b'' (EditDistance ''ab'' ''b'') \<and> EditDistance ''ab'' ''b'' \<le> 1"
proof -
  have "edits ([CHR ''a''] @ [CHR ''b'']) ([] @ [CHR ''b'']) (0 + 1)"
    using edits.keep [OF edits.delete [OF edits.nothing, of "CHR ''a''"], of "CHR ''b''"] by simp
  then show ?thesis using edit_distance_optimal [of "''ab''" "''b''"] by simp
qed

text \<open>
  Splitting at one delimiter and joining with it are inverse to each other: joining the tokens
  gives back the string, and splitting a joined list of tokens that are free of the delimiter gives
  back the tokens.
\<close>

theorem split_join_inverse:
  "Join (Split s [] [c]) [c] = s \<and>
   (ts \<noteq> [] \<and> (\<forall>t \<in> set ts. c \<notin> set t) \<longrightarrow> Split (Join ts [c]) [] [c] = ts)"
  using Join_Split Split_Join by (simp add: Split_def)

theorem split_join_inverse_witness:
  "Join (Split ''a,,b'' [] '','') '','' = ''a,,b'' \<and> Split (Join [''a'', [], ''b''] '','') [] '','' = [''a'', [], ''b'']"
  using split_join_inverse [of "''a,,b''" "CHR '',''" "[''a'', [], ''b'']"] by simp

text \<open>
  C31. Replacing a non-empty substring always ends; replacing it by itself, or replacing one that
  does not occur, changes nothing. With an empty substring the loop never ends on a non-empty input.
\<close>

theorem replace_all_ok:
  assumes "NUL \<notin> set from" "NUL \<notin> set src"
  shows "(from \<noteq> [] \<longrightarrow> (\<exists>r. ReplaceAll src from to = Some r \<and> (to = from \<longrightarrow> r = src) \<and>
      (\<not> sublist from src \<longrightarrow> r = src))) \<and>
    (from = [] \<and> src \<noteq> [] \<longrightarrow> ReplaceAll src from to = None)"
proof -
  have "ReplaceAll src from to = None" if "from = []" "src \<noteq> []"
    using that assms ReplaceAll_empty_from [of to src] by (cases "ReplaceAll_loop [] 0 to src") (auto simp: ReplaceAll_def)
  then show ?thesis
    using ReplaceAll_loop_ok [of "from" "length from" to src] assms by (auto simp: ReplaceAll_def)
qed

theorem replace_all_ok_witness:
  "(\<exists>r. ReplaceAll ''abc'' ''x'' ''y'' = Some r) \<and> ReplaceAll ''abc'' [] ''y'' = None"
  using replace_all_ok [of "''x''" "''abc''" "''y''"] replace_all_ok [of "[]" "''abc''" "''y''"] by auto

text \<open>
  Without empty parts, \<open>SplitString\<close> finds the same tokens as \<open>SplitSkip\<close>, the maximal runs of
  characters that are not separators.
\<close>

theorem split_string_eq_split_skip:
  assumes "length s \<le> 2147483647"
  shows "SplitString s seps v False = SplitSkip s v seps"
  using SplitStringNParts_loop_skip [OF assms] by (simp add: SplitString_def SplitStringNParts_def SplitSkip_def)

theorem split_string_eq_split_skip_witness: "SplitString ''a::b'' '':'' [] False = SplitSkip ''a::b'' [] '':''"
  using split_string_eq_split_skip [of "''a::b''" "'':''" "[]"] by simp

end
