(* ===== verification/IStream.thy ===== *)
theory IStream
  imports CStr
begin

text \<open>
  Input streams as \<open>util/serial\<close> uses them, and the scanners of
  \<open>util/serial/utils/stream_util.h\<close>. A stream over a string holds the characters still to come,
  those already read (the last one first, for \<open>unget\<close>) and the two state bits. \<open>in_get\<close>,
  \<open>in_peek\<close>, \<open>in_read\<close> and \<open>in_unget\<close> follow the C++ standard: an operation on a stream that
  is not good only sets the fail bit, and reading at the end sets the end bit. An extracted
  character of \<open>None\<close> is the end-of-file value.
\<close>

record istream =
  rest :: string
  past :: string
  eofbit :: bool
  failbit :: bool

definition stream_of :: "string \<Rightarrow> istream" where
  "stream_of s = \<lparr>rest = s, past = [], eofbit = False, failbit = False\<rparr>"

definition good :: "istream \<Rightarrow> bool" where
  "good i \<longleftrightarrow> \<not> eofbit i \<and> \<not> failbit i"

definition in_get :: "istream \<Rightarrow> char option \<times> istream" where
  "in_get i =
     (if good i then
        case rest i of
          [] \<Rightarrow> (None, i\<lparr>eofbit := True, failbit := True\<rparr>)
        | c # r \<Rightarrow> (Some c, i\<lparr>rest := r, past := c # past i\<rparr>)
      else (None, i\<lparr>failbit := True\<rparr>))"

definition in_peek :: "istream \<Rightarrow> char option \<times> istream" where
  "in_peek i =
     (if good i then
        case rest i of
          [] \<Rightarrow> (None, i\<lparr>eofbit := True\<rparr>)
        | c # r \<Rightarrow> (Some c, i)
      else (None, i\<lparr>failbit := True\<rparr>))"

definition in_unget :: "istream \<Rightarrow> istream" where
  "in_unget i =
     (if failbit i then i
      else case past i of
          [] \<Rightarrow> i\<lparr>eofbit := False, failbit := True\<rparr>
        | c # p \<Rightarrow> i\<lparr>rest := c # rest i, past := p, eofbit := False\<rparr>)"

definition in_read :: "nat \<Rightarrow> istream \<Rightarrow> string \<times> istream" where
  "in_read n i =
     (if good i then
        let s = take n (rest i);
            i = i\<lparr>rest := drop n (rest i), past := rev s @ past i\<rparr>
        in (s, if length s < n then i\<lparr>eofbit := True, failbit := True\<rparr> else i)
      else ([], i\<lparr>failbit := True\<rparr>))"

text \<open>\<open>char ch = in.peek()\<close>: the end-of-file value becomes the byte 255.\<close>

definition to_char :: "char option \<Rightarrow> char" where
  "to_char c = (case c of None \<Rightarrow> CHR 0xFF | Some c \<Rightarrow> c)"

section \<open>Scanners\<close>

lemma in_get_rest:
  assumes "in_get i = (Some c, j)"
  shows "rest i = c # rest j" "\<not> failbit j" "good i" "length (rest j) < length (rest i)"
  using assms by (auto simp: in_get_def good_def split: if_splits list.splits)

lemma in_get_None: "in_get i = (None, j) \<Longrightarrow> failbit j \<and> rest j = rest i"
  by (auto simp: in_get_def good_def split: if_splits list.splits)

text \<open>
  The loop of \<open>SkipSpaces\<close> ends at a character above a blank or when the stream has failed, at the
  latest one round after the end of the input was seen.
\<close>

function SkipSpaces_in :: "istream \<Rightarrow> istream" where
  "SkipSpaces_in i =
     (let (p, i1) = in_peek i in
      if \<not> spacelike (to_char p) \<or> failbit i1 then i1
      else SkipSpaces_in (snd (in_get i1)))"
  by pat_completeness auto
termination
proof (relation "measure (\<lambda>i. length (rest i) + (if failbit i then 0 else 1))")
  fix i p i1 y
  assume e: "y = in_peek i" "(p, i1) = y" and n: "\<not> (\<not> spacelike (to_char p) \<or> failbit i1)"
  have r: "rest i1 = rest i" "failbit i1 = failbit i \<or> failbit i1"
    using e by (auto simp: in_peek_def split: if_splits list.splits)
  have "\<not> failbit i" using e n by (auto simp: in_peek_def good_def split: if_splits list.splits)
  show "(snd (in_get i1), i) \<in> measure (\<lambda>i. length (rest i) + (if failbit i then 0 else 1))"
  proof (cases "in_get i1")
    case (Pair c j)
    then show ?thesis
      using in_get_rest [of i1 _ j] in_get_None [of i1 j] r \<open>\<not> failbit i\<close> by (cases c) auto
  qed
qed simp

declare SkipSpaces_in.simps [simp del]

definition SkipToNextChar :: "bool \<Rightarrow> istream \<Rightarrow> char \<times> istream" where
  "SkipToNextChar consume i =
     (let i = SkipSpaces_in i in
      if \<not> good i then (NUL, i)
      else if consume then (case in_get i of (c, i) \<Rightarrow> (to_char c, i))
      else (case in_peek i of (c, i) \<Rightarrow> (to_char c, i)))"

function ExtractDelimited_loop :: "string \<Rightarrow> istream \<Rightarrow> string \<Rightarrow> string \<times> istream" where
  "ExtractDelimited_loop delims i res =
     (case in_get i of
        (None, i) \<Rightarrow> (res, i)
      | (Some ch, i) \<Rightarrow>
          if ch \<in> set delims then (res, in_unget i)
          else ExtractDelimited_loop delims i (res @ [ch]))"
  by pat_completeness auto
termination
  by (relation "measure (\<lambda>(_, i, _). length (rest i))") (auto dest: in_get_rest(4) [OF sym])

definition ExtractDelimited :: "string \<Rightarrow> istream \<Rightarrow> bool \<times> string \<times> istream" where
  "ExtractDelimited delims i =
     (let (res, i) = ExtractDelimited_loop delims i [] in (\<not> failbit i, res, i))"

function ExtractToNextQuote_loop :: "istream \<Rightarrow> string \<Rightarrow> string \<times> istream" where
  "ExtractToNextQuote_loop i res =
     (case in_get i of
        (None, i) \<Rightarrow> (res, i)
      | (Some ch, i) \<Rightarrow> if ch = CHR 0x22 then (res, i) else ExtractToNextQuote_loop i (res @ [ch]))"
  by pat_completeness auto
termination
  by (relation "measure (\<lambda>(i, _). length (rest i))") (auto dest: in_get_rest(4) [OF sym])

definition ExtractToNextQuote :: "istream \<Rightarrow> bool \<times> string \<times> istream" where
  "ExtractToNextQuote i = (let (res, i) = ExtractToNextQuote_loop i [] in (\<not> failbit i, res, i))"

text \<open>The result, the string and \<open>*was_quoted\<close> (\<open>None\<close> when it is not written).\<close>

definition ExtractQuotedString :: "string \<Rightarrow> istream \<Rightarrow> bool \<times> string \<times> bool option \<times> istream" where
  "ExtractQuotedString fallback_delimiters i =
     (let i = SkipSpaces_in i in
      if failbit i then (False, [], None, i)
      else case in_get i of
        (None, i) \<Rightarrow> (False, [], None, i)
      | (Some ch, i) \<Rightarrow>
          if ch = CHR 0x22 then
            let (_, res, i) = ExtractToNextQuote i in (\<not> failbit i, res, Some True, i)
          else if fallback_delimiters \<noteq> [] then
            let (_, res, i) = ExtractDelimited fallback_delimiters (in_unget i)
            in (\<not> failbit i, res, Some False, i)
          else (\<not> failbit i, [], Some True, i))"

function SkipDelimited_loop :: "string \<Rightarrow> bool \<Rightarrow> nat \<Rightarrow> istream \<Rightarrow> istream" where
  "SkipDelimited_loop delims skip_escaped skip_next i =
     (case in_get i of
        (None, i) \<Rightarrow> i
      | (Some ch, i) \<Rightarrow>
          if skip_next = 0 \<and> ch \<in> set delims then in_unget i
          else
            let skip_next = (if skip_escaped then
                  if ch = CHR 0x5C then (skip_next + 1) mod 2 else 0 else skip_next)
            in SkipDelimited_loop delims skip_escaped skip_next i)"
  by pat_completeness auto
termination
  by (relation "measure (\<lambda>(_, _, _, i). length (rest i))") (auto dest: in_get_rest(4) [OF sym])

definition SkipDelimitedString :: "string \<Rightarrow> bool \<Rightarrow> istream \<Rightarrow> bool \<times> istream" where
  "SkipDelimitedString delims skip_escaped i =
     (let i = SkipDelimited_loop delims skip_escaped 0 i in (\<not> failbit i, i))"

definition SkipQuotedString :: "string \<Rightarrow> bool \<Rightarrow> istream \<Rightarrow> istream" where
  "SkipQuotedString fallback_delimiters skip_escaped i =
     (let i = SkipSpaces_in i in
      if failbit i then i
      else case in_get i of
        (None, i) \<Rightarrow> i
      | (Some ch, i) \<Rightarrow>
          if ch = CHR 0x22 then
            let i = snd (SkipDelimitedString [CHR 0x22] True i) in
            if \<not> good i then i else snd (in_get i)
          else if fallback_delimiters \<noteq> [] then
            snd (SkipDelimitedString fallback_delimiters skip_escaped (in_unget i))
          else i)"

declare ExtractDelimited_loop.simps [simp del]
declare ExtractToNextQuote_loop.simps [simp del]
declare SkipDelimited_loop.simps [simp del]

section \<open>Good streams\<close>

text \<open>A good stream that has read \<open>p\<close> and has \<open>r\<close> in front of it.\<close>

abbreviation at_rest :: "string \<Rightarrow> string \<Rightarrow> istream" where
  "at_rest p r \<equiv> \<lparr>rest = r, past = p, eofbit = False, failbit = False\<rparr>"

abbreviation at_end :: "string \<Rightarrow> istream" where
  "at_end p \<equiv> \<lparr>rest = [], past = p, eofbit = True, failbit = True\<rparr>"

lemma good_at_rest [simp]: "good (at_rest p r)"
  by (simp add: good_def)

lemma in_get_at_rest [simp]:
  "in_get (at_rest p (c # r)) = (Some c, at_rest (c # p) r)"
  "in_get (at_rest p []) = (None, at_end p)"
  by (simp_all add: in_get_def)

lemma in_unget_at_rest [simp]: "in_unget (at_rest (c # p) r) = at_rest p (c # r)"
  by (simp add: in_unget_def)

lemma in_peek_at_rest [simp]: "in_peek (at_rest p (c # r)) = (Some c, at_rest p (c # r))"
  by (simp add: in_peek_def)

lemma in_read_at_rest [simp]:
  "length s = n \<Longrightarrow> in_read n (at_rest p (s @ r)) = (s, at_rest (rev s @ p) r)"
  by (simp add: in_read_def)

lemma SkipSpaces_at_rest:
  "(\<forall>c \<in> set s. spacelike c) \<Longrightarrow> \<not> spacelike c \<Longrightarrow>
   SkipSpaces_in (at_rest p (s @ c # r)) = at_rest (rev s @ p) (c # r)"
proof (induction s arbitrary: p)
  case Nil
  then show ?case by (subst SkipSpaces_in.simps) (simp add: to_char_def)
next
  case (Cons b s)
  then show ?case using Cons.IH [of "b # p"] by (subst SkipSpaces_in.simps) (simp add: to_char_def)
qed

lemma SkipSpaces_all:
  "(\<forall>c \<in> set s. spacelike c) \<Longrightarrow> failbit (SkipSpaces_in (at_rest p s))"
proof (induction s arbitrary: p)
  case Nil
  have "SkipSpaces_in \<lparr>rest = [], past = p, eofbit = True, failbit = True\<rparr> = \<lparr>rest = [], past = p, eofbit = True, failbit = True\<rparr>"
    by (subst SkipSpaces_in.simps) (simp add: in_peek_def good_def)
  then show ?case by (subst SkipSpaces_in.simps) (simp add: in_peek_def in_get_def good_def to_char_def spacelike_def)
next
  case (Cons b s)
  then show ?case using Cons.IH [of "b # p"] by (subst SkipSpaces_in.simps) (simp add: to_char_def)
qed

end
