(* ===== verification/Varint.thy ===== *)
theory Varint
  imports IStream "HOL-Library.Word"
begin

unbundle bit_operations_syntax

text \<open>
  \<open>util/serial/types/varint.h\<close> and \<open>util/serial/encoding/endian.h\<close>: variable-length and fixed-length
  integers in binary form. The unsigned type of the template is an \<open>'a word\<close> of at least 32 bits
  (shorter types are promoted to \<open>int\<close> by the shift). A shift by the width of the type or more is
  undefined; the result of a decoder is then \<open>None\<close>.
\<close>

section \<open>Variable-length integers\<close>

definition out_byte :: "'a::len word \<Rightarrow> char" where
  "out_byte w = char_of (unat (w AND 255))"

function ToBinary_loop :: "'a::len word \<Rightarrow> string" where
  "ToBinary_loop n =
     (if drop_bit 7 n \<noteq> 0 then out_byte ((n AND 127) OR 128) # ToBinary_loop (drop_bit 7 n)
      else [out_byte (n AND 127)])"
  by pat_completeness auto
termination
proof (relation "measure unat")
  fix n :: "'a word" assume n: "drop_bit 7 n \<noteq> 0"
  have "unat n \<noteq> 0" using n by (metis drop_bit_of_0 unat_eq_zero)
  then have "unat n div 128 < unat n" by (intro div_less_dividend) auto
  then show "(drop_bit 7 n, n) \<in> measure unat"
    using unat_drop_bit_eq [of 7 n] drop_bit_eq_div [of 7 "unat n"] by simp
qed simp

declare ToBinary_loop.simps [simp del]

definition ToBinary_unsigned :: "'a::len word \<Rightarrow> string" where
  "ToBinary_unsigned v = ToBinary_loop v"

definition in_byte :: "char \<Rightarrow> 'a::len word" where
  "in_byte c = of_nat (byte c)"

function FromBinary_loop :: "nat \<Rightarrow> 'a::len word \<Rightarrow> istream \<Rightarrow> (bool \<times> 'a word \<times> istream) option" where
  "FromBinary_loop i n s =
     (case in_get s of
        (None, s) \<Rightarrow> Some (False, n, s)
      | (Some c, s) \<Rightarrow>
          if LENGTH('a) \<le> i * 7 then None
          else
            let n = n OR push_bit (i * 7) (in_byte c AND 127) in
            if in_byte c AND 128 = (0 :: 'a word) then Some (True, n, s)
            else FromBinary_loop (Suc i) n s)"
  by pat_completeness auto
termination
  by (relation "measure (\<lambda>(_, _, s). length (rest s))") (auto dest: in_get_rest(4) [OF sym])

declare FromBinary_loop.simps [simp del]

text \<open>Whether it succeeded, the new value of \<open>v_\<close>, and the stream.\<close>

definition FromBinary_unsigned :: "'a::len word \<Rightarrow> istream \<Rightarrow> (bool \<times> 'a word \<times> istream) option" where
  "FromBinary_unsigned v s = do {
     (ok, n, s) \<leftarrow> FromBinary_loop 0 0 s;
     Some (if ok then (True, n, s) else (False, v, s))
   }"

text \<open>Signed values in zigzag form; \<open>>>\<close> on a signed type shifts the sign bit in.\<close>

definition zigzag :: "'a::len word \<Rightarrow> 'a word" where
  "zigzag v = push_bit 1 v XOR signed_drop_bit (LENGTH('a) - 1) v"

definition unzigzag :: "'a::len word \<Rightarrow> 'a word" where
  "unzigzag n = drop_bit 1 n XOR - (n AND 1)"

definition ToBinary_signed :: "'a::len word \<Rightarrow> string" where
  "ToBinary_signed v = ToBinary_loop (zigzag v)"

text \<open>The loop of the signed decoder does not start on a stream that has failed already.\<close>

definition FromBinary_signed :: "'a::len word \<Rightarrow> istream \<Rightarrow> (bool \<times> 'a word \<times> istream) option" where
  "FromBinary_signed v s =
     (if failbit s then Some (False, unzigzag 0, s)
      else do {
        (ok, n, s) \<leftarrow> FromBinary_loop 0 0 s;
        Some (if ok then (True, unzigzag n, s) else (False, v, s))
      })"

section \<open>Fixed-length integers and byte order\<close>

text \<open>
  The bytes of an object in memory: \<open>sizeof(T)\<close> bytes of the value, the lowest first on a
  little-endian host. The byte order of the host, which \<open>IsBigEndian\<close> finds out by looking at
  the first byte of 0x01020304, is the parameter.
\<close>

definition le_bytes :: "'a::len word \<Rightarrow> string" where
  "le_bytes w = map (\<lambda>i. out_byte (drop_bit (8 * i) w)) [0..<LENGTH('a) div 8]"

definition host_bytes :: "bool \<Rightarrow> 'a::len word \<Rightarrow> string" where
  "host_bytes big w = (if big then rev (le_bytes w) else le_bytes w)"

fun of_le_bytes :: "string \<Rightarrow> 'a::len word" where
  "of_le_bytes [] = 0"
| "of_le_bytes (c # cs) = in_byte c OR push_bit 8 (of_le_bytes cs)"

definition of_host_bytes :: "bool \<Rightarrow> string \<Rightarrow> 'a::len word" where
  "of_host_bytes big s = of_le_bytes (if big then rev s else s)"

definition IsBigEndian :: "bool \<Rightarrow> bool" where
  "IsBigEndian big \<longleftrightarrow> hd (host_bytes big (0x01020304 :: 32 word)) = CHR 0x01"

definition SwapEndianness :: "string \<Rightarrow> string" where
  "SwapEndianness mem = rev mem"

definition HToLE :: "bool \<Rightarrow> string \<Rightarrow> string" where
  "HToLE big mem = (if IsBigEndian big then SwapEndianness mem else mem)"

definition HToBE :: "bool \<Rightarrow> string \<Rightarrow> string" where
  "HToBE big mem = (if \<not> IsBigEndian big then SwapEndianness mem else mem)"

definition LEToH :: "bool \<Rightarrow> string \<Rightarrow> string" where
  "LEToH big mem = (if IsBigEndian big then SwapEndianness mem else mem)"

definition BEToH :: "bool \<Rightarrow> string \<Rightarrow> string" where
  "BEToH big mem = (if \<not> IsBigEndian big then SwapEndianness mem else mem)"

definition ToBinary_fixed :: "bool \<Rightarrow> 'a::len word \<Rightarrow> string" where
  "ToBinary_fixed big v = HToLE big (host_bytes big v)"

text \<open>On failure the object keeps the bytes that were read; only the success is returned here.\<close>

definition FromBinary_fixed :: "bool \<Rightarrow> istream \<Rightarrow> 'a::len word option \<times> istream" where
  "FromBinary_fixed big s =
     (let (mem, s) = in_read (LENGTH('a) div 8) s in
      if \<not> failbit s then (Some (of_host_bytes big (LEToH big mem)), s) else (None, s))"

section \<open>Correctness\<close>

lemma IsBigEndian_iff: "IsBigEndian big = big"
proof -
  have "IsBigEndian True" "\<not> IsBigEndian False" by code_simp+
  then show ?thesis by (cases big) simp_all
qed

lemma and_masks: "w AND 255 = take_bit 8 w" "w AND 127 = take_bit 7 w" for w :: "'a::len word"
  by (simp_all add: take_bit_eq_mask mask_numeral)

lemma in_out_byte: "in_byte (out_byte w) = (take_bit 8 w :: 'a::len word)"
proof -
  have "unat (take_bit 8 w) < 256"
    unfolding unsigned_take_bit_eq using take_bit_nat_less_exp [of 8 "unat w"] by simp
  then have "of_char (char_of (unat (take_bit 8 w))) = unat (take_bit 8 w)" by (rule byte_char_of)
  then show ?thesis by (simp add: in_byte_def out_byte_def and_masks)
qed

lemma bit_128: "bit (128 :: 'a::len word) i \<longleftrightarrow> i = 7 \<and> 7 < LENGTH('a)"
proof -
  have e: "(128 :: 'a word) = 2 ^ 7" by simp
  show ?thesis unfolding e bit_exp_iff by auto
qed

lemma last_byte:
  assumes "8 \<le> LENGTH('a)"
  shows "in_byte (out_byte (take_bit 7 w)) AND 127 = (take_bit 7 w :: 'a::len word)"
    "in_byte (out_byte (take_bit 7 w)) AND 128 = (0 :: 'a word)"
proof -
  have e: "in_byte (out_byte (take_bit 7 w)) = (take_bit 7 w :: 'a word)"
    by (simp add: in_out_byte)
  show "in_byte (out_byte (take_bit 7 w)) AND 127 = (take_bit 7 w :: 'a word)"
    by (simp add: e and_masks)
  show "in_byte (out_byte (take_bit 7 w)) AND 128 = (0 :: 'a word)"
    unfolding e by (rule bit_word_eqI) (auto simp only: bit_and_iff bit_take_bit_iff bit_128 bit_0_eq bot_apply bot_bool_def)
qed

lemma more_byte:
  assumes "8 \<le> LENGTH('a)"
  shows "in_byte (out_byte (take_bit 7 w OR 128)) AND 127 = (take_bit 7 w :: 'a::len word)"
    "in_byte (out_byte (take_bit 7 w OR 128)) AND 128 \<noteq> (0 :: 'a word)"
proof -
  have e: "in_byte (out_byte (take_bit 7 w OR 128)) = (take_bit 7 w OR 128 :: 'a word)"
    unfolding in_out_byte by (rule bit_word_eqI) (auto simp: bit_simps bit_128)
  show "in_byte (out_byte (take_bit 7 w OR 128)) AND 127 = (take_bit 7 w :: 'a word)"
    unfolding e and_masks by (rule bit_word_eqI) (auto simp: bit_simps bit_128)
  have "bit ((take_bit 7 w OR 128) AND 128 :: 'a word) 7"
    using assms by (auto simp: bit_simps bit_128)
  then show "in_byte (out_byte (take_bit 7 w OR 128)) AND 128 \<noteq> (0 :: 'a word)"
    unfolding e by (metis bit_0_eq bot_apply bot_bool_def)
qed

lemma next_seven:
  "take_bit k n OR push_bit k (take_bit 7 (drop_bit k n)) = take_bit (k + 7) n" for n :: "'a::len word"
  by (rule bit_word_eqI) (auto simp: bit_simps)

lemma FromBinary_ToBinary_loop:
  fixes n :: "'a::len word"
  assumes "8 \<le> LENGTH('a)"
  shows "drop_bit (i * 7) n = m \<Longrightarrow> m \<noteq> 0 \<or> i = 0 \<Longrightarrow>
    FromBinary_loop i (take_bit (i * 7) n) (at_rest p (ToBinary_loop m @ r)) =
      Some (True, n, at_rest (rev (ToBinary_loop m) @ p) r)"
proof (induction m arbitrary: i p rule: ToBinary_loop.induct)
  case (1 m)
  have i: "\<not> LENGTH('a) \<le> i * 7"
  proof
    assume "LENGTH('a) \<le> i * 7"
    then have "m = 0" using 1(2) by (auto intro!: bit_word_eqI simp: bit_simps dest: bit_imp_le_length)
    with 1(3) \<open>LENGTH('a) \<le> i * 7\<close> show False by simp
  qed
  have acc: "take_bit (i * 7) n OR push_bit (i * 7) (take_bit 7 m) = take_bit (Suc i * 7) n"
    using next_seven [of "i * 7" n] 1(2) by (simp add: add.commute)
  show ?case
  proof (cases "drop_bit 7 m = 0")
    case True
    have "take_bit (Suc i * 7) n = n"
    proof (rule bit_word_eqI)
      fix k assume "k < LENGTH('a)"
      have "bit (drop_bit 7 m) (k - (i * 7 + 7)) \<longleftrightarrow> bit n k" if "i * 7 + 7 \<le> k"
        using 1(2) that by (auto simp: bit_simps)
      then show "bit (take_bit (Suc i * 7) n) k = bit n k"
        using True by (cases "i * 7 + 7 \<le> k") (auto simp: bit_simps)
    qed
    then show ?thesis
      using True i acc last_byte [OF assms, of m]
      by (simp add: ToBinary_loop.simps [of m] FromBinary_loop.simps and_masks)
  next
    case False
    have "drop_bit (Suc i * 7) n = drop_bit 7 m" using 1(2) by (auto simp: add.commute)
    then have IH: "FromBinary_loop (Suc i) (take_bit (Suc i * 7) n) (at_rest q (ToBinary_loop (drop_bit 7 m) @ r)) =
        Some (True, n, at_rest (rev (ToBinary_loop (drop_bit 7 m)) @ q) r)" for q
      using 1(1) [OF False, of "Suc i" q] False by simp
    show ?thesis
      using False i acc more_byte [OF assms, of m] IH
      by (simp add: ToBinary_loop.simps [of m] FromBinary_loop.simps [of i] and_masks)
  qed
qed

lemma bit_signed_drop_bit_sign:
  "i < LENGTH('a) \<Longrightarrow> bit (signed_drop_bit (LENGTH('a) - 1) v) i \<longleftrightarrow> bit v (LENGTH('a) - 1)" for v :: "'a::len word"
  by (cases i) (auto simp: bit_signed_drop_bit_iff)

lemma bit_uminus_of_bool: "i < LENGTH('a) \<Longrightarrow> bit (- (of_bool b) :: 'a::len word) i \<longleftrightarrow> b"
  by (cases b) simp_all

lemma bit_zigzag:
  "i < LENGTH('a) \<Longrightarrow> bit (zigzag v) i \<longleftrightarrow> ((0 < i \<and> bit v (i - 1)) \<noteq> bit v (LENGTH('a) - 1))" for v :: "'a::len word"
  unfolding zigzag_def by (cases i) (auto simp: bit_simps bit_signed_drop_bit_sign simp del: push_bit_Suc)

lemma unzigzag_zigzag: "unzigzag (zigzag v) = v" for v :: "'a::len word"
proof (rule bit_word_eqI)
  fix i assume i: "i < LENGTH('a)"
  have "zigzag v AND 1 = of_bool (bit v (LENGTH('a) - 1))"
    using bit_zigzag [of 0 v] by (simp add: and_one_eq mod_2_eq_odd bit_0)
  moreover have "bit (drop_bit 1 (zigzag v)) i \<longleftrightarrow> Suc i < LENGTH('a) \<and> (bit v i \<noteq> bit v (LENGTH('a) - 1))"
    using bit_zigzag [of "Suc i" v] by (auto simp: bit_drop_bit_eq dest: bit_imp_le_length)
  moreover have "\<not> Suc i < LENGTH('a) \<Longrightarrow> i = LENGTH('a) - 1" using i by simp
  ultimately show "bit (unzigzag (zigzag v)) i = bit v i"
    unfolding unzigzag_def bit_xor_iff using bit_uminus_of_bool [OF i] by auto
qed

lemma ToBinary_loop_length:
  "unat n < 2 ^ (7 * k) \<Longrightarrow> 0 < k \<Longrightarrow> length (ToBinary_loop n) \<le> k" for n :: "'a::len word"
proof (induction n arbitrary: k rule: ToBinary_loop.induct)
  case (1 n)
  have e: "unat (drop_bit 7 n) = unat n div 128"
    using unat_drop_bit_eq [of 7 n] drop_bit_eq_div [of 7 "unat n"] by simp
  show ?case
  proof (cases "drop_bit 7 n = 0")
    case True
    then show ?thesis using 1(3) by (subst ToBinary_loop.simps) simp
  next
    case False
    obtain j where k: "k = Suc j" using 1(3) by (cases k) auto
    have "unat n div 128 < 2 ^ (7 * j)" using 1(2) by (simp add: k power_add less_mult_imp_div_less)
    moreover have "j \<noteq> 0"
    proof
      assume "j = 0"
      then have "unat (drop_bit 7 n) = 0" using \<open>unat n div 128 < 2 ^ (7 * j)\<close> e by simp
      with False show False by (simp add: unat_eq_zero)
    qed
    ultimately have "length (ToBinary_loop (drop_bit 7 n)) \<le> j" using 1(1) [OF False, of j] e by simp
    then show ?thesis using False k by (subst ToBinary_loop.simps) simp
  qed
qed

lemma of_le_bytes_drop:
  "of_le_bytes (map (\<lambda>i. out_byte (drop_bit (8 * i) w)) [k..<k + n]) = take_bit (8 * n) (drop_bit (8 * k) w)"
  for w :: "'a::len word"
proof (induction n arbitrary: k)
  case (Suc n)
  have "[k..<k + Suc n] = k # [Suc k..<Suc k + n]" by (simp add: upt_conv_Cons)
  then have "of_le_bytes (map (\<lambda>i. out_byte (drop_bit (8 * i) w)) [k..<k + Suc n]) =
      take_bit 8 (drop_bit (8 * k) w) OR push_bit 8 (take_bit (8 * n) (drop_bit (8 * Suc k) w))"
    using Suc.IH [of "Suc k"] by (simp add: in_out_byte del: push_bit_numeral take_bit_numeral_numeral)
  also have "\<dots> = take_bit (8 * Suc n) (drop_bit (8 * k) w)"
    by (rule bit_word_eqI) (auto simp: bit_simps algebra_simps)
  finally show ?case .
qed simp

lemma of_le_bytes_le_bytes:
  assumes "8 dvd LENGTH('a)"
  shows "of_le_bytes (le_bytes w) = (w :: 'a::len word)"
  using of_le_bytes_drop [of w 0 "LENGTH('a) div 8"] assms
  by (simp add: le_bytes_def take_bit_length_eq)

lemma zigzag_value:
  "uint (zigzag v) = (if 0 \<le> sint v then 2 * sint v else - 2 * sint v - 1)" for v :: "'a::len word"
proof -
  have p: "(2 :: int) ^ LENGTH('a) = 2 * 2 ^ (LENGTH('a) - 1)" by (simp add: power_Suc [symmetric])
  have s: "bit v (LENGTH('a) - 1) \<longleftrightarrow> sint v < 0" by (simp add: bit_last_iff)
  have v: "v = word_of_int (sint v)" by simp
  have u: "uint (word_of_int k :: 'a word) = k" if "0 \<le> k" "k < 2 ^ LENGTH('a)" for k
    using that by (simp add: unsigned_of_int take_bit_eq_mod)
  show ?thesis
  proof (cases "sint v < 0")
    case False
    have "zigzag v = push_bit 1 v"
      by (rule bit_word_eqI, simp only: bit_zigzag bit_push_bit_iff) (use s False in auto)
    also have "\<dots> = word_of_int (2 * sint v)" by (subst v) simp
    finally show ?thesis using u [of "2 * sint v"] sint_lt [of v] False p by simp
  next
    case True
    have "zigzag v = NOT (push_bit 1 v)"
      by (rule bit_word_eqI, simp only: bit_zigzag bit_not_iff bit_push_bit_iff) (use s True in auto)
    also have "\<dots> = word_of_int (- 2 * sint v - 1)" by (subst v) (simp add: not_eq_complement)
    finally show ?thesis using u [of "- 2 * sint v - 1"] sint_ge [of v] True p by simp
  qed
qed

section \<open>Properties\<close>

text \<open>
  C26. Integers of 8 bits or more survive the variable-length binary form, the unsigned ones as they
  are and the signed ones in zigzag form, whatever follows them in the stream; the decoder stops
  right behind them.
\<close>

theorem varint_roundtrip:
  fixes v w :: "'a::len word"
  assumes "8 \<le> LENGTH('a)"
  shows "FromBinary_unsigned w (stream_of (ToBinary_unsigned v @ r)) =
      Some (True, v, at_rest (rev (ToBinary_unsigned v)) r) \<and>
    FromBinary_signed w (stream_of (ToBinary_signed v @ r)) =
      Some (True, v, at_rest (rev (ToBinary_signed v)) r)"
  using FromBinary_ToBinary_loop [OF assms, where i = 0 and n = v and p = "[]" and r = r]
    FromBinary_ToBinary_loop [OF assms, where i = 0 and n = "zigzag v" and p = "[]" and r = r]
  by (simp add: FromBinary_unsigned_def ToBinary_unsigned_def FromBinary_signed_def ToBinary_signed_def
      stream_of_def unzigzag_zigzag)

theorem varint_roundtrip_witness:
  "FromBinary_unsigned 0 (stream_of (ToBinary_unsigned (300 :: 64 word) @ ''x'')) =
     Some (True, 300 :: 64 word, at_rest (rev (ToBinary_unsigned (300 :: 64 word))) ''x'')"
  using varint_roundtrip [where 'a = 64, of 0 300 "''x''"] by simp

text \<open>
  The variable-length form is short: \<open>k\<close> bytes hold every unsigned value below \<open>2 ^ (7 k)\<close> and,
  in zigzag form, every signed value from \<open>- (2 ^ (7 k - 1))\<close> up to below \<open>2 ^ (7 k - 1)\<close>.
\<close>

theorem varint_length_ok:
  fixes v :: "'a::len word"
  assumes "0 < k"
  shows "(unat v < 2 ^ (7 * k) \<longrightarrow> length (ToBinary_unsigned v) \<le> k) \<and>
    (- (2 ^ (7 * k - 1)) \<le> sint v \<and> sint v < 2 ^ (7 * k - 1) \<longrightarrow> length (ToBinary_signed v) \<le> k)"
proof (intro conjI impI)
  show "length (ToBinary_unsigned v) \<le> k" if "unat v < 2 ^ (7 * k)"
    using ToBinary_loop_length [OF that assms] by (simp add: ToBinary_unsigned_def)
  assume s: "- (2 ^ (7 * k - 1)) \<le> sint v \<and> sint v < 2 ^ (7 * k - 1)"
  have p: "(2 :: int) ^ (7 * k) = 2 * 2 ^ (7 * k - 1)" using assms by (simp add: power_Suc [symmetric])
  have "uint (zigzag v) < 2 ^ (7 * k)" using s p by (simp add: zigzag_value)
  then have "int (unat (zigzag v)) < int (2 ^ (7 * k))" unfolding uint_nat [symmetric] by simp
  then have "unat (zigzag v) < 2 ^ (7 * k)" by (rule of_nat_less_imp_less)
  then show "length (ToBinary_signed v) \<le> k"
    using ToBinary_loop_length [of "zigzag v" k] assms by (simp add: ToBinary_signed_def)
qed

theorem varint_length_ok_witness:
  "length (ToBinary_unsigned (127 :: 64 word)) \<le> 1 \<and> length (ToBinary_signed (- 64 :: 64 word)) \<le> 1"
proof -
  have "unat (127 :: 64 word) < 2 ^ (7 * 1)" "sint (- 64 :: 64 word) = - 64" by simp_all
  then show ?thesis
    using varint_length_ok [where 'a = 64, of 1 127] varint_length_ok [where 'a = 64, of 1 "- 64"] by simp
qed

text \<open>
  C27. Fixed-length integers are portable: what a host of either byte order writes, a host of either
  byte order reads back.
\<close>

theorem fixedint_roundtrip:
  fixes v :: "'a::len word"
  assumes "8 dvd LENGTH('a)"
  shows "FromBinary_fixed big2 (stream_of (ToBinary_fixed big1 v @ r)) =
    (Some v, at_rest (rev (ToBinary_fixed big1 v)) r)"
proof -
  have t: "ToBinary_fixed big1 v = le_bytes v"
    by (simp add: ToBinary_fixed_def HToLE_def host_bytes_def IsBigEndian_iff SwapEndianness_def)
  have "of_host_bytes big2 (LEToH big2 (le_bytes v)) = v"
    using of_le_bytes_le_bytes [OF assms, of v]
    by (simp add: of_host_bytes_def LEToH_def IsBigEndian_iff SwapEndianness_def)
  moreover have "length (le_bytes v) = LENGTH('a) div 8" by (simp add: le_bytes_def)
  ultimately show ?thesis
    by (simp add: t FromBinary_fixed_def stream_of_def)
qed

theorem fixedint_roundtrip_witness:
  "FromBinary_fixed True (stream_of (ToBinary_fixed False (258 :: 32 word) @ ''x'')) =
    (Some (258 :: 32 word), at_rest (rev (ToBinary_fixed False (258 :: 32 word))) ''x'')"
  by (rule fixedint_roundtrip) simp


end
