(* ===== verification/Encoding.thy ===== *)
theory Encoding
  imports IStream
begin

text \<open>
  \<open>util/serial/encoding/encoding.h\<close> and \<open>encoding.cc\<close>: the quoted and escaped strings of the
  serializers, in C style (octal escapes, bytes from 128 on as they are) and in JSON style
  (hexadecimal escapes, UTF-8 sequences as one escape). A failing \<open>ASSERT_DEV\<close> aborts the process
  except in production; whether this is production is the parameter \<open>production\<close>. Shifts and masks
  of unsigned numbers are written with \<open>div\<close> and \<open>mod\<close>; a sequence of at most six bytes keeps the
  code point below \<open>2 ^ 31\<close>.
\<close>

section \<open>Escapes\<close>

definition hexdigit :: "nat \<Rightarrow> char" where
  "hexdigit h = char_of (if h < 10 then 48 + h else h - 10 + 65)"

definition serial_TwoDigitHex :: "nat \<Rightarrow> string" where
  "serial_TwoDigitHex c = [hexdigit (c div 16), hexdigit (c mod 16)]"

definition serial_FourDigitHex :: "nat \<Rightarrow> string" where
  "serial_FourDigitHex c = serial_TwoDigitHex (c div 256) @ serial_TwoDigitHex (c mod 256)"

definition serial_UnicodeEscaped :: "nat \<Rightarrow> string" where
  "serial_UnicodeEscaped n =
     (let c = n mod 65536;
          c = (if c = 145 then 96 else if c = 146 then 39 else if c = 147 \<or> c = 148 then 34 else c)
      in CHR 0x5C # CHR ''u'' # serial_FourDigitHex c)"

text \<open>
  \<open>std::stoul(s, nullptr, base)\<close> for the bases 8 and 16: blanks, a sign, for base 16 an optional
  0x, then the digits; without a digit it throws. The result, a 64-bit number, is stored in an
  \<open>unsigned int\<close>. The strings here are so short that no number is out of range.
\<close>

definition digit_of :: "char \<Rightarrow> nat option" where
  "digit_of c =
     (let b = byte c in
      if 48 \<le> b \<and> b \<le> 57 then Some (b - 48)
      else if 65 \<le> b \<and> b \<le> 90 then Some (b - 65 + 10)
      else if 97 \<le> b \<and> b \<le> 122 then Some (b - 97 + 10)
      else None)"

definition is_digit_in :: "nat \<Rightarrow> char \<Rightarrow> bool" where
  "is_digit_in base c = (case digit_of c of None \<Rightarrow> False | Some d \<Rightarrow> d < base)"

definition number_in :: "nat \<Rightarrow> string \<Rightarrow> nat" where
  "number_in base ds = foldl (\<lambda>v c. v * base + the (digit_of c)) 0 ds"

definition stoul :: "string \<Rightarrow> nat \<Rightarrow> nat option" where
  "stoul s base =
     (let s = dropWhile isspace s;
          neg = (at_ptr s = CHR ''-'');
          s = (if at_ptr s = CHR ''-'' \<or> at_ptr s = CHR ''+'' then tl s else s);
          s = (if base = 16 \<and> at_ptr s = CHR ''0'' \<and> tolower (at_ptr (tl s)) = CHR ''x'' \<and>
                  is_digit_in 16 (at_ptr (tl (tl s))) then tl (tl s) else s);
          ds = takeWhile (is_digit_in base) s
      in if ds = [] then None
         else if neg then Some (nat ((- int (number_in base ds)) mod 2 ^ 32))
         else Some (number_in base ds mod 2 ^ 32))"

definition strip_prefix :: "string \<Rightarrow> string \<Rightarrow> string" where
  "strip_prefix p s = (if take (length p) s = p then drop (length p) s else s)"

definition UnicodeUnEscaped :: "bool \<Rightarrow> string \<Rightarrow> nat option" where
  "UnicodeUnEscaped production str =
     (case stoul (strip_prefix [CHR 0x5C, CHR ''u''] str) 16 of
        Some d \<Rightarrow> Some d
      | None \<Rightarrow> if production then Some 0 else None)"

definition OctalEscaped :: "nat \<Rightarrow> string" where
  "OctalEscaped c = [CHR 0x5C, char_of (48 + c div 64), char_of (48 + (c mod 64) div 8), char_of (48 + c mod 8)]"

definition OctalUnEscaped :: "string \<Rightarrow> nat" where
  "OctalUnEscaped str = (case stoul (strip_prefix [CHR 0x5C] str) 8 of Some d \<Rightarrow> d | None \<Rightarrow> 0)"

definition JSONEncode8Bit :: "string \<Rightarrow> string" where
  "JSONEncode8Bit s = concat (map (\<lambda>c. serial_UnicodeEscaped (byte c)) s)"

section \<open>UTF-8\<close>

text \<open>The loop returns the bytes not yet encoded, the code point and the number of bytes consumed (\<open>count\<close>).\<close>

fun EncodeMultiByte_loop :: "string \<Rightarrow> string \<Rightarrow> nat \<Rightarrow> nat \<Rightarrow> nat \<Rightarrow> string \<times> nat \<times> nat" where
  "EncodeMultiByte_loop [] unencoded codepoint expect_more cnt = (unencoded, codepoint, cnt)"
| "EncodeMultiByte_loop (ch # str) unencoded codepoint expect_more cnt =
     (let c = byte ch in
      if c < 128 then (unencoded, codepoint, cnt)
      else
        let cnt = cnt + 1; unencoded = unencoded @ [ch] in
        if 254 \<le> c then (unencoded, codepoint, cnt)
        else if 252 \<le> c then EncodeMultiByte_loop str unencoded (c mod 2) 5 cnt
        else if 248 \<le> c then EncodeMultiByte_loop str unencoded (c mod 4) 4 cnt
        else if 240 \<le> c then EncodeMultiByte_loop str unencoded (c mod 8) 3 cnt
        else if 224 \<le> c then EncodeMultiByte_loop str unencoded (c mod 16) 2 cnt
        else if 192 \<le> c then EncodeMultiByte_loop str unencoded (c mod 32) 1 cnt
        else if 0 < expect_more then
          let codepoint = codepoint * 64 + c mod 64; expect_more = expect_more - 1 in
          if expect_more = 0 then ([], codepoint, cnt)
          else EncodeMultiByte_loop str unencoded codepoint expect_more cnt
        else (unencoded, codepoint, cnt))"

definition EncodeMultiByteUTF8Char :: "string \<Rightarrow> string \<times> nat" where
  "EncodeMultiByteUTF8Char str =
     (let (unencoded, codepoint, cnt) = EncodeMultiByte_loop str [] 0 0 0 in
      if cnt = 0 then ([], cnt)
      else if unencoded \<noteq> [] then (JSONEncode8Bit unencoded, cnt)
      else if codepoint \<le> 65535 then (serial_UnicodeEscaped codepoint, cnt)
      else (serial_UnicodeEscaped (codepoint div 65536) @ serial_UnicodeEscaped (codepoint mod 65536), cnt))"

text \<open>The appended bytes; \<open>None\<close> stands for the return value \<open>false\<close>, with nothing appended.\<close>

definition DecodeMultiByteUTf8CodePoint :: "nat \<Rightarrow> string option" where
  "DecodeMultiByteUTf8CodePoint codepoint =
     (if codepoint < 128 then Some [char_of codepoint]
      else if codepoint < 2048 then Some [char_of (192 + codepoint div 64), char_of (128 + codepoint mod 64)]
      else if codepoint < 65536 then
        Some [char_of (224 + codepoint div 4096), char_of (128 + codepoint div 64 mod 64), char_of (128 + codepoint mod 64)]
      else if codepoint < 1114112 then
        Some [char_of (240 + codepoint div 262144), char_of (128 + codepoint div 4096 mod 64),
          char_of (128 + codepoint div 64 mod 64), char_of (128 + codepoint mod 64)]
      else None)"

section \<open>Writing\<close>

definition char_mapping :: "char \<Rightarrow> string" where
  "char_mapping c =
     (if c = CHR 0x08 then [CHR 0x5C, CHR ''b'']
      else if c = CHR 0x0C then [CHR 0x5C, CHR ''f'']
      else if c = CHR 0x0A then [CHR 0x5C, CHR ''n'']
      else if c = CHR 0x0D then [CHR 0x5C, CHR ''r'']
      else if c = CHR 0x09 then [CHR 0x5C, CHR ''t'']
      else [])"

definition EscapeCharacter :: "bool \<Rightarrow> char \<Rightarrow> string" where
  "EscapeCharacter json c =
     (if byte c < 32 then
        if char_mapping c \<noteq> [] then char_mapping c
        else if json then serial_UnicodeEscaped (byte c)
        else OctalEscaped (byte c)
      else if c = CHR 0x22 then [CHR 0x5C, CHR 0x22]
      else if c = CHR 0x5C then [CHR 0x5C, CHR 0x5C]
      else [c])"

function EscapeString_loop :: "bool \<Rightarrow> string \<Rightarrow> string" where
  "EscapeString_loop json [] = []"
| "EscapeString_loop json (c # s) =
     (if 128 \<le> byte c \<and> json then
        let (res, n) = EncodeMultiByteUTF8Char (c # s) in res @ EscapeString_loop json (drop (n - 1) s)
      else EscapeCharacter json c @ EscapeString_loop json s)"
  by pat_completeness auto
termination by (relation "measure (\<lambda>(_, s). length s)") auto

definition EscapeStringToStream :: "bool \<Rightarrow> string \<Rightarrow> string" where
  "EscapeStringToStream json input = CHR 0x22 # EscapeString_loop json input @ [CHR 0x22]"

section \<open>Reading\<close>

definition unescape_mapping :: "char \<Rightarrow> char option" where
  "unescape_mapping ch = map_of [(CHR 0x5C, CHR 0x5C), (CHR 0x22, CHR 0x22), (CHR ''/'', CHR ''/''),
     (CHR ''b'', CHR 0x08), (CHR ''f'', CHR 0x0C), (CHR ''n'', CHR 0x0A), (CHR ''r'', CHR 0x0D),
     (CHR ''t'', CHR 0x09)] ch"

text \<open>What follows a backslash: the return value, the appended bytes and the stream.\<close>

definition unescape_after_slash :: "bool \<Rightarrow> char \<Rightarrow> istream \<Rightarrow> (bool \<times> string \<times> istream) option" where
  "unescape_after_slash production ch i =
     (case unescape_mapping ch of
        Some e \<Rightarrow> Some (True, [e], i)
      | None \<Rightarrow>
          if ch = CHR ''u'' then
            let (str, i) = in_read 4 i in
            if failbit i then Some (False, [], i)
            else do {
              d \<leftarrow> UnicodeUnEscaped production str;
              Some (True, case DecodeMultiByteUTf8CodePoint d of None \<Rightarrow> [] | Some b \<Rightarrow> b, i)
            }
          else
            let (str, i) = in_read 2 i in
            if failbit i then Some (False, [], i)
            else Some (True, [char_of (OctalUnEscaped (ch # str) mod 256)], i))"

definition UnEscapeCharacter :: "bool \<Rightarrow> bool \<Rightarrow> istream \<Rightarrow> (bool \<times> string \<times> istream) option" where
  "UnEscapeCharacter production expect_slash i =
     (case in_get i of
        (None, i) \<Rightarrow> Some (False, [], i)
      | (Some ch, i) \<Rightarrow>
          if expect_slash then
            if ch \<noteq> CHR 0x5C then Some (True, [ch], i)
            else (case in_get i of
                (None, i) \<Rightarrow> Some (False, [], i)
              | (Some ch, i) \<Rightarrow> unescape_after_slash production ch i)
          else unescape_after_slash production ch i)"

lemma in_read_length: "length (rest (snd (in_read n i))) \<le> length (rest i)"
  by (auto simp: in_read_def Let_def)

lemma unescape_after_slash_length:
  "unescape_after_slash production ch i = Some (b, r, j) \<Longrightarrow> length (rest j) \<le> length (rest i)"
  using in_read_length [of 4 i] in_read_length [of 2 i]
  by (auto simp: unescape_after_slash_def bind_eq_Some_conv split: option.splits if_splits prod.splits)

lemma UnEscapeCharacter_length:
  "UnEscapeCharacter production e i = Some (b, r, j) \<Longrightarrow> length (rest j) \<le> length (rest i)"
  by (auto simp: UnEscapeCharacter_def split: option.splits if_splits prod.splits
      dest!: in_get_rest(4) unescape_after_slash_length in_get_None)

function UnEscapeString_loop :: "bool \<Rightarrow> string \<Rightarrow> istream \<Rightarrow> string \<Rightarrow> (string \<times> istream) option" where
  "UnEscapeString_loop production delimiters i res =
     (case in_get i of
        (None, i) \<Rightarrow> Some (res, i)
      | (Some ch, i) \<Rightarrow>
          if ch \<in> set delimiters then Some (res, in_unget i)
          else if ch = CHR 0x5C then do {
            (_, r, i) \<leftarrow> UnEscapeCharacter production False i;
            UnEscapeString_loop production delimiters i (res @ r)
          }
          else UnEscapeString_loop production delimiters i (res @ [ch]))"
  by pat_completeness auto
termination
  by (relation "measure (\<lambda>(_, _, i, _). length (rest i))")
    (auto dest!: in_get_rest(4) [OF sym] UnEscapeCharacter_length)

definition UnEscapeStringFromStream :: "bool \<Rightarrow> string \<Rightarrow> istream \<Rightarrow> (bool \<times> string \<times> istream) option" where
  "UnEscapeStringFromStream production delimiters i = do {
     (res, i) \<leftarrow> UnEscapeString_loop production delimiters i [];
     Some (\<not> failbit i, res, i)
   }"

function UnEscapeToQuote_loop :: "bool \<Rightarrow> istream \<Rightarrow> string \<Rightarrow> (string \<times> istream) option" where
  "UnEscapeToQuote_loop production i res =
     (case in_get i of
        (None, i) \<Rightarrow> Some (res, i)
      | (Some ch, i) \<Rightarrow>
          if ch = CHR 0x22 then Some (res, i)
          else if ch = CHR 0x5C then do {
            (_, r, i) \<leftarrow> UnEscapeCharacter production False i;
            UnEscapeToQuote_loop production i (res @ r)
          }
          else UnEscapeToQuote_loop production i (res @ [ch]))"
  by pat_completeness auto
termination
  by (relation "measure (\<lambda>(_, i, _). length (rest i))")
    (auto dest!: in_get_rest(4) [OF sym] UnEscapeCharacter_length)

definition UnEscapeStringToNextQuote :: "bool \<Rightarrow> istream \<Rightarrow> (bool \<times> string \<times> istream) option" where
  "UnEscapeStringToNextQuote production i = do {
     (res, i) \<leftarrow> UnEscapeToQuote_loop production i [];
     Some (\<not> failbit i, res, i)
   }"

definition UnEscapeQuotedStringFromStream ::
    "bool \<Rightarrow> string \<Rightarrow> istream \<Rightarrow> (bool \<times> string \<times> bool option \<times> istream) option" where
  "UnEscapeQuotedStringFromStream production fallback_delimiters i =
     (let i = SkipSpaces_in i in
      if \<not> good i then Some (False, [], None, i)
      else case in_get i of
        (None, i) \<Rightarrow> Some (False, [], None, i)
      | (Some ch, i) \<Rightarrow>
          if ch = CHR 0x22 then do {
            (_, res, i) \<leftarrow> UnEscapeStringToNextQuote production i;
            Some (\<not> failbit i, res, Some True, i)
          }
          else if fallback_delimiters \<noteq> [] then do {
            (_, res, i) \<leftarrow> UnEscapeStringFromStream production fallback_delimiters (in_unget i);
            Some (\<not> failbit i, res, Some False, i)
          }
          else Some (\<not> failbit i, [], Some True, i))"

declare UnEscapeString_loop.simps [simp del]
declare UnEscapeToQuote_loop.simps [simp del]

section \<open>Reading one escape\<close>

lemma byte_hexdigit: "h < 16 \<Longrightarrow> byte (hexdigit h) = (if h < 10 then 48 + h else 55 + h)"
  by (simp add: hexdigit_def)

lemma char_neq_byte: "byte c \<noteq> byte d \<Longrightarrow> c \<noteq> d"
  by auto

lemma hexdigit_props:
  assumes "h < 16"
  shows "digit_of (hexdigit h) = Some h" "\<not> isspace (hexdigit h)"
    "hexdigit h \<noteq> CHR ''-''" "hexdigit h \<noteq> CHR ''+''" "tolower (hexdigit h) \<noteq> CHR ''x''"
    "hexdigit h \<noteq> CHR 0x5C" "hexdigit h \<noteq> CHR 0x22"
proof -
  note b = byte_hexdigit [OF assms]
  show "digit_of (hexdigit h) = Some h" "\<not> isspace (hexdigit h)"
    using assms by (auto simp: digit_of_def isspace_def b Let_def)
  show "hexdigit h \<noteq> CHR ''-''" "hexdigit h \<noteq> CHR ''+''" "hexdigit h \<noteq> CHR 0x5C" "hexdigit h \<noteq> CHR 0x22"
    using assms by (intro char_neq_byte; simp add: b)+
  show "tolower (hexdigit h) \<noteq> CHR ''x''"
    using assms by (intro char_neq_byte) (simp add: tolower_def b)
qed

lemma is_digit_in_hexdigit: "h < base \<Longrightarrow> base \<le> 16 \<Longrightarrow> is_digit_in base (hexdigit h)"
  using hexdigit_props(1) [of h] by (simp add: is_digit_in_def)

lemma four_hex: "serial_FourDigitHex n =
    [hexdigit (n div 4096), hexdigit (n div 256 mod 16), hexdigit (n mod 256 div 16), hexdigit (n mod 16)]"
proof -
  have "n div 256 div 16 = n div 4096" by (simp add: div_mult2_eq [symmetric])
  moreover have "n mod 256 mod 16 = n mod 16" by (rule mod_mod_cancel) simp
  ultimately show ?thesis by (simp add: serial_FourDigitHex_def serial_TwoDigitHex_def)
qed

lemma UnicodeUnEscaped_hex:
  assumes "n < 65536"
  shows "UnicodeUnEscaped production (serial_FourDigitHex n) = Some n"
proof -
  have d: "n div 4096 < 16" "n div 256 mod 16 < 16" "n mod 256 div 16 < 16" "n mod 16 < 16"
    using assms by (auto simp: less_mult_imp_div_less)
  have v: "((n div 4096 * 16 + n div 256 mod 16) * 16 + n mod 256 div 16) * 16 + n mod 16 = n"
  proof -
    have a: "n div 4096 * 16 + n div 256 mod 16 = n div 256"
      using div_mult_mod_eq [of "n div 256" 16] by (simp add: div_mult2_eq [symmetric])
    have b: "n mod 256 div 16 * 16 + n mod 16 = n mod 256"
      using div_mult_mod_eq [of "n mod 256" 16] mod_mod_cancel [of 16 256 n] by simp
    have c: "(x * 16 + y) * 16 + z = x * 256 + (y * 16 + z)" for x y z :: nat by simp
    show ?thesis unfolding a c b by simp
  qed
  note h = hexdigit_props [OF d(1)] hexdigit_props [OF d(2)] hexdigit_props [OF d(3)] hexdigit_props [OF d(4)]
    is_digit_in_hexdigit [OF d(1)] is_digit_in_hexdigit [OF d(2)] is_digit_in_hexdigit [OF d(3)]
    is_digit_in_hexdigit [OF d(4)]
  have "number_in 16 (serial_FourDigitHex n) = n"
    unfolding four_hex number_in_def using v by (simp add: h)
  moreover have "takeWhile (is_digit_in 16) (serial_FourDigitHex n) = serial_FourDigitHex n"
    unfolding four_hex by (simp add: h)
  ultimately have "stoul (serial_FourDigitHex n) 16 = Some n"
    using assms h unfolding stoul_def Let_def four_hex by simp
  moreover have "strip_prefix [CHR 0x5C, CHR ''u''] (serial_FourDigitHex n) = serial_FourDigitHex n"
    unfolding four_hex strip_prefix_def using h by simp
  ultimately show ?thesis by (simp add: UnicodeUnEscaped_def)
qed

lemma three_octal:
  assumes "n < 256"
  shows "OctalEscaped n = [CHR 0x5C, hexdigit (n div 64), hexdigit (n mod 64 div 8), hexdigit (n mod 8)]"
    "n div 64 < 8" "n mod 64 div 8 < 8" "n mod 8 < 8"
proof -
  show d: "n div 64 < 8" "n mod 64 div 8 < 8" "n mod 8 < 8"
    using assms by (auto simp: less_mult_imp_div_less)
  then show "OctalEscaped n = [CHR 0x5C, hexdigit (n div 64), hexdigit (n mod 64 div 8), hexdigit (n mod 8)]"
    by (simp add: OctalEscaped_def hexdigit_def)
qed

lemma octal_digit_props:
  assumes "d < 8"
  shows "unescape_mapping (hexdigit d) = None" "hexdigit d \<noteq> CHR ''u''"
proof -
  have b: "byte (hexdigit d) = 48 + d" using assms byte_hexdigit [of d] by simp
  show "hexdigit d \<noteq> CHR ''u''" using assms by (intro char_neq_byte) (simp add: b)
  have "hexdigit d \<noteq> CHR 0x5C" "hexdigit d \<noteq> CHR 0x22" "hexdigit d \<noteq> CHR ''/''" "hexdigit d \<noteq> CHR ''b''"
    "hexdigit d \<noteq> CHR ''f''" "hexdigit d \<noteq> CHR ''n''" "hexdigit d \<noteq> CHR ''r''" "hexdigit d \<noteq> CHR ''t''"
    using assms by (intro char_neq_byte; simp add: b)+
  then show "unescape_mapping (hexdigit d) = None" by (simp add: unescape_mapping_def)
qed

lemma OctalUnEscaped_octal:
  assumes "n < 256"
  shows "OctalUnEscaped (tl (OctalEscaped n)) = n"
proof -
  note t = three_octal [OF assms]
  have h: "\<And>d :: nat. d < 8 \<Longrightarrow> d < 16" by simp
  note p = hexdigit_props [OF h [OF t(2)]] hexdigit_props [OF h [OF t(3)]] hexdigit_props [OF h [OF t(4)]]
    is_digit_in_hexdigit [OF t(2)] is_digit_in_hexdigit [OF t(3)] is_digit_in_hexdigit [OF t(4)]
  have "n mod 64 div 8 * 8 + n mod 8 = n mod 64"
    using div_mult_mod_eq [of "n mod 64" 8] mod_mod_cancel [of 8 64 n] by simp
  then have b: "n mod 64 div 8 * 8 + n mod 8 = n mod 64" .
  have c: "(x * 8 + y) * 8 + z = x * 64 + (y * 8 + z)" for x y z :: nat by simp
  have v: "(n div 64 * 8 + n mod 64 div 8) * 8 + n mod 8 = n" unfolding c b by simp
  have "stoul (tl (OctalEscaped n)) 8 = Some n"
    using assms v p unfolding stoul_def Let_def t(1) by (simp add: number_in_def)
  moreover have "strip_prefix [CHR 0x5C] (tl (OctalEscaped n)) = tl (OctalEscaped n)"
    using p unfolding t(1) strip_prefix_def by simp
  ultimately show ?thesis by (simp add: OctalUnEscaped_def)
qed

lemma json_unescape_unicode:
  assumes "n < 65536"
  shows "UnEscapeCharacter production False (at_rest p (CHR ''u'' # serial_FourDigitHex n @ r)) =
    Some (True, the (DecodeMultiByteUTf8CodePoint n), at_rest (rev (CHR ''u'' # serial_FourDigitHex n) @ p) r)"
proof -
  have l: "length (serial_FourDigitHex n) = 4" by (simp add: four_hex)
  have "DecodeMultiByteUTf8CodePoint n \<noteq> None" using assms by (simp add: DecodeMultiByteUTf8CodePoint_def)
  then obtain b where "DecodeMultiByteUTf8CodePoint n = Some b" by auto
  then show ?thesis
    using in_read_at_rest [OF l]
    by (simp add: UnEscapeCharacter_def unescape_after_slash_def unescape_mapping_def UnicodeUnEscaped_hex [OF assms])
qed

lemma json_unescape_octal:
  assumes "n < 256"
  shows "UnEscapeCharacter production False (at_rest p (tl (OctalEscaped n) @ r)) =
    Some (True, [char_of n], at_rest (rev (tl (OctalEscaped n)) @ p) r)"
proof -
  note t = three_octal [OF assms]
  let ?a = "hexdigit (n div 64)" and ?b = "hexdigit (n mod 64 div 8)" and ?c = "hexdigit (n mod 8)"
  have "in_read 2 (at_rest (?a # p) (?b # ?c # r)) = ([?b, ?c], at_rest (?c # ?b # ?a # p) r)"
    using in_read_at_rest [of "[?b, ?c]" 2] by simp
  then show ?thesis
    using OctalUnEscaped_octal [OF assms] octal_digit_props [OF t(2)] assms
    by (simp add: UnEscapeCharacter_def unescape_after_slash_def t(1))
qed

section \<open>Reading back what was written\<close>

lemma to_quote_plain:
  "c \<noteq> CHR 0x22 \<Longrightarrow> c \<noteq> CHR 0x5C \<Longrightarrow>
   UnEscapeToQuote_loop production (at_rest p (c # r)) res = UnEscapeToQuote_loop production (at_rest (c # p) r) (res @ [c])"
  by (subst UnEscapeToQuote_loop.simps) simp

lemma to_quote_escape:
  "UnEscapeCharacter production False (at_rest (CHR 0x5C # p) (e @ r)) = Some (b, out, at_rest (rev e @ CHR 0x5C # p) r) \<Longrightarrow>
   UnEscapeToQuote_loop production (at_rest p (CHR 0x5C # e @ r)) res =
   UnEscapeToQuote_loop production (at_rest (rev (CHR 0x5C # e) @ p) r) (res @ out)"
  by (subst UnEscapeToQuote_loop.simps) simp

lemma unescape_mapped:
  assumes "unescape_mapping e = Some c"
  shows "UnEscapeCharacter production False (at_rest p ([e] @ r)) = Some (True, [c], at_rest (rev [e] @ p) r)"
  using assms by (simp add: UnEscapeCharacter_def unescape_after_slash_def)

lemma to_quote_unicode:
  assumes "n < 65536" "n \<notin> {145..148}" "DecodeMultiByteUTf8CodePoint n = Some b"
  shows "UnEscapeToQuote_loop production (at_rest p (serial_UnicodeEscaped n @ r)) res =
    UnEscapeToQuote_loop production (at_rest (rev (serial_UnicodeEscaped n) @ p) r) (res @ b)"
proof -
  have e: "serial_UnicodeEscaped n = CHR 0x5C # CHR ''u'' # serial_FourDigitHex n"
    using assms(1,2) by (auto simp: serial_UnicodeEscaped_def)
  have "UnEscapeToQuote_loop production (at_rest p (CHR 0x5C # (CHR ''u'' # serial_FourDigitHex n) @ r)) res =
      UnEscapeToQuote_loop production (at_rest (rev (CHR 0x5C # CHR ''u'' # serial_FourDigitHex n) @ p) r) (res @ b)"
    by (rule to_quote_escape) (use json_unescape_unicode [OF assms(1)] assms(3) in simp)
  then show ?thesis by (simp add: e)
qed

lemma Escape_mapped:
  assumes "byte c < 32" "char_mapping c \<noteq> []"
  shows "\<exists>e. char_mapping c = [CHR 0x5C, e] \<and> unescape_mapping e = Some c"
  using assms(2) by (auto simp: char_mapping_def unescape_mapping_def split: if_splits)

lemma to_quote_char:
  assumes "json \<longrightarrow> byte c < 128"
  shows "UnEscapeToQuote_loop production (at_rest p (EscapeCharacter json c @ r)) res =
    UnEscapeToQuote_loop production (at_rest (rev (EscapeCharacter json c) @ p) r) (res @ [c])"
proof (cases "byte c < 32")
  case low: True
  show ?thesis
  proof (cases "char_mapping c = []")
    case False
    then obtain e where "char_mapping c = [CHR 0x5C, e]" "unescape_mapping e = Some c" using Escape_mapped [OF low] by blast
    then show ?thesis
      using to_quote_escape [OF unescape_mapped, where p = p and r = r and res = res] low by (simp add: EscapeCharacter_def)
  next
    case True
    show ?thesis
    proof (cases json)
      case json: True
      have "EscapeCharacter json c = serial_UnicodeEscaped (byte c)" using True low json by (simp add: EscapeCharacter_def)
      moreover have "DecodeMultiByteUTf8CodePoint (byte c) = Some [c]"
        using low by (simp add: DecodeMultiByteUTf8CodePoint_def)
      ultimately show ?thesis using to_quote_unicode [of "byte c" "[c]"] low by simp
    next
      case False
      have e: "EscapeCharacter json c = OctalEscaped (byte c)" using True low False by (simp add: EscapeCharacter_def)
      have o: "OctalEscaped (byte c) = CHR 0x5C # tl (OctalEscaped (byte c))" by (simp add: OctalEscaped_def)
      have "UnEscapeToQuote_loop production (at_rest p (CHR 0x5C # tl (OctalEscaped (byte c)) @ r)) res =
          UnEscapeToQuote_loop production (at_rest (rev (CHR 0x5C # tl (OctalEscaped (byte c))) @ p) r) (res @ [c])"
        by (rule to_quote_escape) (use json_unescape_octal [OF byte_less [of c]] in simp)
      then show ?thesis unfolding e using o by (metis append_Cons)
    qed
  qed
next
  case False
  show ?thesis
  proof (cases "c = CHR 0x22 \<or> c = CHR 0x5C")
    case True
    have "UnEscapeToQuote_loop production (at_rest p (CHR 0x5C # [c] @ r)) res =
        UnEscapeToQuote_loop production (at_rest (rev (CHR 0x5C # [c]) @ p) r) (res @ [c])"
      by (rule to_quote_escape, rule unescape_mapped) (use True in \<open>auto simp: unescape_mapping_def\<close>)
    then show ?thesis using False True by (auto simp: EscapeCharacter_def)
  next
    case plain: False
    then show ?thesis using False to_quote_plain [where p = p and r = r and res = res] by (simp add: EscapeCharacter_def)
  qed
qed

lemma to_quote_C_text:
  "UnEscapeToQuote_loop production (at_rest p (EscapeString_loop False s @ CHR 0x22 # r)) res =
   Some (res @ s, at_rest (CHR 0x22 # rev (EscapeString_loop False s) @ p) r)"
proof (induction s arbitrary: p res)
  case Nil
  then show ?case by (subst UnEscapeToQuote_loop.simps) simp
next
  case (Cons c s)
  then show ?case
    using to_quote_char [where json = False and c = c and p = p and res = res] by simp
qed

text \<open>The UTF-8 form of a character of the basic plane and its JSON escape.\<close>

definition utf8 :: "nat \<Rightarrow> string" where
  "utf8 n = the (DecodeMultiByteUTf8CodePoint n)"

definition json_char :: "nat \<Rightarrow> string" where
  "json_char n = (if n < 128 then EscapeCharacter True (char_of n) else serial_UnicodeEscaped n)"

lemma utf8_mods:
  "x < 32 \<Longrightarrow> (192 + x) mod 32 = x" "y < 64 \<Longrightarrow> (128 + y) mod 64 = y" "z < 16 \<Longrightarrow> (224 + z) mod 16 = z"
  for x y z :: nat
  using mod_mult_self1 [of x 6 32] mod_mult_self1 [of y 2 64] mod_mult_self1 [of z 14 16] by (simp_all add: add.commute)

lemma EncodeMultiByte_utf8:
  assumes "128 \<le> n" "n < 65536"
  shows "EncodeMultiByteUTF8Char (utf8 n @ r) = (serial_UnicodeEscaped n, length (utf8 n))"
proof (cases "n < 2048")
  case True
  have d: "n div 64 < 32" using True by (simp add: less_mult_imp_div_less)
  have u: "utf8 n = [char_of (192 + n div 64), char_of (128 + n mod 64)]"
    using True assms by (simp add: utf8_def DecodeMultiByteUTf8CodePoint_def)
  have b: "byte (char_of (192 + n div 64)) = 192 + n div 64" "byte (char_of (128 + n mod 64)) = 128 + n mod 64"
    using d by (simp_all del: of_char_of)
  have m: "n mod 64 < 64" "\<not> 64 \<le> n mod 64" by simp_all
  have "EncodeMultiByte_loop (utf8 n @ r) [] 0 0 0 = ([], n, 2)"
    unfolding u using d m by (simp add: Let_def b utf8_mods del: of_char_of)
  then show ?thesis using True assms by (simp add: EncodeMultiByteUTF8Char_def u)
next
  case False
  have d: "n div 4096 < 16" using assms by (simp add: less_mult_imp_div_less)
  have e: "n div 4096 * 64 + n div 64 mod 64 = n div 64"
    using div_mult_mod_eq [of "n div 64" 64] by (simp add: div_mult2_eq [symmetric])
  have u: "utf8 n = [char_of (224 + n div 4096), char_of (128 + n div 64 mod 64), char_of (128 + n mod 64)]"
    using False assms by (simp add: utf8_def DecodeMultiByteUTf8CodePoint_def)
  have b: "byte (char_of (224 + n div 4096)) = 224 + n div 4096"
    "byte (char_of (128 + n div 64 mod 64)) = 128 + n div 64 mod 64" "byte (char_of (128 + n mod 64)) = 128 + n mod 64"
    using d by (simp_all del: of_char_of)
  have m: "n div 64 mod 64 < 64" "n mod 64 < 64" "\<not> 64 \<le> n mod 64" "\<not> 64 \<le> n div 64 mod 64" by simp_all
  have "EncodeMultiByte_loop (utf8 n @ r) [] 0 0 0 = ([], n, 3)"
    unfolding u using d m e by (simp add: Let_def b utf8_mods del: of_char_of)
  then show ?thesis using False assms by (simp add: EncodeMultiByteUTF8Char_def u)
qed

lemma utf8_ascii: "n < 128 \<Longrightarrow> utf8 n = [char_of n]"
  by (simp add: utf8_def DecodeMultiByteUTf8CodePoint_def)

lemma utf8_lead:
  assumes "128 \<le> n" "n < 65536"
  obtains c t where "utf8 n = c # t" "128 \<le> byte c"
proof (cases "n < 2048")
  case True
  have "n div 64 < 64" using True by (simp add: less_mult_imp_div_less)
  then have "byte (char_of (192 + n div 64)) = 192 + n div 64" by (simp del: of_char_of)
  then show thesis using that True assms by (auto simp: utf8_def DecodeMultiByteUTf8CodePoint_def)
next
  case False
  have "n div 4096 < 16" using assms by (simp add: less_mult_imp_div_less)
  then have "byte (char_of (224 + n div 4096)) = 224 + n div 4096" by (simp del: of_char_of)
  then show thesis using that False assms by (auto simp: utf8_def DecodeMultiByteUTf8CodePoint_def)
qed

lemma EscapeString_utf8:
  assumes "n < 65536"
  shows "EscapeString_loop True (utf8 n @ s) = json_char n @ EscapeString_loop True s"
proof (cases "n < 128")
  case True
  then have "byte (char_of n) = n" by (simp del: of_char_of)
  then show ?thesis using True by (simp add: utf8_ascii json_char_def)
next
  case False
  then obtain c t where u: "utf8 n = c # t" "128 \<le> byte c" using utf8_lead [of n] assms by auto
  have "EncodeMultiByteUTF8Char (c # t @ s) = (serial_UnicodeEscaped n, Suc (length t))"
    using EncodeMultiByte_utf8 [of n s] False assms u(1) by simp
  then show ?thesis using False u by (simp add: json_char_def)
qed

lemma to_quote_json_char:
  assumes "n < 65536" "n \<notin> {145..148}"
  shows "UnEscapeToQuote_loop production (at_rest p (json_char n @ r)) res =
    UnEscapeToQuote_loop production (at_rest (rev (json_char n) @ p) r) (res @ utf8 n)"
proof (cases "n < 128")
  case True
  then have "byte (char_of n) = n" by (simp del: of_char_of)
  then show ?thesis using True to_quote_char [of True "char_of n"] by (simp add: json_char_def utf8_ascii)
next
  case False
  have "DecodeMultiByteUTf8CodePoint n \<noteq> None" using assms(1) by (simp add: DecodeMultiByteUTf8CodePoint_def)
  then have "DecodeMultiByteUTf8CodePoint n = Some (utf8 n)" by (auto simp: utf8_def)
  then show ?thesis using False to_quote_unicode [OF assms] by (simp add: json_char_def)
qed

lemma to_quote_json_text:
  assumes "\<forall>n \<in> set ns. n < 65536 \<and> n \<notin> {145..148}"
  shows "UnEscapeToQuote_loop production (at_rest p (EscapeString_loop True (concat (map utf8 ns)) @ CHR 0x22 # r)) res =
   Some (res @ concat (map utf8 ns), at_rest (CHR 0x22 # rev (EscapeString_loop True (concat (map utf8 ns))) @ p) r)"
  using assms
proof (induction ns arbitrary: p res)
  case Nil
  then show ?case by (subst UnEscapeToQuote_loop.simps) simp
next
  case (Cons n ns)
  then show ?case
    using to_quote_json_char [where n = n and p = p and res = res] EscapeString_utf8 [of n] by simp
qed

section \<open>Skipping what was written\<close>

inductive esc_text :: "string \<Rightarrow> bool" where
  nil: "esc_text []"
| plain: "c \<noteq> CHR 0x22 \<Longrightarrow> c \<noteq> CHR 0x5C \<Longrightarrow> esc_text t \<Longrightarrow> esc_text (c # t)"
| slash: "esc_text t \<Longrightarrow> esc_text (CHR 0x5C # c # t)"

lemma esc_text_append: "esc_text s \<Longrightarrow> esc_text t \<Longrightarrow> esc_text (s @ t)"
  by (induction rule: esc_text.induct) (auto intro: esc_text.intros)

lemma esc_text_unicode: "esc_text (serial_UnicodeEscaped n)"
proof -
  have "esc_text (serial_FourDigitHex m)" if "m < 65536" for m
  proof -
    have d: "m div 4096 < 16" "m div 256 mod 16 < 16" "m mod 256 div 16 < 16" "m mod 16 < 16"
      using that by (auto simp: less_mult_imp_div_less)
    note h = hexdigit_props [OF d(1)] hexdigit_props [OF d(2)] hexdigit_props [OF d(3)] hexdigit_props [OF d(4)]
    show ?thesis unfolding four_hex by (intro esc_text.intros h)
  qed
  then show ?thesis by (auto simp: serial_UnicodeEscaped_def Let_def intro!: esc_text.slash)
qed

lemma esc_text_concat: "(\<forall>s \<in> set ss. esc_text s) \<Longrightarrow> esc_text (concat ss)"
  by (induction ss) (auto intro: esc_text.nil esc_text_append)

lemma esc_text_EncodeMultiByte: "esc_text (fst (EncodeMultiByteUTF8Char s))"
  by (auto simp: EncodeMultiByteUTF8Char_def JSONEncode8Bit_def Let_def esc_text_unicode split: prod.splits
      intro!: esc_text_append esc_text_concat esc_text.nil)

lemma esc_text_EscapeCharacter: "esc_text (EscapeCharacter json c)"
proof -
  have "esc_text (OctalEscaped n)" if "n < 256" for n
  proof -
    note t = three_octal [OF that]
    have h: "\<And>d :: nat. d < 8 \<Longrightarrow> d < 16" by simp
    note p = hexdigit_props [OF h [OF t(3)]] hexdigit_props [OF h [OF t(4)]]
    show ?thesis unfolding t(1) by (intro esc_text.intros p)
  qed
  moreover have "esc_text (char_mapping c)" by (auto simp: char_mapping_def intro: esc_text.intros)
  ultimately show ?thesis
    by (auto simp: EscapeCharacter_def esc_text_unicode intro: esc_text.intros)
qed

lemma esc_text_EscapeString: "esc_text (EscapeString_loop json s)"
proof (induction json s rule: EscapeString_loop.induct)
  case (1 json)
  show ?case by (simp add: esc_text.nil)
next
  case (2 json c s)
  show ?case
  proof (cases "128 \<le> byte c \<and> json")
    case True
    obtain res n where e: "EncodeMultiByteUTF8Char (c # s) = (res, n)" by (cases "EncodeMultiByteUTF8Char (c # s)")
    have "esc_text res" using esc_text_EncodeMultiByte [of "c # s"] e by simp
    moreover have "esc_text (EscapeString_loop json (drop (n - 1) s))" using 2(1) True e by simp
    ultimately show ?thesis using True e by (simp add: esc_text_append)
  next
    case False
    then show ?thesis using 2(2) by (auto intro: esc_text_append esc_text_EscapeCharacter)
  qed
qed

lemma SkipDelimited_esc_text:
  "esc_text t \<Longrightarrow> SkipDelimited_loop [CHR 0x22] True 0 (at_rest p (t @ CHR 0x22 # r)) = at_rest (rev t @ p) (CHR 0x22 # r)"
proof (induction arbitrary: p rule: esc_text.induct)
  case nil
  then show ?case by (subst SkipDelimited_loop.simps) simp
next
  case (plain c t)
  then show ?case by (subst SkipDelimited_loop.simps) simp
next
  case (slash t c)
  have "SkipDelimited_loop [CHR 0x22] True 0 (at_rest p (CHR 0x5C # c # t @ CHR 0x22 # r)) =
      SkipDelimited_loop [CHR 0x22] True 1 (at_rest (CHR 0x5C # p) (c # t @ CHR 0x22 # r))"
    by (subst SkipDelimited_loop.simps) simp
  also have "\<dots> = SkipDelimited_loop [CHR 0x22] True 0 (at_rest (c # CHR 0x5C # p) (t @ CHR 0x22 # r))"
    by (subst SkipDelimited_loop.simps) simp
  finally show ?case using slash.IH [of "c # CHR 0x5C # p"] by simp
qed

section \<open>Properties\<close>

lemma quote_not_spacelike: "\<not> spacelike (CHR 0x22)"
  by (simp add: spacelike_def)

lemma at_rest_stream_of: "stream_of s = at_rest [] s"
  by (simp add: stream_of_def)

text \<open>
  C25. Quoted strings survive writing and reading, behind blanks and in front of anything: every byte
  string in C style, and in JSON style every text in the UTF-8 form of characters of the basic plane
  other than U+0091 to U+0094. The reader stops right behind the closing quote and reports that the
  string was quoted.
\<close>

theorem serial_string_roundtrip:
  assumes "\<forall>c \<in> set w. spacelike c" "\<forall>n \<in> set ns. n < 65536 \<and> n \<notin> {145..148}"
  shows "UnEscapeQuotedStringFromStream production fallback (stream_of (w @ EscapeStringToStream False s @ r)) =
      Some (True, s, Some True, at_rest (rev (w @ EscapeStringToStream False s)) r) \<and>
    UnEscapeQuotedStringFromStream production fallback
        (stream_of (w @ EscapeStringToStream True (concat (map utf8 ns)) @ r)) =
      Some (True, concat (map utf8 ns), Some True,
        at_rest (rev (w @ EscapeStringToStream True (concat (map utf8 ns)))) r)"
  using SkipSpaces_at_rest [OF assms(1) quote_not_spacelike] to_quote_C_text to_quote_json_text [OF assms(2)]
  by (simp add: at_rest_stream_of UnEscapeQuotedStringFromStream_def EscapeStringToStream_def
      UnEscapeStringToNextQuote_def)

theorem serial_string_roundtrip_witness:
  "UnEscapeQuotedStringFromStream False [] (stream_of ('' '' @ EscapeStringToStream True (concat (map utf8 [233, 10])) @ ''x'')) =
     Some (True, concat (map utf8 [233, 10]), Some True,
       at_rest (rev ('' '' @ EscapeStringToStream True (concat (map utf8 [233, 10])))) ''x'')"
  using serial_string_roundtrip [of "'' ''" "[233, 10]" False "[]" "[]" "''x''"] by (simp add: spacelike_def)

text \<open>
  Skipping agrees with reading: over any written string, in either style and whatever its bytes,
  \<open>SkipQuotedString\<close> stops right behind the closing quote.
\<close>

theorem serial_skip_agrees:
  assumes "\<forall>c \<in> set w. spacelike c"
  shows "SkipQuotedString fallback skip_escaped (stream_of (w @ EscapeStringToStream json s @ r)) =
    at_rest (rev (w @ EscapeStringToStream json s)) r"
  using SkipSpaces_at_rest [OF assms quote_not_spacelike] SkipDelimited_esc_text [OF esc_text_EscapeString]
  by (simp add: at_rest_stream_of SkipQuotedString_def EscapeStringToStream_def SkipDelimitedString_def)

theorem serial_skip_agrees_witness:
  "SkipQuotedString [] False (stream_of ('' '' @ EscapeStringToStream True [CHR 0x22, CHR 0x5C] @ ''x'')) =
    at_rest (rev ('' '' @ EscapeStringToStream True [CHR 0x22, CHR 0x5C])) ''x''"
  using serial_skip_agrees [of "'' ''"] by (simp add: spacelike_def)

text \<open>
  Reading an unquoted token skips its leading bytes from 128 on as if they were blanks, since
  \<open>SkipSpaces\<close> compares a signed \<open>char\<close> with a blank: of an e-acute, a t and a blank only the t is
  read, and a token of such bytes only is reported as a failure.
\<close>

theorem serial_unquoted_drops_bytes:
  "UnEscapeQuotedStringFromStream production '' '' (stream_of (utf8 233 @ ''t '')) =
     Some (True, ''t'', Some False, at_rest (CHR ''t'' # rev (utf8 233)) '' '') \<and>
   map_option fst (UnEscapeQuotedStringFromStream production '' '' (stream_of (utf8 233))) = Some False"
proof -
  have u: "utf8 233 = [char_of (195 :: nat), char_of (169 :: nat)]"
    by (simp add: utf8_def DecodeMultiByteUTf8CodePoint_def)
  have sp: "\<forall>c \<in> set (utf8 233). spacelike c"
    unfolding u by (simp add: spacelike_def)
  have "\<not> spacelike (CHR ''t'')" by (simp add: spacelike_def)
  then have "SkipSpaces_in (at_rest [] (utf8 233 @ CHR ''t'' # '' '')) = at_rest (rev (utf8 233)) ''t ''"
    using SkipSpaces_at_rest [OF sp, where c = "CHR ''t''" and p = "[]" and r = "'' ''"] by simp
  moreover have "UnEscapeString_loop production '' '' (at_rest p ''t '') [] = Some (''t'', at_rest (CHR ''t'' # p) '' '')" for p
    by (subst UnEscapeString_loop.simps, subst UnEscapeString_loop.simps) simp
  ultimately have "UnEscapeQuotedStringFromStream production '' '' (stream_of (utf8 233 @ ''t '')) =
     Some (True, ''t'', Some False, at_rest (CHR ''t'' # rev (utf8 233)) '' '')"
    by (simp add: UnEscapeQuotedStringFromStream_def at_rest_stream_of UnEscapeStringFromStream_def)
  moreover have "\<not> good (SkipSpaces_in (at_rest [] (utf8 233)))"
    using SkipSpaces_all [OF sp, of "[]"] by (simp add: good_def)
  then have "map_option fst (UnEscapeQuotedStringFromStream production '' '' (stream_of (utf8 233))) = Some False"
    by (simp add: UnEscapeQuotedStringFromStream_def at_rest_stream_of)
  ultimately show ?thesis by blast
qed

end
