(* ===== verification/LRUCache.thy ===== *)
theory LRUCache
  imports Prelude "HOL-Library.AList"
begin

text \<open>
  \<open>util/cache/shared_lru_cache.h\<close>: a map of bounded size that drops the entry used longest ago. The
  entries are shared objects (\<open>shared_ptr<pair<K, V>>\<close>): they live in a heap of cells, and the list, the
  map, iterators and delegates refer to them by address. The list is doubly linked; an iterator into it is the
  identity of a node, and no two nodes of any list have the same. Erasing a node that is not in the list, or
  reading through an iterator to it, is undefined in C++ and \<open>None\<close> here. Times of the steady clock are
  integers, 0 for the default time point; \<open>now\<close> is a parameter. Every operation holds the lock of its cache
  throughout, so it is one step. The temporary objects that carry a key into a lookup are not kept in the heap.
  Hash functions do not matter to the result and are left out, as is the order of the unordered map.
\<close>

section \<open>State\<close>

record ('k, 'v) lru_heap =
  cells :: "('k \<times> 'v) list"
  next_node :: nat

type_synonym lru_entry = "nat \<times> nat \<times> int"

record 'k lru =
  max_size :: nat
  lru_map :: "('k \<times> nat \<times> nat) list"
  lru_list :: "lru_entry list"
  expire :: bool
  lifetime :: int

definition SharedLRUCache :: "nat \<Rightarrow> 'k lru" where
  "SharedLRUCache limit = \<lparr>max_size = limit, lru_map = [], lru_list = [], expire = False, lifetime = 0\<rparr>"

definition SharedLRUCache_expiring :: "nat \<Rightarrow> int \<Rightarrow> 'k lru" where
  "SharedLRUCache_expiring limit life = \<lparr>max_size = limit, lru_map = [], lru_list = [], expire = True, lifetime = life\<rparr>"

text \<open>The copy constructor: the list is copied node by node, the map with the iterators it holds.\<close>

definition lru_copy :: "('k, 'v) lru_heap \<Rightarrow> 'k lru \<Rightarrow> ('k, 'v) lru_heap \<times> 'k lru" where
  "lru_copy h c =
     (h\<lparr>next_node := next_node h + length (lru_list c)\<rparr>,
      \<lparr>max_size = max_size c, lru_map = lru_map c,
       lru_list = zip [next_node h ..< next_node h + length (lru_list c)] (List.map snd (lru_list c)),
       expire = expire c, lifetime = lifetime c\<rparr>)"

section \<open>Operations\<close>

text \<open>\<open>list_.erase\<close> of an iterator.\<close>

definition erase_node :: "nat \<Rightarrow> lru_entry list \<Rightarrow> lru_entry list option" where
  "erase_node n xs = do {
     ASSERT (n \<in> fst ` set xs);
     Some (filter (\<lambda>e. fst e \<noteq> n) xs)
   }"

definition oversize :: "'k lru \<Rightarrow> bool" where
  "oversize c \<longleftrightarrow> max_size c < length (lru_map c)"

definition key_of :: "('k, 'v) lru_heap \<Rightarrow> lru_entry \<Rightarrow> 'k" where
  "key_of h e = fst (cells h ! fst (snd e))"

function lru_evict :: "('k, 'v) lru_heap \<Rightarrow> 'k lru \<Rightarrow> 'k lru option" where
  "lru_evict h c =
     (if oversize c then
        if lru_list c = [] then None
        else lru_evict h (c\<lparr>lru_map := AList.delete (key_of h (last (lru_list c))) (lru_map c), lru_list := butlast (lru_list c)\<rparr>)
      else Some c)"
  by pat_completeness auto

termination by (relation "measure (\<lambda>(h, c). length (lru_list c))") auto

declare lru_evict.simps [simp del]

definition lru_unlink :: "'k \<Rightarrow> nat \<Rightarrow> 'k lru \<Rightarrow> 'k lru option" where
  "lru_unlink k n c = do {
     xs \<leftarrow> erase_node n (lru_list c);
     Some (c\<lparr>lru_list := xs, lru_map := AList.delete k (lru_map c)\<rparr>)
   }"

definition lru_insert_at :: "'k \<times> 'v \<Rightarrow> int \<Rightarrow> ('k, 'v) lru_heap \<Rightarrow> 'k lru \<Rightarrow> (('k, 'v) lru_heap \<times> 'k lru) option" where
  "lru_insert_at v tp h c = do {
     let data = length (cells h);
     let h = h\<lparr>cells := cells h @ [v]\<rparr>;
     c \<leftarrow> (case map_of (lru_map c) (fst v) of
             Some (_, n) \<Rightarrow> lru_unlink (fst v) n c
           | None \<Rightarrow> Some c);
     let n = next_node h;
     let h = h\<lparr>next_node := n + 1\<rparr>;
     let c = c\<lparr>lru_list := (n, data, tp) # lru_list c, lru_map := (fst v, data, n) # lru_map c\<rparr>;
     c \<leftarrow> lru_evict h c;
     Some (h, c)
   }"

definition lru_insert :: "'k \<times> 'v \<Rightarrow> int \<Rightarrow> ('k, 'v) lru_heap \<Rightarrow> 'k lru \<Rightarrow> (('k, 'v) lru_heap \<times> 'k lru) option" where
  "lru_insert v now h c = lru_insert_at v (if expire c then now + lifetime c else 0) h c"

definition lru_erase :: "'k \<Rightarrow> 'k lru \<Rightarrow> (nat \<times> 'k lru) option" where
  "lru_erase k c =
     (case map_of (lru_map c) k of
        None \<Rightarrow> Some (0, c)
      | Some (_, n) \<Rightarrow> do { c \<leftarrow> lru_unlink k n c; Some (1, c) })"

text \<open>An iterator is the address of an entry, or \<open>None\<close> for \<open>end()\<close>.\<close>

definition lru_find :: "'k \<Rightarrow> int \<Rightarrow> ('k, 'v) lru_heap \<Rightarrow> 'k lru \<Rightarrow> (nat option \<times> ('k, 'v) lru_heap \<times> 'k lru) option" where
  "lru_find k now h c =
     (case map_of (lru_map c) k of
        None \<Rightarrow> Some (None, h, c)
      | Some (a, n) \<Rightarrow> do {
          (data, tp) \<leftarrow> map_of (lru_list c) n;
          if expire c \<and> tp < now then do {
            c \<leftarrow> lru_unlink k n c;
            Some (None, h, c)
          }
          else do {
            let m = next_node h;
            let h = h\<lparr>next_node := m + 1\<rparr>;
            xs \<leftarrow> erase_node n ((m, data, tp) # lru_list c);
            Some (Some a, h, c\<lparr>lru_list := xs, lru_map := (k, a, m) # AList.delete k (lru_map c)\<rparr>)
          }
        })"

definition lru_erase_iterator :: "nat option \<Rightarrow> ('k, 'v) lru_heap \<Rightarrow> 'k lru \<Rightarrow> 'k lru option" where
  "lru_erase_iterator it h c = do {
     a \<leftarrow> it;
     (_, c) \<leftarrow> lru_erase (fst (cells h ! a)) c;
     Some c
   }"

definition lru_clear :: "'k lru \<Rightarrow> 'k lru" where
  "lru_clear c = c\<lparr>lru_map := [], lru_list := []\<rparr>"

definition lru_empty :: "'k lru \<Rightarrow> bool" where
  "lru_empty c \<longleftrightarrow> lru_map c = []"

definition lru_size :: "'k lru \<Rightarrow> nat" where
  "lru_size c = length (lru_map c)"

text \<open>
  \<open>operator[]\<close> gives a delegate, which is the address of the entry, or of a new one that is not in
  the cache. Reading it is reading the entry; assigning to it changes the entry in place and inserts a copy.
\<close>

definition lru_subscript :: "'v \<Rightarrow> 'k \<Rightarrow> int \<Rightarrow> ('k, 'v) lru_heap \<Rightarrow> 'k lru \<Rightarrow> (nat \<times> ('k, 'v) lru_heap \<times> 'k lru) option" where
  "lru_subscript default_value k now h c = do {
     (data, h, c) \<leftarrow> lru_find k now h c;
     case data of
       Some a \<Rightarrow> Some (a, h, c)
     | None \<Rightarrow> Some (length (cells h), h\<lparr>cells := cells h @ [(k, default_value)]\<rparr>, c)
   }"

definition delegate_get :: "nat \<Rightarrow> ('k, 'v) lru_heap \<Rightarrow> 'v" where
  "delegate_get a h = snd (cells h ! a)"

definition delegate_set :: "nat \<Rightarrow> 'v \<Rightarrow> int \<Rightarrow> ('k, 'v) lru_heap \<Rightarrow> 'k lru \<Rightarrow> (('k, 'v) lru_heap \<times> 'k lru) option" where
  "delegate_set a v now h c =
     (let h = h\<lparr>cells := (cells h)[a := (fst (cells h ! a), v)]\<rparr> in lru_insert (cells h ! a) now h c)"

section \<open>The abstract cache\<close>

text \<open>
  A list of entries with their keys, the most recently used first. The concrete cache represents it when
  the map is exactly the index of the list.
\<close>

type_synonym ('k, 'v) recency = "(('k \<times> 'v) \<times> int) list"

definition without :: "'k \<Rightarrow> ('k, 'v) recency \<Rightarrow> ('k, 'v) recency" where
  "without k xs = filter (\<lambda>e. fst (fst e) \<noteq> k) xs"

definition entry_of :: "'k \<Rightarrow> ('k, 'v) recency \<Rightarrow> (('k \<times> 'v) \<times> int) option" where
  "entry_of k xs = List.find (\<lambda>e. fst (fst e) = k) xs"

definition recency_insert :: "nat \<Rightarrow> 'k \<times> 'v \<Rightarrow> int \<Rightarrow> ('k, 'v) recency \<Rightarrow> ('k, 'v) recency" where
  "recency_insert limit v tp xs = take limit ((v, tp) # without (fst v) xs)"

definition recency_find :: "bool \<Rightarrow> 'k \<Rightarrow> int \<Rightarrow> ('k, 'v) recency \<Rightarrow> ('k \<times> 'v) option \<times> ('k, 'v) recency" where
  "recency_find expiring k now xs =
     (case entry_of k xs of
        None \<Rightarrow> (None, xs)
      | Some (v, tp) \<Rightarrow> if expiring \<and> tp < now then (None, without k xs) else (Some v, (v, tp) # without k xs))"

definition contents :: "('k, 'v) lru_heap \<Rightarrow> 'k lru \<Rightarrow> ('k, 'v) recency" where
  "contents h c = List.map (\<lambda>(n, a, tp). (cells h ! a, tp)) (lru_list c)"

definition link :: "('k, 'v) lru_heap \<Rightarrow> lru_entry \<Rightarrow> 'k \<times> nat \<times> nat" where
  "link h e = (key_of h e, fst (snd e), fst e)"

definition linked :: "('k, 'v) lru_heap \<Rightarrow> 'k lru \<Rightarrow> bool" where
  "linked h c \<longleftrightarrow> distinct (List.map fst (lru_list c)) \<and> distinct (List.map (key_of h) (lru_list c)) \<and>
     mset (lru_map c) = mset (List.map (link h) (lru_list c)) \<and>
     (\<forall>e \<in> set (lru_list c). fst e < next_node h \<and> fst (snd e) < length (cells h))"

definition lru_ok :: "('k, 'v) lru_heap \<Rightarrow> 'k lru \<Rightarrow> bool" where
  "lru_ok h c \<longleftrightarrow> linked h c \<and> length (lru_list c) \<le> max_size c"

lemma linked_size: "linked h c \<Longrightarrow> length (lru_map c) = length (lru_list c)"
  unfolding linked_def by (metis length_map size_mset)

lemma linked_distinct_keys:
  assumes "linked h c" shows "distinct (List.map fst (lru_map c))"
proof -
  have "mset (List.map fst (lru_map c)) = image_mset fst (mset (List.map (link h) (lru_list c)))"
    using assms by (simp add: linked_def)
  also have "\<dots> = mset (List.map (key_of h) (lru_list c))" by (simp add: multiset.map_comp comp_def link_def)
  finally have "mset (List.map fst (lru_map c)) = mset (List.map (key_of h) (lru_list c))" .
  then show ?thesis using assms mset_eq_imp_distinct_iff unfolding linked_def by blast
qed

lemma linked_set: "linked h c \<Longrightarrow> set (lru_map c) = link h ` set (lru_list c)"
  unfolding linked_def by (metis list.set_map set_mset_mset)

lemma linked_lookup:
  assumes "linked h c"
  shows "map_of (lru_map c) k = Some (a, n) \<longleftrightarrow> (\<exists>tp. (n, a, tp) \<in> set (lru_list c) \<and> fst (cells h ! a) = k)"
proof -
  have "map_of (lru_map c) k = Some (a, n) \<longleftrightarrow> (k, a, n) \<in> set (lru_map c)"
    using map_of_eq_Some_iff [OF linked_distinct_keys [OF assms]] .
  then show ?thesis unfolding linked_set [OF assms] by (force simp: link_def key_of_def)
qed

lemma linked_miss:
  assumes "linked h c"
  shows "map_of (lru_map c) k = None \<longleftrightarrow> k \<notin> key_of h ` set (lru_list c)"
  unfolding map_of_eq_None_iff linked_set [OF assms] by (force simp: link_def)

lemma linked_filter:
  assumes "linked h c" "(n, a, tp) \<in> set (lru_list c)" "fst (cells h ! a) = k"
  shows "filter (\<lambda>e. fst e \<noteq> n) (lru_list c) = filter (\<lambda>e. key_of h e \<noteq> k) (lru_list c)"
proof (rule filter_cong [OF refl])
  fix e assume e: "e \<in> set (lru_list c)"
  have "inj_on fst (set (lru_list c))" "inj_on (key_of h) (set (lru_list c))"
    using assms(1) by (simp_all add: linked_def distinct_map)
  then have "fst e = n \<longleftrightarrow> e = (n, a, tp)" "key_of h e = k \<longleftrightarrow> e = (n, a, tp)"
    using e assms(2,3) by (force simp: inj_on_def key_of_def)+
  then show "(fst e \<noteq> n) = (key_of h e \<noteq> k)" by simp
qed

lemma delete_filter: "AList.delete k m = filter (\<lambda>p. fst p \<noteq> k) m"
  by (induction m) auto

lemma linked_remove:
  fixes k :: "'k" and c :: "'k lru" and h :: "('k, 'v) lru_heap"
  assumes "linked h c"
  defines "xs \<equiv> filter (\<lambda>e. key_of h e \<noteq> k) (lru_list c)"
  shows "linked h (c\<lparr>lru_list := xs, lru_map := AList.delete k (lru_map c)\<rparr>)"
proof -
  have "mset (AList.delete k (lru_map c)) = filter_mset (\<lambda>p. fst p \<noteq> k) (mset (List.map (link h) (lru_list c)))"
    using assms(1) by (simp add: delete_filter linked_def)
  also have "\<dots> = mset (filter (\<lambda>p. fst p \<noteq> k) (List.map (link h) (lru_list c)))" by (rule mset_filter [symmetric])
  also have "filter (\<lambda>p. fst p \<noteq> k) (List.map (link h) (lru_list c)) = List.map (link h) xs"
    by (simp add: xs_def filter_map comp_def link_def)
  finally have "mset (AList.delete k (lru_map c)) = mset (List.map (link h) xs)" .
  then show ?thesis using assms(1) by (simp add: xs_def linked_def distinct_map_filter)
qed

lemma contents_remove:
  "contents h (c\<lparr>lru_list := filter (\<lambda>e. key_of h e \<noteq> k) (lru_list c), lru_map := m\<rparr>) = without k (contents h c)"
  by (simp add: contents_def without_def filter_map comp_def key_of_def case_prod_unfold)

lemma linked_unlink:
  assumes "linked h c" "map_of (lru_map c) k = Some (a, n)"
  shows "lru_unlink k n c = Some (c\<lparr>lru_list := filter (\<lambda>e. key_of h e \<noteq> k) (lru_list c), lru_map := AList.delete k (lru_map c)\<rparr>)"
proof -
  obtain tp where e: "(n, a, tp) \<in> set (lru_list c)" "fst (cells h ! a) = k"
    using linked_lookup [OF assms(1)] assms(2) by blast
  have "n \<in> fst ` set (lru_list c)" using e(1) by force
  then show ?thesis using linked_filter [OF assms(1) e] by (simp add: lru_unlink_def erase_node_def)
qed

text \<open>Allocating objects and nodes does not disturb a cache.\<close>

lemma linked_heap:
  assumes "linked h c" "cells h' = cells h @ vs" "next_node h \<le> next_node h'"
  shows "linked h' c" "contents h' c = contents h c" "e \<in> set (lru_list c) \<Longrightarrow> key_of h' e = key_of h e"
proof -
  have a: "\<forall>e \<in> set (lru_list c). fst (snd e) < length (cells h)" using assms(1) by (simp add: linked_def)
  then have k: "key_of h' e = key_of h e" if "e \<in> set (lru_list c)" for e
    using that assms(2) by (auto simp: key_of_def nth_append)
  then have m: "List.map (key_of h') (lru_list c) = List.map (key_of h) (lru_list c)"
    "List.map (link h') (lru_list c) = List.map (link h) (lru_list c)" by (simp_all add: link_def)
  have "\<forall>e \<in> set (lru_list c). fst e < next_node h' \<and> fst (snd e) < length (cells h')"
    using assms by (force simp: linked_def)
  then show "linked h' c" using assms(1) unfolding linked_def m by blast
  show "contents h' c = contents h c" using a assms(2) by (auto simp: contents_def nth_append)
  show "e \<in> set (lru_list c) \<Longrightarrow> key_of h' e = key_of h e" by (rule k)
qed

lemma linked_push:
  assumes "linked h c" "next_node h = n" "next_node h' = n + 1" "cells h' = cells h" "a < length (cells h)"
    "fst (cells h ! a) = k" "k \<notin> key_of h ` set (lru_list c)"
  shows "linked h' (c\<lparr>lru_list := (n, a, tp) # lru_list c, lru_map := (k, a, n) # lru_map c\<rparr>)"
proof -
  have l: "linked h' c" "\<And>e. e \<in> set (lru_list c) \<Longrightarrow> key_of h' e = key_of h e"
    using linked_heap [OF assms(1), of h' "[]"] assms(2-4) by simp_all
  moreover have "n \<notin> fst ` set (lru_list c)" using assms(1,2) by (auto simp: linked_def)
  moreover have "k \<notin> key_of h' ` set (lru_list c)" using assms(7) l(2) by force
  ultimately show ?thesis using assms(3-6) by (simp add: linked_def link_def key_of_def)
qed

lemma lru_evict_ok:
  assumes "linked h c"
  shows "\<exists>c'. lru_evict h c = Some c' \<and> linked h c' \<and> lru_list c' = take (max_size c) (lru_list c) \<and>
    max_size c' = max_size c \<and> expire c' = expire c \<and> lifetime c' = lifetime c"
  using assms
proof (induction h c rule: lru_evict.induct)
  case (1 h c)
  show ?case
  proof (cases "oversize c")
    case False
    then show ?thesis using linked_size [OF 1(2)] 1(2) by (simp add: lru_evict.simps [of h c] oversize_def)
  next
    case True
    then have l: "max_size c < length (lru_list c)" "lru_list c \<noteq> []" using linked_size [OF 1(2)] by (auto simp: oversize_def)
    let ?k = "key_of h (last (lru_list c))"
    let ?c = "c\<lparr>lru_map := AList.delete ?k (lru_map c), lru_list := butlast (lru_list c)\<rparr>"
    have "distinct (List.map (key_of h) (butlast (lru_list c) @ [last (lru_list c)]))" using 1(2) l(2) by (simp add: linked_def)
    then have "\<forall>e \<in> set (butlast (lru_list c)). key_of h e \<noteq> ?k" by simp (metis image_eqI)
    then have "filter (\<lambda>e. key_of h e \<noteq> ?k) (butlast (lru_list c) @ [last (lru_list c)]) = butlast (lru_list c)"
      by (simp add: filter_True)
    then have "filter (\<lambda>e. key_of h e \<noteq> ?k) (lru_list c) = butlast (lru_list c)" using l(2) by simp
    then have "linked h ?c" using linked_remove [OF 1(2), of ?k] by (simp add: linked_def)
    then obtain c' where c': "lru_evict h ?c = Some c'" "linked h c'" "lru_list c' = take (max_size c) (butlast (lru_list c))"
        "max_size c' = max_size c" "expire c' = expire c" "lifetime c' = lifetime c"
      using 1(1) [OF True l(2)] by auto
    have "lru_evict h c = Some c'" using True l(2) c'(1) by (simp add: lru_evict.simps [of h c])
    then show ?thesis using c'(2-6) l(1) by (simp add: take_butlast)
  qed
qed

lemma contents_take: "lru_list c' = take n (lru_list c) \<Longrightarrow> contents h c' = take n (contents h c)"
  by (simp add: contents_def take_map)

lemma lru_insert_at_ok:
  assumes "lru_ok h c"
  shows "\<exists>h' c'. lru_insert_at v tp h c = Some (h', c') \<and> lru_ok h' c' \<and> cells h' = cells h @ [v] \<and> next_node h \<le> next_node h' \<and>
    contents h' c' = recency_insert (max_size c) v tp (contents h c) \<and>
    max_size c' = max_size c \<and> expire c' = expire c \<and> lifetime c' = lifetime c"
proof -
  let ?k = "fst v"
  define h1 where "h1 = h\<lparr>cells := cells h @ [v]\<rparr>"
  define h2 where "h2 = h1\<lparr>next_node := next_node h + 1\<rparr>"
  have l: "linked h c" using assms by (simp add: lru_ok_def)
  note h1 = linked_heap [OF l, of h1 "[v]", unfolded h1_def, simplified, folded h1_def]
  define c1 where "c1 = c\<lparr>lru_list := filter (\<lambda>e. key_of h1 e \<noteq> ?k) (lru_list c), lru_map := AList.delete ?k (lru_map c)\<rparr>"
  have c1: "linked h1 c1" "contents h1 c1 = without ?k (contents h1 c)" "?k \<notin> key_of h1 ` set (lru_list c1)"
    unfolding c1_def by (rule linked_remove [OF h1(1)], rule contents_remove) auto
  have u: "(case map_of (lru_map c) ?k of Some (_, n) \<Rightarrow> lru_unlink ?k n c | None \<Rightarrow> Some c) = Some c1"
  proof (cases "map_of (lru_map c) ?k")
    case None
    then have "?k \<notin> key_of h1 ` set (lru_list c)" using linked_miss [OF h1(1)] by simp
    moreover have "AList.delete ?k (lru_map c) = lru_map c" using None by (simp add: map_of_eq_None_iff delete_id)
    ultimately have "c1 = c" by (simp add: c1_def filter_True image_iff eq_commute)
    then show ?thesis using None by simp
  next
    case (Some an)
    then show ?thesis using linked_unlink [OF h1(1)] by (cases an) (simp add: c1_def)
  qed
  define c2 where "c2 = c1\<lparr>lru_list := (next_node h, length (cells h), tp) # lru_list c1, lru_map := (?k, length (cells h), next_node h) # lru_map c1\<rparr>"
  have l2: "linked h2 c2" unfolding c2_def
    by (rule linked_push [OF c1(1)]) (use c1(3) in \<open>simp_all add: h1_def h2_def\<close>)
  have "contents h2 c2 = (v, tp) # contents h1 c1"
    by (simp add: contents_def c2_def h2_def h1_def)
  then have con: "contents h2 c2 = (v, tp) # without ?k (contents h c)" using c1(2) h1(2) by simp
  obtain c' where c': "lru_evict h2 c2 = Some c'" "linked h2 c'" "lru_list c' = take (max_size c2) (lru_list c2)"
      "max_size c' = max_size c2" "expire c' = expire c2" "lifetime c' = lifetime c2"
    using lru_evict_ok [OF l2] by blast
  have m: "max_size c2 = max_size c" "expire c2 = expire c" "lifetime c2 = lifetime c" by (simp_all add: c2_def c1_def)
  have "lru_insert_at v tp h c = Some (h2, c')"
    using u c'(1) by (simp add: lru_insert_at_def Let_def h1_def h2_def c2_def)
  moreover have "lru_ok h2 c'" using c'(2-4) by (simp add: lru_ok_def)
  moreover have "contents h2 c' = recency_insert (max_size c) v tp (contents h c)"
    using contents_take [OF c'(3), of h2] unfolding con m recency_insert_def .
  ultimately show ?thesis using c'(4-6) m by (simp add: h2_def h1_def)
qed

lemma entry_of_None: "entry_of k xs = None \<longleftrightarrow> k \<notin> (\<lambda>e. fst (fst e)) ` set xs"
  by (force simp: entry_of_def find_None_iff image_iff)

lemma entry_of_distinct:
  assumes "distinct (List.map (\<lambda>e. fst (fst e)) xs)" "((k, v), tp) \<in> set xs" shows "entry_of k xs = Some ((k, v), tp)"
  using assms
proof (induction xs)
  case (Cons e xs)
  show ?case
  proof (cases "e = ((k, v), tp)")
    case False
    then have i: "((k, v), tp) \<in> set xs" using Cons.prems(2) by simp
    then have "k \<in> (\<lambda>e. fst (fst e)) ` set xs" by (rule rev_image_eqI) simp
    then have "fst (fst e) \<noteq> k" using Cons.prems(1) by auto
    then show ?thesis using Cons i by (simp add: entry_of_def)
  qed (simp add: entry_of_def)
qed simp

lemma contents_keys:
  "List.map (\<lambda>e. fst (fst e)) (contents h c) = List.map (key_of h) (lru_list c)"
  by (simp add: contents_def key_of_def comp_def case_prod_unfold)

lemma lru_find_ok:
  assumes "lru_ok h c"
  shows "\<exists>it h' c'. lru_find k now h c = Some (it, h', c') \<and> lru_ok h' c' \<and> cells h' = cells h \<and> next_node h \<le> next_node h' \<and>
    (map_option (\<lambda>a. cells h ! a) it, contents h' c') = recency_find (expire c) k now (contents h c) \<and>
    (\<forall>a. it = Some a \<longrightarrow> a < length (cells h)) \<and>
    max_size c' = max_size c \<and> expire c' = expire c \<and> lifetime c' = lifetime c"
proof -
  have l: "linked h c" using assms by (simp add: lru_ok_def)
  have d: "distinct (List.map (\<lambda>e. fst (fst e)) (contents h c))" using l by (simp add: contents_keys linked_def)
  show ?thesis
  proof (cases "map_of (lru_map c) k")
    case None
    then have "k \<notin> (\<lambda>e. fst (fst e)) ` set (contents h c)"
      using linked_miss [OF l] contents_keys [of h c] by (metis list.set_map)
    then have "entry_of k (contents h c) = None" by (simp add: entry_of_None)
    then show ?thesis using None assms by (simp add: lru_find_def recency_find_def)
  next
    case (Some an)
    obtain a n where an: "an = (a, n)" by (cases an)
    obtain tp where e: "(n, a, tp) \<in> set (lru_list c)" "fst (cells h ! a) = k"
      using linked_lookup [OF l] Some an by blast
    have node: "map_of (lru_list c) n = Some (a, tp)" using e(1) l by (simp add: linked_def)
    have a: "a < length (cells h)" "n < next_node h" using e(1) l by (auto simp: linked_def)
    have "(cells h ! a, tp) \<in> set (contents h c)" using e(1) by (force simp: contents_def)
    then have ent: "entry_of k (contents h c) = Some (cells h ! a, tp)"
      using entry_of_distinct [OF d, of k "snd (cells h ! a)" tp] e(2) by (cases "cells h ! a") simp
    let ?xs = "filter (\<lambda>e. key_of h e \<noteq> k) (lru_list c)"
    define c1 where "c1 = c\<lparr>lru_list := ?xs, lru_map := AList.delete k (lru_map c)\<rparr>"
    have c1: "linked h c1" "contents h c1 = without k (contents h c)" "k \<notin> key_of h ` set (lru_list c1)"
      unfolding c1_def by (rule linked_remove [OF l], rule contents_remove) auto
    have len: "Suc (length ?xs) \<le> length (lru_list c)" using e by (intro Suc_leI length_filter_less) (auto simp: key_of_def)
    show ?thesis
    proof (cases "expire c \<and> tp < now")
      case True
      have "lru_find k now h c = Some (None, h, c1)"
        using Some an node True linked_unlink [OF l] by (simp add: lru_find_def c1_def)
      moreover have "lru_ok h c1" using c1(1) len assms by (simp add: lru_ok_def c1_def)
      ultimately show ?thesis using True ent c1(2) by (simp add: recency_find_def c1_def)
    next
      case False
      let ?m = "next_node h"
      define h2 where "h2 = h\<lparr>next_node := ?m + 1\<rparr>"
      define c2 where "c2 = c1\<lparr>lru_list := (?m, a, tp) # ?xs, lru_map := (k, a, ?m) # AList.delete k (lru_map c)\<rparr>"
      have "filter (\<lambda>e. fst e \<noteq> n) ((?m, a, tp) # lru_list c) = (?m, a, tp) # ?xs"
        using linked_filter [OF l e] a(2) by simp
      then have "erase_node n ((?m, a, tp) # lru_list c) = Some ((?m, a, tp) # ?xs)" using e(1) by (force simp: erase_node_def)
      then have f: "lru_find k now h c = Some (Some a, h2, c2)"
        using Some an node False by (auto simp: lru_find_def c2_def c1_def h2_def Let_def)
      have "linked h2 (c1\<lparr>lru_list := (?m, a, tp) # lru_list c1, lru_map := (k, a, ?m) # lru_map c1\<rparr>)"
        by (rule linked_push [OF c1(1)]) (use a e c1(3) in \<open>simp_all add: h2_def\<close>)
      then have "linked h2 c2" by (simp add: c2_def c1_def)
      then have "lru_ok h2 c2" using len assms by (simp add: lru_ok_def c2_def c1_def)
      moreover have "contents h2 c2 = (cells h ! a, tp) # contents h c1"
        by (simp add: contents_def c2_def c1_def h2_def)
      ultimately show ?thesis using f False ent c1(2) a(1) by (simp add: recency_find_def) (simp add: h2_def c2_def c1_def)
    qed
  qed
qed

lemma lru_erase_ok:
  assumes "lru_ok h c"
  shows "\<exists>n c'. lru_erase k c = Some (n, c') \<and> lru_ok h c' \<and> contents h c' = without k (contents h c) \<and>
    n = (if entry_of k (contents h c) = None then 0 else 1) \<and>
    max_size c' = max_size c \<and> expire c' = expire c \<and> lifetime c' = lifetime c"
proof -
  have l: "linked h c" using assms by (simp add: lru_ok_def)
  have k: "map_of (lru_map c) k = None \<longleftrightarrow> entry_of k (contents h c) = None"
    using linked_miss [OF l] contents_keys [of h c] by (metis entry_of_None list.set_map)
  show ?thesis
  proof (cases "map_of (lru_map c) k")
    case None
    then have "without k (contents h c) = contents h c" using k by (force simp: entry_of_None without_def filter_id_conv)
    then show ?thesis using None k assms by (simp add: lru_erase_def)
  next
    case (Some an)
    then have "lru_erase k c = Some (1, c\<lparr>lru_list := filter (\<lambda>e. key_of h e \<noteq> k) (lru_list c), lru_map := AList.delete k (lru_map c)\<rparr>)"
      using linked_unlink [OF l] by (cases an) (simp add: lru_erase_def)
    moreover have "length (filter (\<lambda>e. key_of h e \<noteq> k) (lru_list c)) \<le> max_size c"
      using assms length_filter_le [of "\<lambda>e. key_of h e \<noteq> k" "lru_list c"] unfolding lru_ok_def by linarith
    ultimately show ?thesis using k Some linked_remove [OF l] contents_remove by (auto simp: lru_ok_def)
  qed
qed

lemma lru_new_ok: "lru_ok h (SharedLRUCache n)" "lru_ok h (SharedLRUCache_expiring n life)"
  "contents h (SharedLRUCache n) = []" "contents h (SharedLRUCache_expiring n life) = []"
  by (simp_all add: lru_ok_def linked_def contents_def SharedLRUCache_def SharedLRUCache_expiring_def)

lemma lru_size_ok: "lru_ok h c \<Longrightarrow> lru_size c = length (contents h c)"
  using linked_size [of h c] by (simp add: lru_ok_def lru_size_def contents_def)

section \<open>Delegates\<close>

lemma lru_insert_ok:
  assumes "lru_ok h c"
  shows "\<exists>h' c'. lru_insert v now h c = Some (h', c') \<and> lru_ok h' c' \<and> cells h' = cells h @ [v] \<and>
    contents h' c' = recency_insert (max_size c) v (if expire c then now + lifetime c else 0) (contents h c) \<and>
    max_size c' = max_size c \<and> expire c' = expire c \<and> lifetime c' = lifetime c"
  using lru_insert_at_ok [OF assms, of v "if expire c then now + lifetime c else 0"] by (fastforce simp: lru_insert_def)

lemma lru_subscript_ok:
  assumes "lru_ok h c"
  shows "\<exists>a h' c'. lru_subscript dv k now h c = Some (a, h', c') \<and> lru_ok h' c' \<and> a < length (cells h') \<and>
    cells h' ! a = (case fst (recency_find (expire c) k now (contents h c)) of Some kv \<Rightarrow> kv | None \<Rightarrow> (k, dv)) \<and>
    contents h' c' = snd (recency_find (expire c) k now (contents h c)) \<and>
    max_size c' = max_size c \<and> expire c' = expire c \<and> lifetime c' = lifetime c"
proof -
  obtain it h1 c1 where f: "lru_find k now h c = Some (it, h1, c1)" "lru_ok h1 c1" "cells h1 = cells h"
      "(map_option (\<lambda>a. cells h ! a) it, contents h1 c1) = recency_find (expire c) k now (contents h c)"
      "\<forall>a. it = Some a \<longrightarrow> a < length (cells h)" "max_size c1 = max_size c" "expire c1 = expire c" "lifetime c1 = lifetime c"
    using lru_find_ok [OF assms] by blast
  have r: "fst (recency_find (expire c) k now (contents h c)) = map_option (\<lambda>a. cells h ! a) it"
    "snd (recency_find (expire c) k now (contents h c)) = contents h1 c1" using f(4) [symmetric] by simp_all
  show ?thesis
  proof (cases it)
    case None
    let ?h = "h1\<lparr>cells := cells h1 @ [(k, dv)]\<rparr>"
    have "linked ?h c1" "contents ?h c1 = contents h1 c1"
      using linked_heap(1,2) [of h1 c1 ?h "[(k, dv)]"] f(2) by (simp_all add: lru_ok_def)
    then show ?thesis using f None r by (simp add: lru_subscript_def lru_ok_def)
  next
    case (Some a)
    then show ?thesis using f r by (simp add: lru_subscript_def)
  qed
qed

lemma linked_write:
  assumes "linked h c" "fst kv = fst (cells h ! a)" "a < length (cells h)"
  defines "h' \<equiv> h\<lparr>cells := (cells h)[a := kv]\<rparr>"
  shows "linked h' c" "without (fst kv) (contents h' c) = without (fst kv) (contents h c)"
proof -
  have k: "key_of h' e = key_of h e" for e
    using assms(2,3) by (simp add: h'_def key_of_def nth_list_update)
  then have "key_of h' = key_of h" "link h' = link h" by (simp_all add: fun_eq_iff link_def)
  then show "linked h' c" using assms(1) by (simp add: linked_def h'_def)
  have "cells h' ! x = cells h ! x" if "fst (cells h ! x) \<noteq> fst kv" for x
    using that assms(2,3) by (cases "x = a") (simp_all add: h'_def)
  then have "List.map (\<lambda>(n, a, tp). (cells h' ! a, tp)) (filter (\<lambda>e. key_of h' e \<noteq> fst kv) (lru_list c)) =
      List.map (\<lambda>(n, a, tp). (cells h ! a, tp)) (filter (\<lambda>e. key_of h e \<noteq> fst kv) (lru_list c))"
    using k by (auto simp: key_of_def intro!: map_cong)
  then show "without (fst kv) (contents h' c) = without (fst kv) (contents h c)"
    using contents_remove [where h = h' and c = c and k = "fst kv" and m = "[]"]
      contents_remove [where h = h and c = c and k = "fst kv" and m = "[]"]
    by (simp add: contents_def)
qed

lemma delegate_set_ok:
  assumes "lru_ok h c" "a < length (cells h)" "fst (cells h ! a) = k"
  shows "\<exists>h' c'. delegate_set a v now h c = Some (h', c') \<and> lru_ok h' c' \<and>
    contents h' c' = recency_insert (max_size c) (k, v) (if expire c then now + lifetime c else 0) (contents h c) \<and>
    cells h' = (cells h)[a := (k, v)] @ [(k, v)] \<and>
    max_size c' = max_size c \<and> expire c' = expire c \<and> lifetime c' = lifetime c"
proof -
  let ?h = "h\<lparr>cells := (cells h)[a := (k, v)]\<rparr>"
  have l: "linked ?h c" "without k (contents ?h c) = without k (contents h c)"
    using linked_write [of h c "(k, v)" a] assms by (simp_all add: lru_ok_def)
  then have "lru_ok ?h c" using assms(1) by (simp add: lru_ok_def)
  then obtain h' c' where i: "lru_insert (k, v) now ?h c = Some (h', c')" "lru_ok h' c'" "cells h' = cells ?h @ [(k, v)]"
      "contents h' c' = recency_insert (max_size c) (k, v) (if expire c then now + lifetime c else 0) (contents ?h c)"
      "max_size c' = max_size c" "expire c' = expire c" "lifetime c' = lifetime c"
    using lru_insert_ok [of ?h c "(k, v)" now] by blast
  have "delegate_set a v now h c = Some (h', c')" using i(1) assms(2,3) by (simp add: delegate_set_def)
  moreover have "recency_insert n (k, v) tp (contents ?h c) = recency_insert n (k, v) tp (contents h c)" for n tp
    using l(2) by (simp add: recency_insert_def)
  ultimately show ?thesis using i(2-7) by simp
qed

section \<open>Histories\<close>

text \<open>The calls of a client, each with the time of the clock, and what they return.\<close>

datatype ('k, 'v) lru_op = Insert 'k 'v | Find 'k | Read 'k | Assign 'k 'v | Erase 'k

definition lru_step :: "'v \<Rightarrow> ('k, 'v) lru_op \<Rightarrow> int \<Rightarrow> ('k, 'v) lru_heap \<times> 'k lru \<Rightarrow> ('v option \<times> ('k, 'v) lru_heap \<times> 'k lru) option" where
  "lru_step dv op now s = (case s of (h, c) \<Rightarrow> (case op of
     Insert k v \<Rightarrow> do { s \<leftarrow> lru_insert (k, v) now h c; Some (None, s) }
   | Find k \<Rightarrow> do { (it, h, c) \<leftarrow> lru_find k now h c; Some (map_option (\<lambda>a. snd (cells h ! a)) it, h, c) }
   | Read k \<Rightarrow> do { (a, h, c) \<leftarrow> lru_subscript dv k now h c; Some (Some (delegate_get a h), h, c) }
   | Assign k v \<Rightarrow> do { (a, h, c) \<leftarrow> lru_subscript dv k now h c; s \<leftarrow> delegate_set a v now h c; Some (None, s) }
   | Erase k \<Rightarrow> do { (_, c) \<leftarrow> lru_erase k c; Some (None, h, c) }))"

primrec lru_run :: "'v \<Rightarrow> (('k, 'v) lru_op \<times> int) list \<Rightarrow> ('k, 'v) lru_heap \<times> 'k lru \<Rightarrow> ('v option list \<times> ('k, 'v) lru_heap \<times> 'k lru) option" where
  "lru_run dv [] s = Some ([], s)"
| "lru_run dv (opn # ops) s = do {
     (r, s) \<leftarrow> lru_step dv (fst opn) (snd opn) s;
     (rs, s) \<leftarrow> lru_run dv ops s;
     Some (r # rs, s)
   }"

definition recency_step :: "'v \<Rightarrow> 'k lru \<Rightarrow> ('k, 'v) lru_op \<Rightarrow> int \<Rightarrow> ('k, 'v) recency \<Rightarrow> 'v option \<times> ('k, 'v) recency" where
  "recency_step dv c op now xs = (case op of
     Insert k v \<Rightarrow> (None, recency_insert (max_size c) (k, v) (if expire c then now + lifetime c else 0) xs)
   | Find k \<Rightarrow> map_prod (map_option snd) id (recency_find (expire c) k now xs)
   | Read k \<Rightarrow> map_prod (\<lambda>r. Some (case r of Some kv \<Rightarrow> snd kv | None \<Rightarrow> dv)) id (recency_find (expire c) k now xs)
   | Assign k v \<Rightarrow> (None, recency_insert (max_size c) (k, v) (if expire c then now + lifetime c else 0) (snd (recency_find (expire c) k now xs)))
   | Erase k \<Rightarrow> (None, without k xs))"

primrec recency_run :: "'v \<Rightarrow> 'k lru \<Rightarrow> (('k, 'v) lru_op \<times> int) list \<Rightarrow> ('k, 'v) recency \<Rightarrow> 'v option list \<times> ('k, 'v) recency" where
  "recency_run dv c [] xs = ([], xs)"
| "recency_run dv c (opn # ops) xs =
     (let (r, xs) = recency_step dv c (fst opn) (snd opn) xs; (rs, xs) = recency_run dv c ops xs in (r # rs, xs))"

definition same_limits :: "'k lru \<Rightarrow> 'k lru \<Rightarrow> bool" where
  "same_limits c c' \<longleftrightarrow> max_size c' = max_size c \<and> expire c' = expire c \<and> lifetime c' = lifetime c"

lemma entry_of_key: "entry_of k xs = Some e \<Longrightarrow> fst (fst e) = k"
  by (auto simp: entry_of_def find_Some_iff)

lemma recency_find_key: "fst (recency_find ex k now xs) = Some kv \<Longrightarrow> fst kv = k"
  using entry_of_key [of k xs] by (fastforce simp: recency_find_def split: option.splits if_splits)

lemma lru_step_ok:
  assumes "lru_ok h c"
  shows "\<exists>r h' c'. lru_step dv op now (h, c) = Some (r, h', c') \<and> lru_ok h' c' \<and> same_limits c c' \<and>
    (r, contents h' c') = recency_step dv c op now (contents h c)"
proof (cases op)
  case (Insert k v)
  then show ?thesis using lru_insert_ok [OF assms, of "(k, v)" now] by (auto simp: lru_step_def recency_step_def same_limits_def)
next
  case (Find k)
  obtain it h1 c1 where f: "lru_find k now h c = Some (it, h1, c1)" "lru_ok h1 c1" "cells h1 = cells h"
      "(map_option (\<lambda>a. cells h ! a) it, contents h1 c1) = recency_find (expire c) k now (contents h c)" "same_limits c c1"
    using lru_find_ok [OF assms, of k now] by (auto simp: same_limits_def)
  have "recency_step dv c op now (contents h c) = (map_option snd (map_option (\<lambda>a. cells h ! a) it), contents h1 c1)"
    using f(4) [symmetric] Find by (simp add: recency_step_def)
  then show ?thesis using f Find by (simp add: lru_step_def option.map_comp comp_def)
next
  case (Read k)
  obtain a h1 c1 where f: "lru_subscript dv k now h c = Some (a, h1, c1)" "lru_ok h1 c1" "same_limits c c1"
      "cells h1 ! a = (case fst (recency_find (expire c) k now (contents h c)) of Some kv \<Rightarrow> kv | None \<Rightarrow> (k, dv))"
      "contents h1 c1 = snd (recency_find (expire c) k now (contents h c))"
    using lru_subscript_ok [OF assms, of dv k now] by (auto simp: same_limits_def)
  then show ?thesis using Read
    by (cases "recency_find (expire c) k now (contents h c)")
      (auto simp: lru_step_def recency_step_def delegate_get_def split: option.splits)
next
  case (Assign k v)
  obtain a h1 c1 where f: "lru_subscript dv k now h c = Some (a, h1, c1)" "lru_ok h1 c1" "a < length (cells h1)" "same_limits c c1"
      "cells h1 ! a = (case fst (recency_find (expire c) k now (contents h c)) of Some kv \<Rightarrow> kv | None \<Rightarrow> (k, dv))"
      "contents h1 c1 = snd (recency_find (expire c) k now (contents h c))"
    using lru_subscript_ok [OF assms, of dv k now] by (auto simp: same_limits_def)
  have "fst (cells h1 ! a) = k" using f(5) recency_find_key by (fastforce split: option.splits)
  from delegate_set_ok [OF f(2,3) this, of v now] show ?thesis using Assign f(1,4,6)
    by (auto simp: lru_step_def recency_step_def same_limits_def)
next
  case (Erase k)
  then show ?thesis using lru_erase_ok [OF assms, of k] assms by (auto simp: lru_step_def recency_step_def same_limits_def)
qed

lemma recency_step_limits: "same_limits c c' \<Longrightarrow> recency_step dv c' op now xs = recency_step dv c op now xs"
  by (simp add: recency_step_def same_limits_def split: lru_op.split)

lemma recency_run_limits: "same_limits c c' \<Longrightarrow> recency_run dv c' ops xs = recency_run dv c ops xs"
  by (induction ops arbitrary: xs) (simp_all add: recency_step_limits)

lemma lru_run_ok:
  assumes "lru_ok h c"
  shows "\<exists>rs h' c'. lru_run dv ops (h, c) = Some (rs, h', c') \<and> lru_ok h' c' \<and> same_limits c c' \<and>
    (rs, contents h' c') = recency_run dv c ops (contents h c)"
  using assms
proof (induction ops arbitrary: h c)
  case (Cons opn ops)
  obtain r h1 c1 where 1: "lru_step dv (fst opn) (snd opn) (h, c) = Some (r, h1, c1)" "lru_ok h1 c1" "same_limits c c1"
      "(r, contents h1 c1) = recency_step dv c (fst opn) (snd opn) (contents h c)"
    using lru_step_ok [OF Cons.prems] by blast
  obtain rs h2 c2 where 2: "lru_run dv ops (h1, c1) = Some (rs, h2, c2)" "lru_ok h2 c2" "same_limits c1 c2"
      "(rs, contents h2 c2) = recency_run dv c1 ops (contents h1 c1)"
    using Cons.IH [OF 1(2)] by blast
  have "same_limits c c2" using 1(3) 2(3) by (simp add: same_limits_def)
  moreover have "lru_run dv (opn # ops) (h, c) = Some (r # rs, h2, c2)" using 1(1) 2(1) by simp
  moreover have "(r # rs, contents h2 c2) = recency_run dv c (opn # ops) (contents h c)"
    using 2(4) [unfolded recency_run_limits [OF 1(3)], symmetric] by (simp add: 1(4) [symmetric])
  ultimately show ?case using 2(2) by blast
qed (simp add: same_limits_def)

section \<open>What stays in the cache\<close>

text \<open>
  An entry of a cache without expiry stays as long as fewer than \<open>max_size\<close> other keys are used: the keys in
  front of it are among them.
\<close>

fun op_key :: "('k, 'v) lru_op \<Rightarrow> 'k" where
  "op_key (Insert k v) = k"
| "op_key (Find k) = k"
| "op_key (Read k) = k"
| "op_key (Assign k v) = k"
| "op_key (Erase k) = k"

definition recent :: "'k set \<Rightarrow> 'k \<Rightarrow> 'v \<Rightarrow> ('k, 'v) recency \<Rightarrow> bool" where
  "recent K k v xs \<longleftrightarrow> (\<exists>ys tp zs. xs = ys @ ((k, v), tp) # zs \<and> (\<lambda>e. fst (fst e)) ` set ys \<subseteq> K \<and>
     distinct (List.map (\<lambda>e. fst (fst e)) ys))"

lemma recent_without:
  assumes "recent K k v xs" "k' \<noteq> k" shows "recent (K - {k'}) k v (without k' xs)"
proof -
  obtain ys tp zs where x: "xs = ys @ ((k, v), tp) # zs" "(\<lambda>e. fst (fst e)) ` set ys \<subseteq> K" "distinct (List.map (\<lambda>e. fst (fst e)) ys)"
    using assms(1) unfolding recent_def by blast
  have "without k' xs = without k' ys @ ((k, v), tp) # without k' zs" using x(1) assms(2) by (simp add: without_def)
  moreover have "(\<lambda>e. fst (fst e)) ` set (without k' ys) \<subseteq> K - {k'}" using x(2) by (auto simp: without_def)
  moreover have "distinct (List.map (\<lambda>e. fst (fst e)) (without k' ys))" using x(3) by (simp add: without_def distinct_map_filter)
  ultimately show ?thesis unfolding recent_def by blast
qed

lemma recent_mono:
  assumes "recent K k v xs" "K \<subseteq> L" shows "recent L k v xs"
proof -
  obtain ys tp zs where x: "xs = ys @ ((k, v), tp) # zs" "(\<lambda>e. fst (fst e)) ` set ys \<subseteq> K" "distinct (List.map (\<lambda>e. fst (fst e)) ys)"
    using assms(1) unfolding recent_def by blast
  from x(2) assms(2) have "(\<lambda>e. fst (fst e)) ` set ys \<subseteq> L" by (rule subset_trans)
  then show ?thesis using x(1,3) unfolding recent_def by blast
qed

lemma recent_Cons:
  assumes "recent (K - {k'}) k v xs" "k' \<in> K" shows "recent K k v (((k', v'), tp') # xs)"
proof -
  obtain ys tp zs where x: "xs = ys @ ((k, v), tp) # zs" "(\<lambda>e. fst (fst e)) ` set ys \<subseteq> K - {k'}" "distinct (List.map (\<lambda>e. fst (fst e)) ys)"
    using assms(1) unfolding recent_def by blast
  have "(((k', v'), tp') # xs) = (((k', v'), tp') # ys) @ ((k, v), tp) # zs" using x(1) by simp
  moreover have "(\<lambda>e. fst (fst e)) ` set (((k', v'), tp') # ys) \<subseteq> K" "distinct (List.map (\<lambda>e. fst (fst e)) (((k', v'), tp') # ys))"
    using x(2,3) assms(2) by auto
  ultimately show ?thesis unfolding recent_def by blast
qed

lemma recent_take:
  assumes "recent K k v xs" "finite K" "card K < n" shows "recent K k v (take n xs)"
proof -
  obtain ys tp zs where x: "xs = ys @ ((k, v), tp) # zs" "(\<lambda>e. fst (fst e)) ` set ys \<subseteq> K" "distinct (List.map (\<lambda>e. fst (fst e)) ys)"
    using assms(1) unfolding recent_def by blast
  have "length ys = card ((\<lambda>e. fst (fst e)) ` set ys)" using distinct_card [OF x(3)] by simp
  then have "length ys < n" using card_mono [OF assms(2) x(2)] assms(3) by simp
  then have "take n xs = ys @ ((k, v), tp) # take (n - length ys - 1) zs" using x(1) by (simp add: take_Cons')
  then show ?thesis using x(2,3) unfolding recent_def by blast
qed

lemma recent_find:
  assumes "recent K k v xs" "k' \<in> K" "k' \<noteq> k" shows "recent K k v (snd (recency_find ex k' now xs))"
proof (cases "entry_of k' xs")
  case (Some e)
  obtain kv tp where e: "e = (kv, tp)" by (cases e)
  then have "fst kv = k'" using entry_of_key [OF Some] by simp
  then have "recent K k v ((kv, tp) # without k' xs)"
    using recent_Cons [OF recent_without [OF assms(1,3)] assms(2)] by (cases kv) simp
  then show ?thesis using Some e recent_mono [OF recent_without [OF assms(1,3)]] by (auto simp: recency_find_def)
qed (use assms in \<open>simp add: recency_find_def\<close>)

lemma recent_insert:
  assumes "recent K k v xs" "k' \<in> K" "k' \<noteq> k" "finite K" "card K < n"
  shows "recent K k v (recency_insert n (k', v') tp xs)"
  unfolding recency_insert_def using recent_take [OF recent_Cons [OF recent_without [OF assms(1,3)] assms(2)] assms(4,5)] by simp

lemma recent_step:
  assumes "recent K k v xs" "op_key op \<in> K" "op_key op \<noteq> k" "finite K" "card K < max_size c"
  shows "recent K k v (snd (recency_step dv c op now xs))"
proof (cases op)
  case (Erase k')
  then show ?thesis using recent_mono [OF recent_without [OF assms(1)]] assms(3) by (auto simp: recency_step_def)
next
  case (Insert k' v')
  then show ?thesis using recent_insert [OF assms(1) _ _ assms(4,5)] assms(2,3) by (simp add: recency_step_def)
next
  case (Assign k' v')
  then show ?thesis using recent_insert [OF recent_find [OF assms(1)] _ _ assms(4,5)] assms(2,3) by (simp add: recency_step_def)
next
  case (Find k')
  then show ?thesis using recent_find [OF assms(1)] assms(2,3) by (simp add: recency_step_def)
next
  case (Read k')
  then show ?thesis using recent_find [OF assms(1)] assms(2,3) by (simp add: recency_step_def)
qed

lemma recent_run:
  assumes "recent K k v xs" "(\<lambda>opn. op_key (fst opn)) ` set ops \<subseteq> K" "k \<notin> K" "finite K" "card K < max_size c"
  shows "recent K k v (snd (recency_run dv c ops xs))"
  using assms(1,2)
proof (induction ops arbitrary: xs)
  case (Cons opn ops)
  have "recent K k v (snd (recency_step dv c (fst opn) (snd opn) xs))"
    using Cons.prems assms(3-5) by (intro recent_step) auto
  then show ?case using Cons.IH Cons.prems(2) by (simp add: case_prod_unfold Let_def)
qed simp

lemma recent_entry:
  assumes "recent K k v xs" "k \<notin> K" obtains tp where "entry_of k xs = Some ((k, v), tp)"
proof -
  obtain ys tp zs where x: "xs = ys @ ((k, v), tp) # zs" "(\<lambda>e. fst (fst e)) ` set ys \<subseteq> K"
    using assms(1) unfolding recent_def by blast
  have "\<forall>e \<in> set ys. fst (fst e) \<noteq> k" using x(2) assms(2) by force
  then have "entry_of k xs = Some ((k, v), tp)" unfolding x(1) by (induction ys) (simp_all add: entry_of_def)
  then show thesis by (rule that)
qed

text \<open>
  C8. Behind its linked list and hash map of shared objects, \<open>SharedLRUCache\<close> is a list of entries in the order of
  their last use. For every sequence of \<open>insert\<close>, \<open>find\<close>, \<open>erase\<close>, and reads and assignments through \<open>operator[]\<close> from
  a new cache with or without expiry: no iterator is used after its node is gone, the eviction loop ends, list and
  map stay in step and within the size limit, and every call returns what the list gives.
\<close>
theorem lru_cache_refines_recency_list:
  "\<forall>c \<in> {SharedLRUCache n, SharedLRUCache_expiring n life}.
     \<exists>rs h' c'. lru_run dv ops (h, c) = Some (rs, h', c') \<and> lru_ok h' c' \<and> lru_size c' \<le> n \<and>
       (rs, contents h' c') = recency_run dv c ops []"
proof
  fix c :: "'a lru" assume "c \<in> {SharedLRUCache n, SharedLRUCache_expiring n life}"
  then have c: "lru_ok h c" "contents h c = []" "max_size c = n"
    using lru_new_ok by (auto simp: SharedLRUCache_def SharedLRUCache_expiring_def)
  obtain rs h' c' where r: "lru_run dv ops (h, c) = Some (rs, h', c')" "lru_ok h' c'" "same_limits c c'"
      "(rs, contents h' c') = recency_run dv c ops []" using lru_run_ok [OF c(1), of dv ops] c(2) by auto
  have "lru_size c' \<le> n" using r(2,3) c(3) linked_size [of h' c'] by (simp add: lru_ok_def lru_size_def same_limits_def)
  then show "\<exists>rs h' c'. lru_run dv ops (h, c) = Some (rs, h', c') \<and> lru_ok h' c' \<and> lru_size c' \<le> n \<and>
       (rs, contents h' c') = recency_run dv c ops []" using r by blast
qed

theorem lru_cache_refines_recency_list_witness:
  "\<exists>rs h' c'. lru_run 0 [(Assign True 1, 5), (Find True, 6), (Erase False, 7), (Insert False (2::int), 8), (Read True, 200)]
         (\<lparr>cells = [], next_node = 0\<rparr>, SharedLRUCache_expiring 2 100) = Some (rs, h', c') \<and> lru_ok h' c' \<and> lru_size c' \<le> 2 \<and>
       (rs, contents h' c') = recency_run 0 (SharedLRUCache_expiring 2 100 :: bool lru)
         [(Assign True 1, 5), (Find True, 6), (Erase False, 7), (Insert False (2::int), 8), (Read True, 200)] []"
  by (rule bspec [OF lru_cache_refines_recency_list [where life = 100]]) simp

text \<open>
  C28. What has been used recently stays: after an insertion into a cache without expiry, any sequence of
  operations on fewer than \<open>max_size\<close> other keys, however long, leaves the entry in the cache.
\<close>
theorem lru_cache_keeps_recent:
  assumes "lru_ok h c" "\<not> expire c" "(\<lambda>opn. op_key (fst opn)) ` set ops \<subseteq> K" "k \<notin> K" "finite K" "card K < max_size c"
  shows "\<exists>rs s. lru_run dv ((Insert k v, t) # ops @ [(Find k, t')]) (h, c) = Some (rs, s) \<and> last rs = Some v"
proof -
  obtain r h1 c1 where 1: "lru_step dv (Insert k v) t (h, c) = Some (r, h1, c1)" "lru_ok h1 c1" "same_limits c c1"
      "(r, contents h1 c1) = recency_step dv c (Insert k v) t (contents h c)"
    using lru_step_ok [OF assms(1)] by blast
  have "recent K k v (contents h1 c1)"
    using 1(4) assms(6) unfolding recent_def recency_step_def recency_insert_def
    by (intro exI [of _ "[]"]) (auto simp: take_Cons' assms(2))
  then have rec: "recent K k v (snd (recency_run dv c1 ops (contents h1 c1)))"
    using recent_run [OF _ assms(3-5), of v _ c1 dv] 1(3) assms(6) by (simp add: same_limits_def)
  obtain rs h2 c2 where 2: "lru_run dv ops (h1, c1) = Some (rs, h2, c2)" "lru_ok h2 c2" "same_limits c1 c2"
      "(rs, contents h2 c2) = recency_run dv c1 ops (contents h1 c1)"
    using lru_run_ok [OF 1(2)] by blast
  have "recent K k v (contents h2 c2)" using rec 2(4) [symmetric] by simp
  then obtain tp where e: "entry_of k (contents h2 c2) = Some ((k, v), tp)" using assms(4) by (rule recent_entry)
  have "\<not> expire c2" using assms(2) 1(3) 2(3) by (simp add: same_limits_def)
  then obtain s where 3: "lru_step dv (Find k) t' (h2, c2) = Some (Some v, s)"
    using lru_step_ok [OF 2(2), of dv "Find k" t'] e by (auto simp: recency_step_def recency_find_def)
  have run_append: "lru_run dv (xs @ ys) s = do { (rs, s) \<leftarrow> lru_run dv xs s; (rs', s) \<leftarrow> lru_run dv ys s; Some (rs @ rs', s) }" for xs ys s
    by (induction xs arbitrary: s) (auto split: Option.bind_splits)
  have "lru_run dv ((Insert k v, t) # ops @ [(Find k, t')]) (h, c) = Some (r # rs @ [Some v], s)"
    using 1(1) 2(1) 3 by (simp add: run_append)
  then show ?thesis by simp
qed

theorem lru_cache_keeps_recent_witness:
  "\<exists>rs s. lru_run 0 ((Insert (1::int) (10::int), 0) # [(Insert 2 20, 1), (Find 2, 2), (Erase 2, 3), (Assign 2 5, 4)] @ [(Find 1, 9)])
     (\<lparr>cells = [], next_node = 0\<rparr>, SharedLRUCache 2) = Some (rs, s) \<and> last rs = Some 10"
  by (rule lru_cache_keeps_recent [where K = "{2}"]) (simp_all add: lru_new_ok, simp_all add: SharedLRUCache_def)

text \<open>
  C35. The copy constructor copies the map with its iterators, which point into the list of the original. Looking up or
  overwriting any key the original holds then uses an iterator of the wrong list, which is undefined.
\<close>
theorem lru_cache_copy_is_broken:
  assumes "lru_ok h c" "entry_of k (contents h c) \<noteq> None" "lru_copy h c = (h', c')"
  shows "lru_find k now h' c' = None \<and> lru_insert (k, v) now h' c' = None \<and> lru_erase k c' = None"
proof -
  have l: "linked h c" using assms(1) by (simp add: lru_ok_def)
  have "map_of (lru_map c) k \<noteq> None"
    using linked_miss [OF l] contents_keys [of h c] assms(2) by (metis entry_of_None list.set_map)
  then obtain a n where an: "map_of (lru_map c) k = Some (a, n)" by auto
  then have "n < next_node h" using linked_lookup [OF l] l by (fastforce simp: linked_def)
  moreover have c': "lru_map c' = lru_map c" "fst ` set (lru_list c') \<subseteq> {next_node h ..< next_node h + length (lru_list c)}"
    using assms(3) by (auto simp: lru_copy_def dest!: set_zip_leftD simp flip: atLeastLessThan_upt)
  ultimately have n: "n \<notin> fst ` set (lru_list c')" by force
  then have "map_of (lru_list c') n = None" "erase_node n (lru_list c') = None"
    by (simp_all add: map_of_eq_None_iff erase_node_def)
  then show ?thesis using an c'(1)
    by (simp add: lru_find_def lru_insert_def lru_insert_at_def lru_erase_def lru_unlink_def Let_def)
qed

definition one_entry :: "(int, int) lru_heap \<times> int lru" where
  "one_entry = the (lru_insert (1, 10) 0 \<lparr>cells = [], next_node = 0\<rparr> (SharedLRUCache 2))"

theorem lru_cache_copy_is_broken_witness:
  "lru_find 1 0 (fst (lru_copy (fst one_entry) (snd one_entry))) (snd (lru_copy (fst one_entry) (snd one_entry))) = None \<and>
   lru_insert (1, 20) 0 (fst (lru_copy (fst one_entry) (snd one_entry))) (snd (lru_copy (fst one_entry) (snd one_entry))) = None \<and>
   lru_erase 1 (snd (lru_copy (fst one_entry) (snd one_entry))) = None"
proof -
  have s: "max_size (SharedLRUCache 2) = 2" "\<not> expire (SharedLRUCache 2)" by (simp_all add: SharedLRUCache_def)
  obtain h c where i: "lru_insert (1::int, 10::int) 0 \<lparr>cells = [], next_node = 0\<rparr> (SharedLRUCache 2) = Some (h, c)" "lru_ok h c"
      "contents h c = recency_insert 2 (1, 10::int) 0 []"
    using lru_insert_ok [of "\<lparr>cells = [], next_node = 0\<rparr>" "SharedLRUCache 2" "(1::int, 10::int)" 0, OF lru_new_ok(1)]
    by (auto simp: s lru_new_ok(3))
  have "entry_of 1 (contents h c) \<noteq> None" using i(3) by (simp add: recency_insert_def entry_of_def take_Cons')
  then show ?thesis using lru_cache_copy_is_broken [OF i(2) _ surjective_pairing] i(1) by (simp add: one_entry_def)
qed

end
