(* ===== verification/ProxyCache.thy ===== *)
theory ProxyCache
  imports LRUCache "HOL-Library.Signed_Division"
begin

text \<open>
  \<open>util/cache/proxy_cache.h\<close>: a cache that computes a missing or stale value by a function of the caller and
  keeps other callers of the same key waiting meanwhile. The stretches of \<open>operator()\<close> that hold the mutex are
  the functions \<open>proxy_check\<close> and \<open>proxy_save\<close>; the threads interleave between them. The cache under it is the
  \<open>SharedLRUCache\<close> of \<open>LRUCache\<close>, used through \<open>operator[]\<close> only and without expiry, so it does not
  read the clock. A condition variable may wake up at any time, and the loop checks again.
\<close>

section \<open>State and critical sections\<close>

record 'v proxy_value =
  pv_expire :: int
  pv_inProgress :: bool
  pv_value :: 'v

definition new_value :: "'v \<Rightarrow> 'v proxy_value" where
  "new_value v = \<lparr>pv_expire = 0, pv_inProgress = False, pv_value = v\<rparr>"

record 's proxy =
  store :: 's
  hits :: nat
  calls :: nat
  ttl :: int
  refreshThreshold :: int

text \<open>\<open>None\<close> for the threshold is the default argument, \<open>duration::max()\<close>.\<close>

definition ProxyCache :: "nat \<Rightarrow> int \<Rightarrow> int option \<Rightarrow> ('k, 'v proxy_value) lru_heap \<Rightarrow> (('k, 'v proxy_value) lru_heap \<times> 'k lru) proxy" where
  "ProxyCache limit life threshold h = \<lparr>store = (h, SharedLRUCache limit), hits = 0, calls = 0, ttl = life,
     refreshThreshold = (case threshold of None \<Rightarrow> life sdiv 100 | Some d \<Rightarrow> d)\<rparr>"

text \<open>\<open>cache_[key]\<close> as a value, and an assignment to it.\<close>

definition cache_get :: "'e \<Rightarrow> 'k \<Rightarrow> ('k, 'e) lru_heap \<times> 'k lru \<Rightarrow> ('e \<times> ('k, 'e) lru_heap \<times> 'k lru) option" where
  "cache_get dv k s = do {
     (a, h, c) \<leftarrow> lru_subscript dv k 0 (fst s) (snd s);
     Some (delegate_get a h, h, c)
   }"

definition cache_put :: "'e \<Rightarrow> 'k \<Rightarrow> 'e \<Rightarrow> ('k, 'e) lru_heap \<times> 'k lru \<Rightarrow> (('k, 'e) lru_heap \<times> 'k lru) option" where
  "cache_put dv k v s = do {
     (a, h, c) \<leftarrow> lru_subscript dv k 0 (fst s) (snd s);
     delegate_set a v 0 h c
   }"

text \<open>What a pass of the loop decides: run the query itself, wait, or return a value.\<close>

datatype 'v decision = Run "'v proxy_value" | Wait | Hit 'v

definition proxy_check ::
    "('k \<Rightarrow> 's \<Rightarrow> ('v proxy_value \<times> 's) option) \<Rightarrow> ('k \<Rightarrow> 'v proxy_value \<Rightarrow> 's \<Rightarrow> 's option) \<Rightarrow>
     'k \<Rightarrow> bool \<Rightarrow> int \<Rightarrow> 's proxy \<Rightarrow> ('v decision \<times> 's proxy) option" where
  "proxy_check get put key try_no_block now p = do {
     (v, s) \<leftarrow> get key (store p);
     let p = p\<lparr>store := s\<rparr>;
     let run = do {
         let v = v\<lparr>pv_inProgress := True\<rparr>;
         s \<leftarrow> put key v (store p);
         Some (Run v, p\<lparr>store := s\<rparr>)
       };
     if pv_expire v = 0 \<or> pv_expire v < now then
       if \<not> pv_inProgress v then run else Some (Wait, p)
     else if now < pv_expire v - refreshThreshold p \<or> pv_inProgress v \<or> try_no_block then
       Some (Hit (pv_value v), p\<lparr>hits := hits p + 1\<rparr>)
     else run
   }"

text \<open>The end of \<open>operator()\<close>: the result of the query is saved; notifying the others changes no state.\<close>

definition proxy_save ::
    "('k \<Rightarrow> 'v proxy_value \<Rightarrow> 's \<Rightarrow> 's option) \<Rightarrow> 'k \<Rightarrow> int \<Rightarrow> 'v proxy_value \<Rightarrow> 'v \<Rightarrow> 's proxy \<Rightarrow> 's proxy option" where
  "proxy_save put key now v result p = do {
     let v = v\<lparr>pv_expire := now + ttl p, pv_value := result, pv_inProgress := False\<rparr>;
     s \<leftarrow> put key v (store p);
     Some (p\<lparr>store := s\<rparr>)
   }"

section \<open>Threads\<close>

text \<open>
  Between the critical sections a thread is outside \<open>operator()\<close>, waiting, or running the query. A query that throws
  leaves \<open>operator()\<close> without saving.
\<close>

datatype ('k, 'v) phase = Idle | Blocked 'k bool int | Querying 'k int "'v proxy_value"

definition after :: "'k \<Rightarrow> bool \<Rightarrow> int \<Rightarrow> 'v decision \<Rightarrow> ('k, 'v) phase" where
  "after key nb now d = (case d of Run v \<Rightarrow> Querying key now v | Wait \<Rightarrow> Blocked key nb now | Hit _ \<Rightarrow> Idle)"

inductive proxy_step ::
    "('k \<Rightarrow> 's \<Rightarrow> ('v proxy_value \<times> 's) option) \<Rightarrow> ('k \<Rightarrow> 'v proxy_value \<Rightarrow> 's \<Rightarrow> 's option) \<Rightarrow> 'k set \<Rightarrow>
     's proxy \<times> ('t \<Rightarrow> ('k, 'v) phase) \<Rightarrow> 's proxy \<times> ('t \<Rightarrow> ('k, 'v) phase) \<Rightarrow> bool"
  for get put K where
  call: "ph t = Idle \<Longrightarrow> key \<in> K \<Longrightarrow> proxy_check get put key nb now (p\<lparr>calls := calls p + 1\<rparr>) = Some (d, p') \<Longrightarrow>
     proxy_step get put K (p, ph) (p', ph(t := after key nb now d))"
| wake: "ph t = Blocked key nb now \<Longrightarrow> proxy_check get put key nb now p = Some (d, p') \<Longrightarrow>
     proxy_step get put K (p, ph) (p', ph(t := after key nb now d))"
| finish: "ph t = Querying key now v \<Longrightarrow> proxy_save put key now v result p = Some p' \<Longrightarrow>
     proxy_step get put K (p, ph) (p', ph(t := Idle))"

inductive proxy_throw :: "'p \<times> ('t \<Rightarrow> ('k, 'v) phase) \<Rightarrow> 'p \<times> ('t \<Rightarrow> ('k, 'v) phase) \<Rightarrow> bool" where
  throw: "ph t = Querying key now v \<Longrightarrow> proxy_throw (p, ph) (p, ph(t := Idle))"

inductive_cases proxy_stepE: "proxy_step get put K (p, ph) s"
inductive_cases proxy_throwE: "proxy_throw (p, ph) s"

section \<open>A store of values\<close>

text \<open>What the algorithm needs of the cache for a set of keys: reading and writing act on a map.\<close>

locale key_store =
  fixes get :: "'k \<Rightarrow> 's \<Rightarrow> ('v proxy_value \<times> 's) option" and put :: "'k \<Rightarrow> 'v proxy_value \<Rightarrow> 's \<Rightarrow> 's option"
    and holds :: "'s \<Rightarrow> 'k \<Rightarrow> 'v proxy_value" and ok :: "'s \<Rightarrow> bool" and K :: "'k set"
  assumes get_law: "ok s \<Longrightarrow> k \<in> K \<Longrightarrow> \<exists>s'. get k s = Some (holds s k, s') \<and> ok s' \<and> holds s' = holds s"
    and put_law: "ok s \<Longrightarrow> k \<in> K \<Longrightarrow> \<exists>s'. put k v s = Some s' \<and> ok s' \<and> holds s' = (holds s)(k := v)"

definition querying :: "('t \<Rightarrow> ('k, 'v) phase) \<Rightarrow> 'k \<Rightarrow> 't set" where
  "querying ph k = {t. \<exists>now v. ph t = Querying k now v}"

lemma querying_update:
  "querying (ph(t := x)) k = (if \<exists>now v. x = Querying k now v then insert t (querying ph k) else querying ph k - {t})"
  by (auto simp: querying_def)

context key_store
begin

text \<open>
  The mark \<open>inProgress\<close> of a key is set while a thread queries it; at most one does. \<open>exact\<close> says that it is set
  only then, which a query that throws destroys.
\<close>

definition marked :: "bool \<Rightarrow> 's proxy \<times> ('t \<Rightarrow> ('k, 'v) phase) \<Rightarrow> bool" where
  "marked exact s \<longleftrightarrow> (case s of (p, ph) \<Rightarrow> ok (store p) \<and>
     (\<forall>k t t'. t \<in> querying ph k \<and> t' \<in> querying ph k \<longrightarrow> t = t') \<and>
     (\<forall>k. querying ph k \<noteq> {} \<longrightarrow> k \<in> K \<and> pv_inProgress (holds (store p) k)) \<and>
     (exact \<longrightarrow> (\<forall>k \<in> K. pv_inProgress (holds (store p) k) \<longrightarrow> querying ph k \<noteq> {})) \<and>
     (\<forall>t k nb now. ph t = Blocked k nb now \<longrightarrow> k \<in> K))"

lemma marked_blocked: "marked exact (p, ph) \<Longrightarrow> ph t = Blocked k nb now \<Longrightarrow> k \<in> K"
  unfolding marked_def by blast

lemma proxy_check_ok:
  assumes "ok (store p)" "k \<in> K"
  shows "\<exists>d p'. proxy_check get put k nb now p = Some (d, p') \<and> ok (store p') \<and> ttl p' = ttl p \<and>
    (case d of
       Run v \<Rightarrow> \<not> pv_inProgress (holds (store p) k) \<and> v = (holds (store p) k)\<lparr>pv_inProgress := True\<rparr> \<and>
         holds (store p') = (holds (store p))(k := v)
     | Wait \<Rightarrow> pv_inProgress (holds (store p) k) \<and> holds (store p') = holds (store p)
     | Hit v \<Rightarrow> v = pv_value (holds (store p) k) \<and> pv_expire (holds (store p) k) \<noteq> 0 \<and> now \<le> pv_expire (holds (store p) k) \<and>
         holds (store p') = holds (store p))"
proof -
  obtain s where s: "get k (store p) = Some (holds (store p) k, s)" "ok s" "holds s = holds (store p)"
    using get_law [OF assms] by blast
  obtain s' where "put k ((holds (store p) k)\<lparr>pv_inProgress := True\<rparr>) s = Some s'" "ok s'"
      "holds s' = (holds s)(k := (holds (store p) k)\<lparr>pv_inProgress := True\<rparr>)"
    using put_law [OF s(2) assms(2)] by blast
  then show ?thesis using s by (simp add: proxy_check_def Let_def not_less)
qed

lemma marked_check:
  assumes m: "marked exact (p, ph)" and k: "k \<in> K" and "\<And>key now v. ph t \<noteq> Querying key now v"
    and c: "proxy_check get put k nb now p' = Some (d, p'')" and p': "store p' = store p"
  shows "marked exact (p'', ph(t := after k nb now d))"
proof -
  have t: "t \<notin> querying ph k'" for k' using assms(3) by (auto simp: querying_def)
  have ok: "ok (store p')" using m p' by (simp add: marked_def)
  note r = proxy_check_ok [OF ok k, of nb now, unfolded c]
  show ?thesis
  proof (cases d)
    case (Run v)
    have none: "querying ph k = {}" using r m p' Run by (auto simp: marked_def)
    have q: "querying (ph(t := after k nb now d)) k' = (if k' = k then {t} else querying ph k')" for k'
      using t none by (auto simp: querying_update after_def Run)
    show ?thesis using m r none k p' unfolding marked_def prod.case q by (auto simp: Run after_def)
  next
    case Wait
    have q: "querying (ph(t := after k nb now d)) k' = querying ph k'" for k'
      using t by (auto simp: querying_update after_def Wait)
    show ?thesis using m r k p' unfolding marked_def prod.case q by (auto simp: Wait after_def)
  next
    case (Hit v)
    have q: "querying (ph(t := after k nb now d)) k' = querying ph k'" for k'
      using t by (auto simp: querying_update after_def Hit)
    show ?thesis using m r k p' unfolding marked_def prod.case q by (auto simp: Hit after_def)
  qed
qed

lemma marked_finish:
  assumes m: "marked exact (p, ph)" and t: "ph t = Querying k now v" and s: "proxy_save put k now v result p = Some p'"
  shows "marked exact (p', ph(t := Idle))"
proof -
  have tk: "t \<in> querying ph k" using t by (auto simp: querying_def)
  then have k: "k \<in> K" "querying ph k = {t}" using m unfolding marked_def by auto
  have ok: "ok (store p)" using m by (simp add: marked_def)
  have h: "ok (store p')" "\<And>k'. k' \<noteq> k \<Longrightarrow> holds (store p') k' = holds (store p) k'" "\<not> pv_inProgress (holds (store p') k)"
    using s put_law [OF ok k(1), of "v\<lparr>pv_expire := now + ttl p, pv_value := result, pv_inProgress := False\<rparr>"]
    by (auto simp: proxy_save_def Let_def)
  have q: "querying (ph(t := Idle)) k' = (if k' = k then {} else querying ph k')" for k'
    using k(2) t by (auto simp: querying_update querying_def)
  have h': "pv_inProgress (holds (store p') k') \<longleftrightarrow> k' \<noteq> k \<and> pv_inProgress (holds (store p) k')" for k'
    using h(2,3) by (cases "k' = k") auto
  show ?thesis using m h(1) unfolding marked_def prod.case q h' by (auto split: if_splits)
qed

lemma marked_step:
  assumes "marked exact s" "proxy_step get put K s s'" shows "marked exact s'"
  using assms(2,1)
proof (cases rule: proxy_step.cases)
  case (call ph t key nb now p d p')
  show ?thesis unfolding call(2)
    by (rule marked_check [OF assms(1) [unfolded call(1)] call(4) _ call(5)]) (use call(3) in simp_all)
next
  case (wake ph t key nb now p d p')
  have "key \<in> K" using assms(1) wake(3) unfolding wake(1) by (rule marked_blocked)
  then show ?thesis unfolding wake(2)
    by (rule marked_check [OF assms(1) [unfolded wake(1)] _ _ wake(4)]) (use wake(3) in simp_all)
next
  case (finish ph t key now v result p p')
  show ?thesis unfolding finish(2) by (rule marked_finish [OF assms(1) [unfolded finish(1)] finish(3,4)])
qed

lemma marked_throw: "marked False s \<Longrightarrow> proxy_throw s s' \<Longrightarrow> marked False s'"
  by (erule proxy_throw.cases) (force simp: marked_def querying_update split: if_splits)

lemma marked_reachable: "(proxy_step get put K)\<^sup>*\<^sup>* s s' \<Longrightarrow> marked exact s \<Longrightarrow> marked exact s'"
  by (induction rule: rtranclp_induct) (auto intro: marked_step)

lemma marked_reachable_throw:
  "(\<lambda>s s'. proxy_step get put K s s' \<or> proxy_throw s s')\<^sup>*\<^sup>* s s' \<Longrightarrow> marked False s \<Longrightarrow> marked False s'"
  by (induction rule: rtranclp_induct) (auto intro: marked_step marked_throw)

text \<open>No thread waits for nothing.\<close>

lemma blocked_progress:
  assumes "marked True (p, ph)" "ph t = Blocked k nb now"
  shows "querying ph k \<noteq> {} \<or> (\<exists>d p'. proxy_check get put k nb now p = Some (d, p') \<and> d \<noteq> Wait)"
proof -
  have k: "ok (store p)" "k \<in> K" using assms(1) marked_blocked [OF assms] by (simp_all add: marked_def)
  obtain d p' where c: "proxy_check get put k nb now p = Some (d, p')" "d = Wait \<Longrightarrow> pv_inProgress (holds (store p) k)"
    using proxy_check_ok [OF k, of nb now] by force
  moreover have "pv_inProgress (holds (store p) k) \<longrightarrow> querying ph k \<noteq> {}" using assms(1) k(2) by (simp add: marked_def)
  ultimately show ?thesis by blast
qed

text \<open>A key that is marked, has no value and is not being queried stays so for ever.\<close>

definition stuck :: "'k \<Rightarrow> 's proxy \<times> ('t \<Rightarrow> ('k, 'v) phase) \<Rightarrow> bool" where
  "stuck k s \<longleftrightarrow> (case s of (p, ph) \<Rightarrow> querying ph k = {} \<and> pv_inProgress (holds (store p) k) \<and> pv_expire (holds (store p) k) = 0)"

lemma stuck_check:
  assumes "stuck k (p, ph)" "ok (store p)" "k' \<in> K" "store p' = store p" "proxy_check get put k' nb now p' = Some (d, p'')"
  shows "stuck k (p'', ph(t := after k' nb now d))" "k' = k \<Longrightarrow> d = Wait"
proof -
  have ok: "ok (store p')" using assms(2,4) by simp
  note r = proxy_check_ok [OF ok assms(3), of nb now, unfolded assms(5)]
  show "k' = k \<Longrightarrow> d = Wait" using r assms(1,4) by (cases d) (auto simp: stuck_def)
  then show "stuck k (p'', ph(t := after k' nb now d))" using r assms(1,4)
    by (cases d; cases "k' = k") (auto simp: stuck_def after_def querying_update)
qed

lemma stuck_step:
  assumes "stuck k s" "marked False s" "proxy_step get put K s s'" shows "stuck k s'"
  using assms(3,1,2)
proof (cases rule: proxy_step.cases)
  case (call ph t key nb now p d p')
  then show ?thesis using stuck_check(1) [of k p ph key "p\<lparr>calls := calls p + 1\<rparr>"] assms(1,2) by (simp add: marked_def)
next
  case (wake ph t key nb now p d p')
  moreover have "key \<in> K" using assms(2) wake(3) unfolding wake(1) by (rule marked_blocked)
  ultimately show ?thesis using stuck_check(1) [of k p ph key p] assms(1,2) by (simp add: marked_def)
next
  case (finish ph t key now v result p p')
  then have tk: "t \<in> querying ph key" by (auto simp: querying_def)
  then have k: "key \<in> K" "ok (store p)" "key \<noteq> k" using assms(1,2) finish(1) by (auto simp: marked_def stuck_def)
  have "holds (store p') k = holds (store p) k"
    using finish(4) k(3) put_law [OF k(2,1), of "v\<lparr>pv_expire := now + ttl p, pv_value := result, pv_inProgress := False\<rparr>"]
    by (auto simp: proxy_save_def Let_def)
  then show ?thesis using assms(1) finish(1,2) by (auto simp: stuck_def querying_update)
qed

lemma stuck_reachable:
  assumes "(\<lambda>s s'. proxy_step get put K s s' \<or> proxy_throw s s')\<^sup>*\<^sup>* s s'" "stuck k s" "marked False s"
  shows "stuck k s' \<and> marked False s'"
  using assms
proof (induction rule: rtranclp_induct)
  case (step s1 s2)
  then have s1: "stuck k s1" "marked False s1" by simp_all
  show ?case
  proof (cases "proxy_step get put K s1 s2")
    case False
    then have "proxy_throw s1 s2" using step(2) by simp
    then show ?thesis using s1(1) marked_throw [OF s1(2)] by (auto elim!: proxy_throw.cases simp: stuck_def querying_update)
  qed (use s1 stuck_step marked_step in blast)
qed simp

end

section \<open>The store is the LRU cache\<close>

text \<open>
  The cache holds a map from keys, with the default value for the absent ones, as long as the keys in use fit
  into it.
\<close>

definition lru_holds :: "'e \<Rightarrow> ('k, 'e) lru_heap \<times> 'k lru \<Rightarrow> 'k \<Rightarrow> 'e" where
  "lru_holds dv s k = (case entry_of k (contents (fst s) (snd s)) of None \<Rightarrow> dv | Some e \<Rightarrow> snd (fst e))"

definition lru_within :: "'k set \<Rightarrow> ('k, 'e) lru_heap \<times> 'k lru \<Rightarrow> bool" where
  "lru_within K s \<longleftrightarrow> lru_ok (fst s) (snd s) \<and> \<not> expire (snd s) \<and> finite K \<and> card K \<le> max_size (snd s) \<and>
     (\<lambda>e. fst (fst e)) ` set (contents (fst s) (snd s)) \<subseteq> K"

lemma entry_of_without: "entry_of k' (without k xs) = (if k' = k then None else entry_of k' xs)"
  by (induction xs) (auto simp: entry_of_def without_def)

lemma entry_of_Cons: "entry_of k (((k', v), tp) # xs) = (if k' = k then Some ((k', v), tp) else entry_of k xs)"
  by (simp add: entry_of_def)

lemma recency_find_holds:
  "entry_of k' (snd (recency_find False k now xs)) = entry_of k' xs"
  "(\<lambda>e. fst (fst e)) ` set (snd (recency_find False k now xs)) = (\<lambda>e. fst (fst e)) ` set xs"
proof -
  have "entry_of k' (snd (recency_find False k now xs)) = entry_of k' xs \<and>
    (\<lambda>e. fst (fst e)) ` set (snd (recency_find False k now xs)) = (\<lambda>e. fst (fst e)) ` set xs"
  proof (cases "entry_of k xs")
    case (Some e)
    obtain v tp where e: "e = ((k, v), tp)" using entry_of_key [OF Some] by (cases e) auto
    then have "e \<in> set xs" using Some by (auto simp: entry_of_def find_Some_iff)
    then have "k \<in> (\<lambda>e. fst (fst e)) ` set xs" using e by force
    moreover have "(\<lambda>e. fst (fst e)) ` set (without k xs) = (\<lambda>e. fst (fst e)) ` set xs - {k}" by (auto simp: without_def)
    ultimately show ?thesis using Some e by (auto simp: recency_find_def entry_of_Cons entry_of_without)
  qed (simp add: recency_find_def)
  then show "entry_of k' (snd (recency_find False k now xs)) = entry_of k' xs"
    "(\<lambda>e. fst (fst e)) ` set (snd (recency_find False k now xs)) = (\<lambda>e. fst (fst e)) ` set xs" by blast+
qed

lemma subscript_within:
  assumes "lru_within K s" "k \<in> K"
  obtains a h c where "lru_subscript dv k 0 (fst s) (snd s) = Some (a, h, c)" "lru_within K (h, c)" "a < length (cells h)"
    "cells h ! a = (k, lru_holds dv s k)" "lru_holds dv (h, c) = lru_holds dv s"
proof -
  obtain a h c where r: "lru_subscript dv k 0 (fst s) (snd s) = Some (a, h, c)" "lru_ok h c" "a < length (cells h)"
    "cells h ! a = (case fst (recency_find False k 0 (contents (fst s) (snd s))) of Some kv \<Rightarrow> kv | None \<Rightarrow> (k, dv))"
    "contents h c = snd (recency_find False k 0 (contents (fst s) (snd s)))" "max_size c = max_size (snd s)" "\<not> expire c"
    using lru_subscript_ok [of "fst s" "snd s" dv k 0] assms(1) by (auto simp: lru_within_def)
  have "cells h ! a = (k, lru_holds dv s k)"
  proof (cases "entry_of k (contents (fst s) (snd s))")
    case (Some e)
    then show ?thesis using r(4) entry_of_key [OF Some] by (cases e) (auto simp: recency_find_def lru_holds_def)
  qed (use r(4) in \<open>simp add: recency_find_def lru_holds_def\<close>)
  moreover have "lru_within K (h, c)" using assms(1) r(2,5,6,7) recency_find_holds(2) [of k 0 "contents (fst s) (snd s)"]
    by (simp add: lru_within_def)
  moreover have "lru_holds dv (h, c) = lru_holds dv s" using r(5) by (simp add: lru_holds_def fun_eq_iff recency_find_holds(1))
  ultimately show thesis using r(1,3) that by blast
qed

interpretation lru_store: key_store "cache_get dv" "cache_put dv" "lru_holds dv" "lru_within K" K for dv K
proof
  fix s :: "('b, 'a proxy_value) lru_heap \<times> 'b lru" and k v assume s: "lru_within K s" "k \<in> K"
  obtain a h c where r: "lru_subscript dv k 0 (fst s) (snd s) = Some (a, h, c)" "lru_within K (h, c)" "a < length (cells h)"
    "cells h ! a = (k, lru_holds dv s k)" "lru_holds dv (h, c) = lru_holds dv s"
    using s by (rule subscript_within)
  show "\<exists>s'. cache_get dv k s = Some (lru_holds dv s k, s') \<and> lru_within K s' \<and> lru_holds dv s' = lru_holds dv s"
    using r by (simp add: cache_get_def delegate_get_def)
  have ok: "lru_ok h c" "\<not> expire c" "finite K" "card K \<le> max_size c" "(\<lambda>e. fst (fst e)) ` set (contents h c) \<subseteq> K"
    using r(2) by (simp_all add: lru_within_def)
  have "fst (cells h ! a) = k" using r(4) by simp
  from delegate_set_ok [OF ok(1) r(3) this, of v 0] ok(2)
  obtain h' c' where w: "delegate_set a v 0 h c = Some (h', c')" "lru_ok h' c'" "max_size c' = max_size c" "\<not> expire c'"
      "contents h' c' = recency_insert (max_size c) (k, v) 0 (contents h c)" by auto
  let ?xs = "((k, v), 0) # without k (contents h c)"
  have keys: "(\<lambda>e. fst (fst e)) ` set ?xs \<subseteq> K" using ok(5) s(2) by (auto simp: without_def)
  have "distinct (List.map (\<lambda>e. fst (fst e)) (contents h c))" using ok(1) by (simp add: contents_keys lru_ok_def linked_def)
  then have "distinct (List.map (\<lambda>e. fst (fst e)) ?xs)" by (auto simp: without_def distinct_map_filter)
  from distinct_card [OF this] have "length ?xs = card ((\<lambda>e. fst (fst e)) ` set ?xs)" by simp
  also have "\<dots> \<le> max_size c" using card_mono [OF ok(3) keys] ok(4) by (rule le_trans)
  finally have con: "contents h' c' = ?xs" using w(5) by (simp add: recency_insert_def)
  have "lru_within K (h', c')" using ok(3,4) w(2-4) keys con by (simp add: lru_within_def)
  moreover have "lru_holds dv (h', c') = (lru_holds dv s)(k := v)"
    unfolding r(5) [symmetric] by (auto simp: lru_holds_def con entry_of_Cons entry_of_without fun_eq_iff)
  ultimately show "\<exists>s'. cache_put dv k v s = Some s' \<and> lru_within K s' \<and> lru_holds dv s' = (lru_holds dv s)(k := v)"
    using r(1) w(1) by (simp add: cache_put_def)
qed

section \<open>The proxy cache\<close>

abbreviation idle :: "'t \<Rightarrow> ('k, 'v) phase" where
  "idle \<equiv> \<lambda>_. Idle"

definition proxy_runs ::
    "'v proxy_value \<Rightarrow> 'k set \<Rightarrow> (('k, 'v proxy_value) lru_heap \<times> 'k lru) proxy \<times> ('t \<Rightarrow> ('k, 'v) phase) \<Rightarrow>
     (('k, 'v proxy_value) lru_heap \<times> 'k lru) proxy \<times> ('t \<Rightarrow> ('k, 'v) phase) \<Rightarrow> bool" where
  "proxy_runs dv K = (proxy_step (cache_get dv) (cache_put dv) K)\<^sup>*\<^sup>*"

definition proxy_runs_or_throws ::
    "'v proxy_value \<Rightarrow> 'k set \<Rightarrow> (('k, 'v proxy_value) lru_heap \<times> 'k lru) proxy \<times> ('t \<Rightarrow> ('k, 'v) phase) \<Rightarrow>
     (('k, 'v proxy_value) lru_heap \<times> 'k lru) proxy \<times> ('t \<Rightarrow> ('k, 'v) phase) \<Rightarrow> bool" where
  "proxy_runs_or_throws dv K = (\<lambda>s s'. proxy_step (cache_get dv) (cache_put dv) K s s' \<or> proxy_throw s s')\<^sup>*\<^sup>*"

lemma new_proxy_marked:
  assumes "finite K" "card K \<le> n" "\<not> pv_inProgress dv"
  shows "lru_store.marked dv K exact (ProxyCache n life threshold h, idle)"
  using assms lru_new_ok(1,3) [of h n]
  by (simp add: lru_store.marked_def querying_def ProxyCache_def lru_within_def lru_holds_def entry_of_def SharedLRUCache_def)

text \<open>Two calls on a cache of one entry.\<close>

definition small_proxy :: "((int, int proxy_value) lru_heap \<times> int lru) proxy" where
  "small_proxy = ProxyCache 1 100 None \<lparr>cells = [], next_node = 0\<rparr>"

definition called :: "int \<Rightarrow> int \<Rightarrow> ((int, int proxy_value) lru_heap \<times> int lru) proxy \<Rightarrow>
    (int decision \<times> ((int, int proxy_value) lru_heap \<times> int lru) proxy) option" where
  "called k now p = proxy_check (cache_get (new_value 0)) (cache_put (new_value 0)) k False now (p\<lparr>calls := calls p + 1\<rparr>)"

definition after_first :: "((int, int proxy_value) lru_heap \<times> int lru) proxy" where
  "after_first = snd (the (called 1 5 small_proxy))"

definition after_second :: "int \<Rightarrow> ((int, int proxy_value) lru_heap \<times> int lru) proxy" where
  "after_second k = snd (the (called k 6 after_first))"

definition in_query :: "int proxy_value" where
  "in_query = (new_value 0)\<lparr>pv_inProgress := True\<rparr>"

lemma first_call: "called 1 5 small_proxy = Some (Run in_query, after_first)"
  unfolding after_first_def by code_simp

lemma second_call: "called 1 6 after_first = Some (Wait, after_second 1)"
  "called 2 6 after_first = Some (Run in_query, after_second 2)"
  unfolding after_second_def by code_simp+

lemma third_call: "called 1 7 (after_second 2) = Some (Run in_query, snd (the (called 1 7 (after_second 2))))"
  by code_simp

lemma call_runs:
  assumes "called k now p = Some (d, p')" "ph t = Idle" "k \<in> K" "proxy_runs (new_value 0) K s (p, ph)"
  shows "proxy_runs (new_value 0) K s (p', ph(t := after k False now d))"
proof -
  have "proxy_step (cache_get (new_value 0)) (cache_put (new_value 0)) K (p, ph) (p', ph(t := after k False now d))"
    using assms(2,3) assms(1) [unfolded called_def] by (rule proxy_step.call)
  with assms(4) show ?thesis unfolding proxy_runs_def by (rule rtranclp.rtrancl_into_rtrancl)
qed

text \<open>
  C9. No thundering herd: when the keys in use fit into the cache, then however the threads interleave, wake up and
  finish, and even if queries throw, no two threads ever run the query of one key at the same time, and no
  critical section meets undefined behaviour of the cache.
\<close>
theorem proxy_cache_one_query_per_key:
  assumes "finite K" "card K \<le> n"
    and "proxy_runs_or_throws (new_value dv) K (ProxyCache n life threshold h, idle) (p, ph)"
  shows "(t \<in> querying ph k \<and> t' \<in> querying ph k \<longrightarrow> t = t') \<and>
    (k \<in> K \<longrightarrow> proxy_check (cache_get (new_value dv)) (cache_put (new_value dv)) k nb now p \<noteq> None)"
proof -
  have "lru_store.marked (new_value dv) K False (ProxyCache n life threshold h, idle)"
    by (rule new_proxy_marked [OF assms(1,2)]) (simp add: new_value_def)
  from lru_store.marked_reachable_throw [OF assms(3) [unfolded proxy_runs_or_throws_def] this]
  have m: "lru_store.marked (new_value dv) K False (p, ph)" .
  have "proxy_check (cache_get (new_value dv)) (cache_put (new_value dv)) k nb now p \<noteq> None" if "k \<in> K"
    using lru_store.proxy_check_ok [OF _ that, where p = p and nb = nb and now = now and dv = "new_value dv"] m by (auto simp: lru_store.marked_def)
  moreover have "t = t'" if "t \<in> querying ph k \<and> t' \<in> querying ph k" using m that unfolding lru_store.marked_def by blast
  ultimately show ?thesis by blast
qed

theorem proxy_cache_one_query_per_key_witness:
  "\<not> (True \<in> querying (idle :: bool \<Rightarrow> (int, int) phase) 1 \<and> False \<in> querying (idle :: bool \<Rightarrow> (int, int) phase) 1) \<and>
    proxy_check (cache_get (new_value (0::int))) (cache_put (new_value 0)) (1::int) False 5
       (ProxyCache 1 100 None \<lparr>cells = [], next_node = 0\<rparr>) \<noteq> None"
  using proxy_cache_one_query_per_key [where K = "{1::int}" and n = 1 and dv = "0::int" and life = 100 and threshold = None and
      h = "\<lparr>cells = [], next_node = 0\<rparr>" and p = "ProxyCache 1 100 None \<lparr>cells = [], next_node = 0\<rparr>" and
      ph = "idle :: bool \<Rightarrow> (int, int) phase" and t = True and t' = False and k = 1 and nb = False and now = 5]
  by (simp add: proxy_runs_or_throws_def)





text \<open>
  C37. The cache must hold all keys in use: with room for one entry, a call for a second key evicts the mark of the first,
  and a third call runs the query of the first key again while it is still running.
\<close>
theorem proxy_cache_eviction_duplicates_query:
  "\<exists>p ph. proxy_runs (new_value 0) {1, 2} (small_proxy, idle) (p, ph) \<and> {0::nat, 2} \<subseteq> querying ph 1"
proof -
  let ?ph = "idle(0::nat := Querying 1 5 in_query, 1 := Querying 2 6 in_query, 2 := Querying 1 7 in_query)"
  have "proxy_runs (new_value 0) {1, 2} (small_proxy, idle) (after_first, idle(0::nat := Querying 1 5 in_query))"
    using call_runs [OF first_call, of idle 0 "{1, 2}" "(small_proxy, idle)"] by (simp add: proxy_runs_def after_def)
  from call_runs [OF second_call(2) _ _ this, of 1]
  have "proxy_runs (new_value 0) {1, 2} (small_proxy, idle) (after_second 2, idle(0::nat := Querying 1 5 in_query, 1 := Querying 2 6 in_query))"
    by (simp add: after_def)
  from call_runs [OF third_call _ _ this, of 2]
  have "proxy_runs (new_value 0) {1, 2} (small_proxy, idle) (snd (the (called 1 7 (after_second 2))), ?ph)"
    by (simp add: after_def)
  moreover have "{0::nat, 2} \<subseteq> querying ?ph 1" by (auto simp: querying_def)
  ultimately show ?thesis by blast
qed

end
