(* ===== verification/Spec2Isabelle.thy ===== *)
theory Spec2Isabelle
  imports BestN AStar_Optimal TimeDomain_Sharp StrSplit Varint Encoding ProxyCache
begin

text \<open>
  \<^bold>\<open>A verification of the core libraries of 77up (room77/77up, C++).\<close>

  The repository is the code base of a hotel search engine: a set of general C++ libraries under
  \<^verbatim>\<open>src/public/util\<close> and \<^verbatim>\<open>src/public/base\<close>, services over them (RPC, search index, suggest
  server) and web front ends. This development models the libraries the services rest on, function by function,
  and states what makes each of them correct.

  \<^bold>\<open>How the code is modelled.\<close> A class is a record or a datatype, a method a function that takes the
  object and returns it changed. \<open>ASSERT\<close>, which aborts the program, undefined behaviour (reading outside a vector,
  erasing a list node that is not there) and a loop that does not end are the value \<open>None\<close> of an option; an
  error the code reports to its caller is a value of the result. \<open>int\<close> and \<open>char\<close> members are integers
  reduced to their width where the code can leave it (\<open>int32\<close>, \<open>int8\<close>); the codecs of
  \<open>Varint\<close> work on machine words. \<open>std::string\<close> is a list of 8-bit characters; a \<open>const char *\<close> is
  the rest of the string it points into, and reading at its end gives the zero byte (\<open>at_ptr\<close>). Loops are
  structural recursion where they have a bound, and \<open>partial_function (option)\<close> or fuel where they may not end;
  then termination is a theorem. Logging (\<open>VLOG\<close>, \<open>LOG\<close>) has no effect on the state and is left out.

  \<^bold>\<open>Theories and the code they model.\<close>
    \<^item> \<open>Prelude\<close>: the option monad with \<open>ASSERT\<close> (\<^verbatim>\<open>base/logging.h\<close>), and the collection \<open>vec_simps\<close>.
    \<^item> \<open>Comparator\<close>, \<open>PQueue\<close>, \<open>RAHeap\<close>, \<open>Heap_Order\<close>, \<open>BestN\<close>: the comparators and containers of
      \<^verbatim>\<open>util/templates\<close> (\<^verbatim>\<open>comparator.h\<close>, \<^verbatim>\<open>ra_heap.h\<close>, \<^verbatim>\<open>best_n.h\<close>). \<open>PQueue\<close> is the contract of a priority
      queue as a locale, \<open>Heap_Order\<close> what an array heap is; both heaps of the code (\<open>RAHeap\<close> and
      \<open>NodeList\<close>) interpret them. The lemmas show that the sifting operations restore the order at one cell, that
      the index map stays in step with the array, and that popping yields a best item.
    \<^item> \<open>NodeList\<close>, \<open>Collection\<close>, \<open>AStar\<close>, \<open>AStar_Optimal\<close>: \<^verbatim>\<open>util/algorithm/nodelist.h\<close> and \<^verbatim>\<open>astar.h\<close> and
      \<^verbatim>\<open>util/memory/collection.h\<close>. A search problem is a record of the functions a user class overrides;
      \<open>AStar_Optimal\<close> proves that the search ends and returns a cheapest plan.
    \<^item> \<open>CInt\<close>, \<open>Calendar\<close>, \<open>LocalTime\<close>: \<open>int\<close> arithmetic, \<^verbatim>\<open>util/time/calendarutil\<close>, \<^verbatim>\<open>localtime\<close>. A valid time
      is identified with its number of seconds since 1970 (\<open>raw_seconds\<close>), and every operation is shown to act on
      that number.
    \<^item> \<open>PointParse\<close>, \<open>SharpPoint\<close>, \<open>SharpPoint_Search\<close>, \<open>SharpPoint_Result\<close>: \<^verbatim>\<open>sharppoint.h/.cc\<close>, a recurring
      point in time (the first Monday of January at 9). The body of the loop of \<open>ModifyTime\<close> is one function per
      adjusted member; each satisfies the contract of the locale \<open>adjuster\<close> (it moves the time in the right direction
      and over no matching time), the locale composes them, and the loop is shown to end and to find the nearest
      match. \<open>SharpPoint\<close> also has the parser, the printer and their round trip.
    \<^item> \<open>TimeDuration\<close>, \<open>TimePoint\<close>, \<open>TimeDomain\<close>, \<open>TimeDomain_Set\<close>, \<open>TimeDomain_Sharp\<close>: \<^verbatim>\<open>timeduration\<close>,
      \<^verbatim>\<open>timepoint.h\<close>, \<^verbatim>\<open>timedomain_single.h\<close>, \<^verbatim>\<open>timedomain.h\<close>. The template parameter is the record
      \<open>point_type\<close>; the locales \<open>recurring_point\<close>, \<open>printable_point\<close> and \<open>consuming_point\<close> are what the
      templates need of it and are interpreted by \<open>SharpPoint\<close>. \<open>TimeDomain_Set\<close> gives an expression its meaning, a
      set of seconds, and shows that \<open>CheckTime\<close> decides it and finds its boundaries.
    \<^item> \<open>CStr\<close>, \<open>StrUtil\<close>, \<open>StrEscape\<close>, \<open>StrSplit\<close>: \<^verbatim>\<open>util/string/strutil.h/.cc\<close>: predicates and edits, the
      escapes with their decoders, splitting, joining, replacing and edit distance.
    \<^item> \<open>IStream\<close>, \<open>Varint\<close>, \<open>Encoding\<close>: \<^verbatim>\<open>util/serial\<close>: the stream scanners of \<^verbatim>\<open>stream_util.h\<close>, the binary
      integers of \<^verbatim>\<open>varint.h\<close>, \<^verbatim>\<open>fixedint.h\<close>, \<^verbatim>\<open>endian.h\<close>, and the string encoding of the JSON serializer.
    \<^item> \<open>LRUCache\<close>, \<open>ProxyCache\<close>: \<^verbatim>\<open>util/cache/shared_lru_cache.h\<close> and \<^verbatim>\<open>proxy_cache.h\<close>. Entries are cells of a
      heap that the list, the map, iterators and delegates share; iterators into the list are identities of nodes. The
      abstract cache is the list of entries in order of use (\<open>contents\<close>). \<open>ProxyCache\<close> is the critical sections of
      \<open>operator()\<close> as functions and the threads as a step relation over them; what it needs of the cache is the locale
      \<open>key_store\<close>, interpreted by the LRU cache as long as the keys in use fit into it.
  \<^bold>\<open>How the parts interact.\<close> \<open>AStar\<close> keeps its nodes in a \<open>UniqueCollection\<close> and its open list in a
  \<open>NodeList\<close>, which writes each node's position back into the node. \<open>TimeDomain\<close> calls \<open>TimePoint\<close>, which calls
  \<open>SharpPoint\<close>, which steps through \<open>LocalTime\<close>, which normalizes by \<open>CalendarUtil\<close>; the parsers share
  \<open>SkipSpaces\<close> and \<open>ErrorMsg\<close> of \<open>strutil\<close>. \<open>Encoding\<close> reads and writes through \<open>IStream\<close>. \<open>ProxyCache\<close>
  keeps its values and marks in an LRU cache through \<open>operator[]\<close>.

  \<^bold>\<open>Bounds and fuel.\<close> \<open>td_Init\<close> gives the recursive-descent parser the length of the text plus one as fuel;
  \<open>timedomain_parse_returns\<close> shows that no text exhausts it. The boundary search of \<open>CheckTime\<close> has the 50
  tries of the code. Times are specified on windows of years (1972 to 2996 for a point, 1981 to 2989 for a domain),
  inside the years 1971 to 2999 the code calls finite, because a search near either end meets the times that stand
  for infinity. \<open>Search_loop\<close>, \<open>ModifyTime_loop\<close>, \<open>ElapseFrom1970_loop\<close>, \<open>ReplaceAll_loop\<close> and
  \<open>TracePlan_loop\<close> are \<open>partial_function\<close>s: that they return is proved for each, with the exceptions the
  properties name.

  \<^bold>\<open>Not modelled.\<close> Floating-point code (geo, sunrise in \<open>GenericPoint\<close>, statistics), sockets, event loops and
  RPC, threads and their pools, files and databases, the template metaprograms of the serializer, the loaders of
  region data and the servers on top, third-party code, and the JavaScript front ends. Of the modelled libraries:
  \<open>printf\<close>-style formatting, the conversions of text to floating-point numbers, the current time (a parameter
  where it matters), iterator classes that only walk a container, and debug printing.
\<close>

end
